(* ===== verification/Prelude.thy ===== *)
theory Prelude
  imports Main "HOL-Library.Word"
begin

text \<open>
  What every component of the development shares: bytes and Go strings, the result type of
  fallible operations with its bind, association lists standing for Go maps whose iteration
  order is fixed by one execution, and the named collections that carry the component proofs.

  A Go string is a sequence of bytes. It is modelled as a HOL string (a list of 8-bit
  characters), so that literals read as in the source; a byte slice is a list of 8-bit words.
  The conversions \<open>[]byte(s)\<close> and \<open>string(b)\<close> are the bijections below.
\<close>

named_theorems res_simps \<open>unfolding of the result monad\<close>
named_theorems wire_simps \<open>how a decoder step acts on a decoder positioned at known bytes\<close>
named_theorems enc_simps \<open>what an encoder step appends\<close>

section \<open>Bytes and strings\<close>

type_synonym byte = "8 word"
type_synonym bytes = "byte list"

definition byte_char :: "byte \<Rightarrow> char" where
  "byte_char b = Char (bit b 0) (bit b 1) (bit b 2) (bit b 3) (bit b 4) (bit b 5) (bit b 6) (bit b 7)"

definition char_byte :: "char \<Rightarrow> byte" where
  "char_byte c = of_char c"

definition bytes_of_string :: "string \<Rightarrow> bytes" where
  "bytes_of_string = map char_byte"

definition string_of_bytes :: "bytes \<Rightarrow> string" where
  "string_of_bytes = map byte_char"

lemma bit_char_byte:
  "bit (char_byte c) n \<longleftrightarrow>
     n < 8 \<and> [digit0 c, digit1 c, digit2 c, digit3 c, digit4 c, digit5 c, digit6 c, digit7 c] ! n"
  by (simp add: char_byte_def of_char_def bit_horner_sum_bit_word_iff numeral_eq_Suc del: horner_sum_simps)

lemma byte_char_byte [simp]: "byte_char (char_byte c) = c"
  by (simp add: byte_char_def bit_char_byte)

lemma inj_byte_char: "inj byte_char"
proof (rule injI)
  fix a b :: byte
  assume "byte_char a = byte_char b"
  then have "\<And>n. n < 8 \<Longrightarrow> bit a n = bit b n"
    by (simp add: byte_char_def numeral_eq_Suc less_Suc_eq) blast
  then show "a = b"
    by (intro bit_word_eqI) simp
qed

lemma char_byte_char [simp]: "char_byte (byte_char b) = b"
  using inj_byte_char by (rule injD) simp

lemma char_byte_eq_iff [simp]: "char_byte c = char_byte d \<longleftrightarrow> c = d"
  by (metis byte_char_byte)

lemma string_of_bytes_of_string [simp]: "string_of_bytes (bytes_of_string s) = s"
  by (simp add: string_of_bytes_def bytes_of_string_def comp_def)

lemma bytes_of_string_of_bytes [simp]: "bytes_of_string (string_of_bytes b) = b"
  by (simp add: string_of_bytes_def bytes_of_string_def comp_def)

lemma length_bytes_of_string [simp]: "length (bytes_of_string s) = length s"
  by (simp add: bytes_of_string_def)

lemma length_string_of_bytes [simp]: "length (string_of_bytes b) = length b"
  by (simp add: string_of_bytes_def)

lemma bytes_of_string_simps [simp]:
  "bytes_of_string [] = []"
  "bytes_of_string (c # s) = char_byte c # bytes_of_string s"
  "bytes_of_string (s @ t) = bytes_of_string s @ bytes_of_string t"
  by (simp_all add: bytes_of_string_def)

lemma string_of_bytes_simps [simp]:
  "string_of_bytes [] = []"
  "string_of_bytes (b # bs) = byte_char b # string_of_bytes bs"
  "string_of_bytes (bs @ cs) = string_of_bytes bs @ string_of_bytes cs"
  by (simp_all add: string_of_bytes_def)

section \<open>Fallible operations\<close>

text \<open>
  A Go function returning \<open>(T, error)\<close> is modelled by a value of \<open>'e + 'a\<close>: \<open>Inl\<close> for the error
  (or a panic, where the error type says so) and \<open>Inr\<close> for the result.
\<close>

definition rbind :: "'e + 'a \<Rightarrow> ('a \<Rightarrow> 'e + 'b) \<Rightarrow> 'e + 'b" where
  "rbind m f = (case m of Inl e \<Rightarrow> Inl e | Inr x \<Rightarrow> f x)"

lemma rbind_simps [simp, res_simps]:
  "rbind (Inl e) f = Inl e"
  "rbind (Inr x) f = f x"
  by (simp_all add: rbind_def)

lemma rbind_eq_Inr: "rbind m f = Inr y \<longleftrightarrow> (\<exists>x. m = Inr x \<and> f x = Inr y)"
  by (cases m) auto

lemma rbind_eq_Inl: "rbind m f = Inl e \<longleftrightarrow> m = Inl e \<or> (\<exists>x. m = Inr x \<and> f x = Inl e)"
  by (cases m) auto

lemma rbind_assoc: "rbind (rbind m f) g = rbind m (\<lambda>x. rbind (f x) g)"
  by (cases m) auto

lemma rbind_cong [fundef_cong]:
  assumes "m = m'" and "\<And>x. m' = Inr x \<Longrightarrow> f x = f' x"
  shows "rbind m f = rbind m' f'"
  using assms by (cases m') auto

text \<open>Indexing a slice: \<open>None\<close> is Go's index-out-of-range panic.\<close>

definition at_opt :: "'a list \<Rightarrow> nat \<Rightarrow> 'a option" where
  "at_opt xs i = (if i < length xs then Some (xs ! i) else None)"

lemma at_opt_simps [simp]:
  "at_opt (x # xs) 0 = Some x"
  "at_opt (x # xs) (Suc i) = at_opt xs i"
  "i < length xs \<Longrightarrow> at_opt xs i = Some (xs ! i)"
  "length xs \<le> i \<Longrightarrow> at_opt xs i = None"
  by (simp_all add: at_opt_def)

text \<open>The same with a Go \<open>int\<close> as the index, which may be negative.\<close>

definition at_int :: "'a list \<Rightarrow> int \<Rightarrow> 'a option" where
  "at_int xs i = (if i < 0 then None else at_opt xs (nat i))"

lemma at_int_simps [simp]:
  "i < 0 \<Longrightarrow> at_int xs i = None"
  "at_int xs (int n) = at_opt xs n"
  "0 \<le> i \<Longrightarrow> i < int (length xs) \<Longrightarrow> at_int xs i = Some (xs ! nat i)"
  by (simp_all add: at_int_def nat_less_iff)

text \<open>The slice expression \<open>xs[:hi]\<close> with a Go \<open>int\<close> as its bound, and its bounds panic.\<close>

definition slice_to :: "'a list \<Rightarrow> int \<Rightarrow> 'a list option" where
  "slice_to xs hi = (if 0 \<le> hi \<and> hi \<le> int (length xs) then Some (take (nat hi) xs) else None)"

text \<open>The slice expression \<open>xs[lo:hi]\<close>, with its bounds panic.\<close>

definition slice_opt :: "'a list \<Rightarrow> nat \<Rightarrow> nat \<Rightarrow> 'a list option" where
  "slice_opt xs lo hi = (if lo \<le> hi \<and> hi \<le> length xs then Some (take (hi - lo) (drop lo xs)) else None)"

section \<open>Association lists for Go maps\<close>

text \<open>
  Where the iteration order of a Go map matters (it is unspecified, but one execution picks
  one), the map is an association list with distinct keys in the order that execution uses.
  \<open>aset\<close> is \<open>m[k] = v\<close>, \<open>adel\<close> is \<open>delete(m, k)\<close> and \<open>map_of\<close> is the lookup.
\<close>

fun aset :: "'k \<Rightarrow> 'v \<Rightarrow> ('k \<times> 'v) list \<Rightarrow> ('k \<times> 'v) list" where
  "aset k v [] = [(k, v)]"
| "aset k v ((k', v') # m) = (if k' = k then (k, v) # m else (k', v') # aset k v m)"

definition adel :: "'k \<Rightarrow> ('k \<times> 'v) list \<Rightarrow> ('k \<times> 'v) list" where
  "adel k m = filter (\<lambda>kv. fst kv \<noteq> k) m"

definition amap :: "('k \<times> 'v) list \<Rightarrow> bool" where
  "amap m \<longleftrightarrow> distinct (map fst m)"

lemma map_of_aset [simp]: "map_of (aset k v m) = (map_of m)(k \<mapsto> v)"
  by (induction m) auto

lemma map_of_adel [simp]: "map_of (adel k m) = (map_of m)(k := None)"
  by (induction m) (auto simp: adel_def)

lemma fst_set_aset [simp]: "fst ` set (aset k v m) = insert k (fst ` set m)"
proof (induction m)
  case (Cons kv m)
  then show ?case by (cases kv) (simp add: insert_commute)
qed simp

lemma fst_set_adel [simp]: "fst ` set (adel k m) = fst ` set m - {k}"
  by (force simp: adel_def)

lemma aset_fresh: "k \<notin> fst ` set m \<Longrightarrow> aset k v m = m @ [(k, v)]"
  by (induction m) auto

lemma amap_Nil [simp]: "amap []"
  by (simp add: amap_def)

lemma amap_aset [simp]: "amap m \<Longrightarrow> amap (aset k v m)"
proof (induction m)
  case (Cons kv m)
  obtain k' v' where kv: "kv = (k', v')" by (cases kv)
  from Cons.prems kv have nk: "k' \<notin> fst ` set m" and am: "amap m"
    by (auto simp: amap_def)
  show ?case
  proof (cases "k' = k")
    case True
    with nk am kv show ?thesis by (simp add: amap_def)
  next
    case False
    with nk have "k' \<notin> fst ` set (aset k v m)" by simp
    with Cons.IH [OF am] kv False show ?thesis by (simp add: amap_def image_iff)
  qed
qed (simp add: amap_def)

lemma amap_adel [simp]: "amap m \<Longrightarrow> amap (adel k m)"
  unfolding amap_def adel_def by (induction m) auto

lemma map_of_eq_None_fst: "map_of m k = None \<longleftrightarrow> k \<notin> fst ` set m"
  by (simp add: map_of_eq_None_iff)

lemma length_adel_absent: "map_of m k = None \<Longrightarrow> adel k m = m"
  by (induction m) (auto simp: adel_def split: if_splits)

lemma length_adel_present: "amap m \<Longrightarrow> map_of m k \<noteq> None \<Longrightarrow> Suc (length (adel k m)) = length m"
proof (induction m)
  case (Cons kv m)
  obtain k' v' where kv: "kv = (k', v')" by (cases kv)
  from Cons.prems(1) kv have nk: "map_of m k' = None" and am: "amap m"
    by (auto simp: amap_def map_of_eq_None_fst)
  show ?case
  proof (cases "k' = k")
    case True
    with nk kv length_adel_absent [of m k] show ?thesis by (simp add: adel_def)
  next
    case False
    with Cons.IH [OF am] Cons.prems(2) kv show ?thesis by (simp add: adel_def)
  qed
qed simp

lemma length_aset_present: "map_of m k \<noteq> None \<Longrightarrow> length (aset k v m) = length m"
  by (induction m) (auto split: if_splits)

lemma length_aset_absent: "map_of m k = None \<Longrightarrow> length (aset k v m) = Suc (length m)"
  by (induction m) (auto split: if_splits)

lemma length_aset_le: "length (aset k v m) \<le> Suc (length m)"
  by (induction m) auto

lemma amap_filter [simp]: "amap m \<Longrightarrow> amap (filter P m)"
  by (auto simp: amap_def distinct_map inj_on_def)

text \<open>Entries put one after the other.\<close>

lemma fold_upsert: "distinct (map fst rows) \<Longrightarrow> map_of (fold (\<lambda>(k, v) t. aset k v t) rows tbl) = map_of tbl ++ map_of rows"
proof (induction rows arbitrary: tbl)
  case (Cons kv rows)
  obtain k v where kv: "kv = (k, v)" by fastforce
  with Cons.prems have "map_of rows k = None" by (simp add: map_of_eq_None_fst)
  with Cons.IH [of "aset k v tbl"] Cons.prems kv show ?case
    by (auto simp: fun_eq_iff map_add_def split: option.splits)
qed simp

lemma fold_upsert_amap: "amap tbl \<Longrightarrow> amap (fold (\<lambda>(k, v) t. aset k v t) rows tbl)"
  by (induction rows arbitrary: tbl) auto

end
