(* ===== verification/GoLib.thy ===== *)
theory GoLib
  imports Prelude
begin

text \<open>
  The part of Go's standard library the modelled code calls: \<open>strconv\<close> (decimal formatting and
  parsing of 64-bit integers, \<open>Atoi\<close>, \<open>ParseBool\<close>) and \<open>strings.Split\<close> with a one-byte separator.
  Parsing is sequential as in \<open>strconv\<close>: a non-digit is a syntax error where it is met and an
  overflow is a range error where it is met.
\<close>

section \<open>Decimal numbers\<close>

datatype num_error = ErrSyntax | ErrRange

definition digit_char :: "nat \<Rightarrow> char" where
  "digit_char d = ''0123456789'' ! d"

definition digit_val :: "char \<Rightarrow> nat option" where
  "digit_val c = (let n = (of_char c :: nat) in if 48 \<le> n \<and> n \<le> 57 then Some (n - 48) else None)"

fun FormatUint :: "nat \<Rightarrow> string" where
  "FormatUint n = (if n < 10 then [digit_char n] else FormatUint (n div 10) @ [digit_char (n mod 10)])"

declare FormatUint.simps [simp del]

definition FormatInt :: "int \<Rightarrow> string" where
  "FormatInt i = (if i < 0 then CHR ''-'' # FormatUint (nat (- i)) else FormatUint (nat i))"

definition FormatBool :: "bool \<Rightarrow> string" where
  "FormatBool b = (if b then ''true'' else ''false'')"

fun parse_uint_loop :: "nat \<Rightarrow> nat \<Rightarrow> string \<Rightarrow> num_error + nat" where
  "parse_uint_loop mx acc [] = Inr acc"
| "parse_uint_loop mx acc (c # cs) =
     (case digit_val c of
        None \<Rightarrow> Inl ErrSyntax
      | Some d \<Rightarrow> if mx < 10 * acc + d then Inl ErrRange else parse_uint_loop mx (10 * acc + d) cs)"

definition ParseUint64 :: "string \<Rightarrow> num_error + nat" where
  "ParseUint64 s = (if s = [] then Inl ErrSyntax else parse_uint_loop (2 ^ 64 - 1) 0 s)"

definition ParseInt64 :: "string \<Rightarrow> num_error + int" where
  "ParseInt64 s =
     (case s of
        [] \<Rightarrow> Inl ErrSyntax
      | c # cs \<Rightarrow>
          (let neg = (c = CHR ''-''); body = (if c = CHR ''+'' \<or> c = CHR ''-'' then cs else s) in
           rbind (ParseUint64 body) (\<lambda>un.
             if \<not> neg \<and> 2 ^ 63 \<le> un then Inl ErrRange
             else if neg \<and> 2 ^ 63 < un then Inl ErrRange
             else Inr (if neg then - int un else int un))))"

text \<open>\<open>Atoi\<close> agrees with \<open>ParseInt(s, 10, 0)\<close> on a 64-bit platform.\<close>

definition Atoi :: "string \<Rightarrow> num_error + int" where
  "Atoi s = ParseInt64 s"

definition ParseBool :: "string \<Rightarrow> num_error + bool" where
  "ParseBool s =
     (if s \<in> set [''1'', ''t'', ''T'', ''true'', ''TRUE'', ''True''] then Inr True
      else if s \<in> set [''0'', ''f'', ''F'', ''false'', ''FALSE'', ''False''] then Inr False
      else Inl ErrSyntax)"

lemma less_10_cases: "(d::nat) < 10 \<longleftrightarrow> d \<in> {0, 1, 2, 3, 4, 5, 6, 7, 8, 9}"
  by auto

lemma digit_val_char [simp]: "d < 10 \<Longrightarrow> digit_val (digit_char d) = Some d"
  by (auto simp: less_10_cases digit_val_def digit_char_def)

lemma digit_char_in: "d < 10 \<Longrightarrow> digit_char d \<in> set ''0123456789''"
  unfolding digit_char_def by (rule nth_mem) simp

lemma FormatUint_nonempty [simp]: "FormatUint n \<noteq> []"
  by (subst FormatUint.simps) simp

lemma FormatUint_digits: "set (FormatUint n) \<subseteq> set ''0123456789''"
proof (induction n rule: FormatUint.induct)
  case (1 n)
  show ?case
    using "1.IH" digit_char_in [of n] digit_char_in [of "n mod 10"]
    by (subst FormatUint.simps) auto
qed

lemma FormatUint_no_sign [simp]:
  "CHR ''-'' \<notin> set (FormatUint n)" "CHR ''+'' \<notin> set (FormatUint n)"
  "CHR ''@'' \<notin> set (FormatUint n)" "CHR ''.'' \<notin> set (FormatUint n)"
  "CHR '':'' \<notin> set (FormatUint n)"
  using FormatUint_digits [of n] by auto

lemma parse_uint_loop_append:
  "parse_uint_loop mx acc (xs @ ys) =
     rbind (parse_uint_loop mx acc xs) (\<lambda>b. parse_uint_loop mx b ys)"
  by (induction mx acc xs rule: parse_uint_loop.induct) (auto split: option.splits)

lemma parse_uint_loop_Format: "n \<le> mx \<Longrightarrow> parse_uint_loop mx 0 (FormatUint n) = Inr n"
proof (induction n rule: FormatUint.induct)
  case (1 n)
  show ?case
  proof (cases "n < 10")
    case True
    with "1.prems" show ?thesis by (subst FormatUint.simps) simp
  next
    case False
    with "1.prems" have "n div 10 \<le> mx" by linarith
    with "1.IH" [OF False] have "parse_uint_loop mx 0 (FormatUint (n div 10)) = Inr (n div 10)" .
    with False "1.prems" show ?thesis
      by (subst FormatUint.simps) (simp add: parse_uint_loop_append)
  qed
qed

lemma ParseUint64_Format [simp]: "n < 2 ^ 64 \<Longrightarrow> ParseUint64 (FormatUint n) = Inr n"
  by (simp add: ParseUint64_def parse_uint_loop_Format)

lemma ParseInt64_FormatUint: "n < 2 ^ 63 \<Longrightarrow> ParseInt64 (FormatUint n) = Inr (int n)"
proof -
  assume n: "n < 2 ^ 63"
  obtain c cs where eq: "FormatUint n = c # cs"
    using FormatUint_nonempty by (cases "FormatUint n") auto
  have "c \<noteq> CHR ''-''" "c \<noteq> CHR ''+''"
    using FormatUint_no_sign [of n] unfolding eq by auto
  moreover have "ParseUint64 (c # cs) = Inr n"
    using n ParseUint64_Format [of n] by (simp add: eq)
  ultimately show ?thesis
    using n by (simp add: ParseInt64_def eq)
qed

lemma ParseInt64_FormatInt:
  assumes "- (2 ^ 63) \<le> i" and "i < 2 ^ 63"
  shows "ParseInt64 (FormatInt i) = Inr i"
proof (cases "i < 0")
  case True
  then have "ParseUint64 (FormatUint (nat (- i))) = Inr (nat (- i))"
    using assms by (intro ParseUint64_Format) (simp add: nat_less_iff)
  with True assms show ?thesis
    by (simp add: ParseInt64_def FormatInt_def Let_def nat_less_iff)
next
  case False
  then show ?thesis
    using assms by (simp add: FormatInt_def ParseInt64_FormatUint nat_less_iff)
qed

lemma Atoi_FormatUint: "n < 2 ^ 63 \<Longrightarrow> Atoi (FormatUint n) = Inr (int n)"
  by (simp add: Atoi_def ParseInt64_FormatUint)

lemma parse_uint_loop_le: "parse_uint_loop mx acc s = Inr n \<Longrightarrow> acc \<le> mx \<Longrightarrow> n \<le> mx"
  by (induction mx acc s rule: parse_uint_loop.induct) (auto split: option.splits if_splits)

lemma ParseUint64_range: "ParseUint64 s = Inr n \<Longrightarrow> n < 2 ^ 64"
  using parse_uint_loop_le [of "2 ^ 64 - 1" 0 s n]
  by (auto simp: ParseUint64_def split: if_splits)

lemma ParseInt64_range: "ParseInt64 s = Inr i \<Longrightarrow> - (2 ^ 63) \<le> i \<and> i < 2 ^ 63"
  by (auto simp: ParseInt64_def Let_def rbind_eq_Inr nat_less_iff split: list.splits if_splits)

lemma ParseBool_FormatBool [simp]: "ParseBool (FormatBool b) = Inr b"
  by (simp add: ParseBool_def FormatBool_def)

section \<open>Splitting strings\<close>

fun split_on :: "char \<Rightarrow> string \<Rightarrow> string list" where
  "split_on c [] = [[]]"
| "split_on c (x # xs) =
     (if x = c then [] # split_on c xs
      else (case split_on c xs of [] \<Rightarrow> [[x]] | y # ys \<Rightarrow> (x # y) # ys))"

lemma split_on_nonempty [simp]: "split_on c s \<noteq> []"
  by (induction s) (auto split: list.splits)

lemma split_on_absent: "c \<notin> set s \<Longrightarrow> split_on c s = [s]"
  by (induction s) auto

lemma split_on_append: "c \<notin> set s \<Longrightarrow> split_on c (s @ c # t) = s # split_on c t"
  by (induction s) auto

lemma split_on_no_sep: "p \<in> set (split_on c s) \<Longrightarrow> c \<notin> set p"
  by (induction s arbitrary: p) (fastforce split: if_splits list.splits)+

section \<open>Unpadded base64\<close>

definition b64_char :: "nat \<Rightarrow> char" where
  "b64_char d = ''ABCDEFGHIJKLMNOPQRSTUVWXYZabcdefghijklmnopqrstuvwxyz0123456789+/'' ! d"

text \<open>\<open>base64.RawStdEncoding.EncodeToString\<close>, on the values of the bytes.\<close>

fun b64_digits :: "nat list \<Rightarrow> nat list" where
  "b64_digits (a # b # c # r) =
     [a div 4, a mod 4 * 16 + b div 16, b mod 16 * 4 + c div 64, c mod 64] @ b64_digits r"
| "b64_digits [a, b] = [a div 4, a mod 4 * 16 + b div 16, b mod 16 * 4]"
| "b64_digits [a] = [a div 4, a mod 4 * 16]"
| "b64_digits [] = []"

definition RawStdEncoding :: "bytes \<Rightarrow> string" where
  "RawStdEncoding b = map b64_char (b64_digits (map unat b))"

lemma b64_alphabet_distinct:
  "distinct ''ABCDEFGHIJKLMNOPQRSTUVWXYZabcdefghijklmnopqrstuvwxyz0123456789+/''"
  by code_simp

lemma b64_char_inj: "d < 64 \<Longrightarrow> e < 64 \<Longrightarrow> b64_char d = b64_char e \<longleftrightarrow> d = e"
  unfolding b64_char_def by (rule nth_eq_iff_index_eq [OF b64_alphabet_distinct]) simp_all

lemma b64_digits_bound: "\<forall>x \<in> set xs. x < 256 \<Longrightarrow> \<forall>d \<in> set (b64_digits xs). d < 64"
  by (induction xs rule: b64_digits.induct) auto

lemma b64_digits_length: "length (b64_digits xs) = (4 * length xs + 2) div 3"
  by (induction xs rule: b64_digits.induct) auto

lemma digits_unique:
  assumes "(p::nat) * n + x = q * n + y" and "x < n" and "y < n"
  shows "p = q" and "x = y"
proof -
  have "(p * n + x) div n = (q * n + y) div n" "(p * n + x) mod n = (q * n + y) mod n" using assms(1) by simp_all
  with assms(2, 3) show "p = q" "x = y" by simp_all
qed

lemma two_bits: "(a::nat) div n = b div n \<Longrightarrow> a mod n = b mod n \<Longrightarrow> a = b"
  by (metis div_mult_mod_eq)

lemma six_bits:
  assumes "(a::nat) div 4 = b div 4" and "a mod 4 * 16 + x = b mod 4 * 16 + y" and "x < 16" and "y < 16"
  shows "a = b \<and> x = y"
  using digits_unique [OF assms(2, 3, 4)] two_bits [OF assms(1)] by blast

lemma four_bits:
  assumes "(a::nat) div 16 = b div 16" and "a mod 16 * 4 + x = b mod 16 * 4 + y" and "x < 4" and "y < 4"
  shows "a = b \<and> x = y"
  using digits_unique [OF assms(2, 3, 4)] two_bits [OF assms(1)] by blast

lemma b64_digits_inj:
  "length xs = length ys \<Longrightarrow> b64_digits xs = b64_digits ys \<Longrightarrow>
   \<forall>x \<in> set xs. x < 256 \<Longrightarrow> \<forall>y \<in> set ys. y < 256 \<Longrightarrow> xs = ys"
proof (induction xs arbitrary: ys rule: b64_digits.induct)
  case (1 a b c r)
  obtain a' b' c' r' where ys: "ys = a' # b' # c' # r'" "length r = length r'"
    using "1.prems"(1) [symmetric] by (auto simp: length_Suc_conv)
  from "1.prems"(2) have e: "a div 4 = a' div 4" "a mod 4 * 16 + b div 16 = a' mod 4 * 16 + b' div 16"
    "b mod 16 * 4 + c div 64 = b' mod 16 * 4 + c' div 64" "c mod 64 = c' mod 64" "b64_digits r = b64_digits r'"
    by (simp_all add: ys)
  have lt: "b div 16 < 16" "b' div 16 < 16" "c div 64 < 4" "c' div 64 < 4" using "1.prems"(3, 4) by (auto simp: ys)
  have "a = a'" "b div 16 = b' div 16" using six_bits [OF e(1, 2) lt(1, 2)] by blast+
  moreover have "b = b'" "c div 64 = c' div 64" using four_bits [OF calculation(2) e(3) lt(3, 4)] by blast+
  moreover have "c = c'" using two_bits [OF calculation(4) e(4)] .
  moreover have "r = r'" using "1.IH" [OF ys(2) e(5)] "1.prems"(3, 4) by (simp add: ys)
  ultimately show ?case by (simp add: ys)
next
  case (2 a b)
  obtain a' b' where ys: "ys = [a', b']"
    using "2.prems"(1) [symmetric] by (auto simp: length_Suc_conv)
  from "2.prems"(2) have e: "a div 4 = a' div 4" "a mod 4 * 16 + b div 16 = a' mod 4 * 16 + b' div 16"
    "b mod 16 * 4 + 0 = b' mod 16 * 4 + 0" by (simp_all add: ys)
  have lt: "b div 16 < 16" "b' div 16 < 16" using "2.prems"(3, 4) by (auto simp: ys)
  have "a = a'" "b div 16 = b' div 16" using six_bits [OF e(1, 2) lt] by blast+
  with four_bits [OF this(2) e(3)] show ?case by (simp add: ys)
next
  case (3 a)
  obtain a' where ys: "ys = [a']" using "3.prems"(1) [symmetric] by (auto simp: length_Suc_conv)
  from "3.prems"(2) have e: "a div 4 = a' div 4" "a mod 4 * 16 + 0 = a' mod 4 * 16 + 0" by (simp_all add: ys)
  show ?case using six_bits [OF e] by (simp add: ys)
qed simp

lemma RawStdEncoding_inj: "RawStdEncoding a = RawStdEncoding b \<longleftrightarrow> a = b"
proof
  assume eq: "RawStdEncoding a = RawStdEncoding b"
  let ?a = "map unat a" and ?b = "map unat b"
  have bd: "\<forall>x \<in> set ?a. x < 256" "\<forall>x \<in> set ?b. x < 256"
    using unsigned_less [where 'a = nat and 'b = 8] by fastforce+
  have len: "length (b64_digits ?a) = length (b64_digits ?b)"
    using eq unfolding RawStdEncoding_def by (metis length_map)
  have "b64_digits ?a = b64_digits ?b"
  proof (rule nth_equalityI [OF len])
    fix i assume i: "i < length (b64_digits ?a)"
    then have "b64_char (b64_digits ?a ! i) = b64_char (b64_digits ?b ! i)"
      using eq len unfolding RawStdEncoding_def by (metis nth_map)
    with i len b64_digits_bound [OF bd(1)] b64_digits_bound [OF bd(2)]
    show "b64_digits ?a ! i = b64_digits ?b ! i" by (simp add: b64_char_inj)
  qed
  moreover have "length ?a = length ?b" using len unfolding b64_digits_length by simp
  ultimately have "?a = ?b" using b64_digits_inj bd by blast
  then show "a = b" by (simp add: inj_map_eq_map [OF inj_onI] inj_unsigned)
qed simp

end
