(* ===== verification/Jid.thy ===== *)
theory Jid
  imports GoLib
begin

text \<open>
  \<open>src/types/jid.go\<close>: the WhatsApp address type, its constructors, its textual form with the
  parser, and the SQL scanner and valuer built on them. The lemmas show that printing and
  parsing are inverse on addresses whose parts do not hold separator characters (up to the
  integrator, which the textual form drops), and that Signal addresses separate the domains.
\<close>

section \<open>Servers and the address record\<close>

abbreviation (input) "DefaultUserServer \<equiv> ''s.whatsapp.net''"
abbreviation (input) "GroupServer \<equiv> ''g.us''"
abbreviation (input) "LegacyUserServer \<equiv> ''c.us''"
abbreviation (input) "BroadcastServer \<equiv> ''broadcast''"
abbreviation (input) "HiddenUserServer \<equiv> ''lid''"
abbreviation (input) "MessengerServer \<equiv> ''msgr''"
abbreviation (input) "InteropServer \<equiv> ''interop''"
abbreviation (input) "NewsletterServer \<equiv> ''newsletter''"
abbreviation (input) "HostedServer \<equiv> ''hosted''"
abbreviation (input) "HostedLIDServer \<equiv> ''hosted.lid''"
abbreviation (input) "BotServer \<equiv> ''bot''"

abbreviation (input) "WhatsAppDomain \<equiv> (0 :: byte)"
abbreviation (input) "LIDDomain \<equiv> (1 :: byte)"
abbreviation (input) "HostedDomain \<equiv> (128 :: byte)"
abbreviation (input) "HostedLIDDomain \<equiv> (129 :: byte)"

record JID =
  User :: string
  RawAgent :: byte
  Device :: "16 word"
  Integrator :: "16 word"
  Server :: string

definition EmptyJID :: JID where
  "EmptyJID = \<lparr>User = [], RawAgent = 0, Device = 0, Integrator = 0, Server = []\<rparr>"

definition NewJID :: "string \<Rightarrow> string \<Rightarrow> JID" where
  "NewJID user server = \<lparr>User = user, RawAgent = 0, Device = 0, Integrator = 0, Server = server\<rparr>"

definition StatusBroadcastJID :: JID where
  "StatusBroadcastJID = NewJID ''status'' BroadcastServer"

definition ActualAgent :: "JID \<Rightarrow> byte" where
  "ActualAgent jid =
     (if Server jid = DefaultUserServer then WhatsAppDomain
      else if Server jid = HiddenUserServer then LIDDomain
      else if Server jid = HostedServer then HostedDomain
      else if Server jid = HostedLIDServer then HostedLIDDomain
      else RawAgent jid)"

definition UserInt :: "JID \<Rightarrow> nat" where
  "UserInt jid =
     (case ParseUint64 (User jid) of
        Inl ErrSyntax \<Rightarrow> 0
      | Inl ErrRange \<Rightarrow> 2 ^ 64 - 1
      | Inr n \<Rightarrow> n)"

definition ToNonAD :: "JID \<Rightarrow> JID" where
  "ToNonAD jid =
     \<lparr>User = User jid, RawAgent = 0, Device = 0, Integrator = Integrator jid, Server = Server jid\<rparr>"

definition SignalAddressUser :: "JID \<Rightarrow> string" where
  "SignalAddressUser jid =
     (let agent = ActualAgent jid in
      if agent \<noteq> 0 then User jid @ ''_'' @ FormatUint (unat agent) else User jid)"

definition IsBroadcastList :: "JID \<Rightarrow> bool" where
  "IsBroadcastList jid \<longleftrightarrow> Server jid = BroadcastServer \<and> User jid \<noteq> User StatusBroadcastJID"

text \<open>The regular expression \<open>^1313555\d{4}$|^131655500\d{2}$\<close>.\<close>

definition all_digits :: "string \<Rightarrow> bool" where
  "all_digits s \<longleftrightarrow> list_all (\<lambda>c. digit_val c \<noteq> None) s"

definition botUserRegex :: "string \<Rightarrow> bool" where
  "botUserRegex s \<longleftrightarrow>
     length s = 11 \<and>
     (take 7 s = ''1313555'' \<and> all_digits (drop 7 s) \<or> take 9 s = ''131655500'' \<and> all_digits (drop 9 s))"

definition IsBot :: "JID \<Rightarrow> bool" where
  "IsBot jid \<longleftrightarrow>
     Server jid = DefaultUserServer \<and> botUserRegex (User jid) \<and> Device jid = 0 \<or> Server jid = BotServer"

definition NewADJID :: "string \<Rightarrow> byte \<Rightarrow> byte \<Rightarrow> JID" where
  "NewADJID user agent device =
     (let (server, agent') =
        (if agent = LIDDomain then (HiddenUserServer, 0)
         else if agent = HostedDomain then (HostedServer, 0)
         else if agent = HostedLIDDomain then (HostedLIDServer, 0)
         else (DefaultUserServer, agent))
      in \<lparr>User = user, RawAgent = agent', Device = ucast device, Integrator = 0, Server = server\<rparr>)"

section \<open>Textual form\<close>

datatype jid_error = UnexpectedDots | UnexpectedColons | BadAgent num_error | BadDevice num_error

text \<open>
  The parser returns the address parsed so far together with the error, as the Go function does;
  callers that ignore the error see that partial address.
\<close>

definition ParseJID :: "string \<Rightarrow> JID \<times> jid_error option" where
  "ParseJID jid =
     (let parts = split_on (CHR ''@'') jid in
      if length parts = 1 then (NewJID [] (parts ! 0), None)
      else
        (let parsed = NewJID (parts ! 0) (parts ! 1) in
         if CHR ''.'' \<in> set (User parsed) then
           (let uparts = split_on (CHR ''.'') (User parsed) in
            if length uparts \<noteq> 2 then (parsed, Some UnexpectedDots)
            else
              (let parsed = parsed\<lparr>User := uparts ! 0\<rparr>; adparts = split_on (CHR '':'') (uparts ! 1) in
               if length adparts > 2 then (parsed, Some UnexpectedColons)
               else (case Atoi (adparts ! 0) of
                   Inl e \<Rightarrow> (parsed, Some (BadAgent e))
                 | Inr agent \<Rightarrow>
                     (let parsed = parsed\<lparr>RawAgent := word_of_int agent\<rparr> in
                      if length adparts = 2 then
                        (case Atoi (adparts ! 1) of
                           Inl e \<Rightarrow> (parsed, Some (BadDevice e))
                         | Inr device \<Rightarrow> (parsed\<lparr>Device := word_of_int device\<rparr>, None))
                      else (parsed, None)))))
         else if CHR '':'' \<in> set (User parsed) then
           (let uparts = split_on (CHR '':'') (User parsed) in
            if length uparts \<noteq> 2 then (parsed, Some UnexpectedColons)
            else
              (let parsed = parsed\<lparr>User := uparts ! 0\<rparr> in
               case Atoi (uparts ! 1) of
                 Inl e \<Rightarrow> (parsed, Some (BadDevice e))
               | Inr device \<Rightarrow> (parsed\<lparr>Device := word_of_int device\<rparr>, None)))
         else (parsed, None)))"

definition ADString :: "JID \<Rightarrow> string" where
  "ADString jid =
     User jid @ ''.'' @ FormatUint (unat (RawAgent jid)) @ '':'' @ FormatUint (unat (Device jid))
       @ ''@'' @ Server jid"

definition JID_String :: "JID \<Rightarrow> string" where
  "JID_String jid =
     (if Server jid = [] then []
      else if RawAgent jid > 0 then
        User jid @ ''.'' @ FormatUint (unat (RawAgent jid)) @ '':'' @ FormatUint (unat (Device jid))
          @ ''@'' @ Server jid
      else if Device jid > 0 then
        User jid @ '':'' @ FormatUint (unat (Device jid)) @ ''@'' @ Server jid
      else if length (User jid) > 0 then User jid @ ''@'' @ Server jid
      else Server jid)"

definition MarshalText :: "JID \<Rightarrow> bytes" where
  "MarshalText jid = bytes_of_string (JID_String jid)"

text \<open>\<open>UnmarshalText\<close> and \<open>Scan\<close> write through the receiver only when parsing succeeds.\<close>

definition UnmarshalText :: "bytes \<Rightarrow> JID \<Rightarrow> jid_error + JID" where
  "UnmarshalText val old =
     (case ParseJID (string_of_bytes val) of (out, Some e) \<Rightarrow> Inl e | (out, None) \<Rightarrow> Inr out)"

definition JID_IsEmpty :: "JID \<Rightarrow> bool" where
  "JID_IsEmpty jid \<longleftrightarrow> length (Server jid) = 0"

datatype sql_value = SqlNull | SqlString string | SqlBytes bytes | SqlOther

datatype scan_error = ScanParse jid_error | UnsupportedScanType

definition JID_Scan :: "sql_value \<Rightarrow> JID \<Rightarrow> scan_error + JID" where
  "JID_Scan src old =
     (case src of
        SqlNull \<Rightarrow> Inr old
      | SqlString s \<Rightarrow> (case ParseJID s of (out, Some e) \<Rightarrow> Inl (ScanParse e) | (out, None) \<Rightarrow> Inr out)
      | SqlBytes b \<Rightarrow>
          (case ParseJID (string_of_bytes b) of (out, Some e) \<Rightarrow> Inl (ScanParse e) | (out, None) \<Rightarrow> Inr out)
      | SqlOther \<Rightarrow> Inl UnsupportedScanType)"

definition JID_Value :: "JID \<Rightarrow> sql_value" where
  "JID_Value jid = (if length (Server jid) = 0 then SqlNull else SqlString (JID_String jid))"

section \<open>Printing and parsing\<close>

text \<open>
  The addresses whose text reads back as the address. The user and the server have no \<open>@\<close>, the user
  has no dot, and no colon either unless an agent is printed between them. An address without a
  server prints as the empty text, which reads back as the empty address.
\<close>

definition jid_readable :: "JID \<Rightarrow> bool" where
  "jid_readable j \<longleftrightarrow>
     CHR ''@'' \<notin> set (User j) \<and> CHR ''@'' \<notin> set (Server j) \<and> CHR ''.'' \<notin> set (User j) \<and>
     (RawAgent j > 0 \<or> CHR '':'' \<notin> set (User j)) \<and>
     (Server j \<noteq> [] \<or> User j = [] \<and> RawAgent j = 0 \<and> Device j = 0)"

lemma split_at_server:
  assumes "CHR ''@'' \<notin> set u" and "CHR ''@'' \<notin> set s"
  shows "split_on (CHR ''@'') (u @ CHR ''@'' # s) = [u, s]"
  using assms by (simp add: split_on_append split_on_absent)

lemma Atoi_word8: "Atoi (FormatUint (unat (w :: 8 word))) = Inr (int (unat w))"
  using unsigned_less [of w, where ?'a = nat] by (intro Atoi_FormatUint) simp

lemma Atoi_word16: "Atoi (FormatUint (unat (w :: 16 word))) = Inr (int (unat w))"
  using unsigned_less [of w, where ?'a = nat] by (intro Atoi_FormatUint) simp

lemma jid_eqI:
  "User a = User b \<Longrightarrow> RawAgent a = RawAgent b \<Longrightarrow> Device a = Device b \<Longrightarrow>
     Integrator a = Integrator b \<Longrightarrow> Server a = Server b \<Longrightarrow> (a :: JID) = b"
  by (cases a; cases b) simp

lemma ParseJID_ad:
  assumes "CHR ''@'' \<notin> set u" "CHR ''.'' \<notin> set u" "CHR ''@'' \<notin> set s"
  shows "ParseJID (u @ ''.'' @ FormatUint (unat a) @ '':'' @ FormatUint (unat d) @ ''@'' @ s) =
     (\<lparr>User = u, RawAgent = a, Device = d, Integrator = 0, Server = s\<rparr>, None)"
proof -
  let ?ad = "FormatUint (unat a) @ CHR '':'' # FormatUint (unat d)"
  let ?u = "u @ CHR ''.'' # ?ad"
  have "split_on (CHR ''@'') (?u @ CHR ''@'' # s) = [?u, s]"
    using assms by (intro split_at_server) auto
  moreover have "split_on (CHR ''.'') ?u = [u, ?ad]"
    using assms by (simp add: split_on_append split_on_absent)
  moreover have "split_on (CHR '':'') ?ad = [FormatUint (unat a), FormatUint (unat d)]"
    by (simp add: split_on_append split_on_absent)
  ultimately show ?thesis
    by (simp add: ParseJID_def Let_def NewJID_def Atoi_word8 Atoi_word16)
qed

lemma ParseJID_device:
  assumes "CHR ''@'' \<notin> set u" "CHR ''.'' \<notin> set u" "CHR '':'' \<notin> set u" "CHR ''@'' \<notin> set s"
  shows "ParseJID (u @ '':'' @ FormatUint (unat d) @ ''@'' @ s) =
     (\<lparr>User = u, RawAgent = 0, Device = d, Integrator = 0, Server = s\<rparr>, None)"
proof -
  let ?u = "u @ CHR '':'' # FormatUint (unat d)"
  have "split_on (CHR ''@'') (?u @ CHR ''@'' # s) = [?u, s]"
    using assms by (intro split_at_server) auto
  moreover have "split_on (CHR '':'') ?u = [u, FormatUint (unat d)]"
    using assms by (simp add: split_on_append split_on_absent)
  ultimately show ?thesis
    using assms by (simp add: ParseJID_def Let_def NewJID_def Atoi_word16)
qed

lemma ParseJID_plain:
  assumes "CHR ''@'' \<notin> set u" "CHR ''.'' \<notin> set u" "CHR '':'' \<notin> set u" "CHR ''@'' \<notin> set s"
  shows "ParseJID (u @ ''@'' @ s) = (NewJID u s, None)"
  using assms by (simp add: ParseJID_def Let_def split_at_server NewJID_def)

lemma ParseJID_server: "CHR ''@'' \<notin> set s \<Longrightarrow> ParseJID s = (NewJID [] s, None)"
  by (simp add: ParseJID_def split_on_absent)

lemma ParseJID_JID_String:
  assumes "jid_readable j"
  shows "ParseJID (JID_String j) = (j\<lparr>Integrator := 0\<rparr>, None)"
proof -
  note clean = assms [unfolded jid_readable_def]
  consider (empty) "Server j = []" | (agent) "Server j \<noteq> []" "RawAgent j > 0"
    | (device) "Server j \<noteq> []" "RawAgent j = 0" "Device j > 0"
    | (user) "Server j \<noteq> []" "RawAgent j = 0" "Device j = 0" "User j \<noteq> []"
    | (server) "Server j \<noteq> []" "RawAgent j = 0" "Device j = 0" "User j = []"
    by (metis word_gt_0)
  then show ?thesis
  proof cases
    case empty
    then show ?thesis
      using clean by (simp add: JID_String_def ParseJID_def NewJID_def jid_eqI)
  next
    case agent
    then show ?thesis
      using clean ParseJID_ad [of "User j" "Server j" "RawAgent j" "Device j"] by (simp add: JID_String_def jid_eqI)
  next
    case device
    then show ?thesis
      using clean ParseJID_device [of "User j" "Server j" "Device j"] by (simp add: JID_String_def jid_eqI)
  next
    case user
    then show ?thesis
      using clean ParseJID_plain [of "User j" "Server j"] by (simp add: JID_String_def NewJID_def jid_eqI)
  next
    case server
    then show ?thesis
      using clean by (simp add: JID_String_def ParseJID_server NewJID_def jid_eqI)
  qed
qed

text \<open>What the parser accepts: separators do not end up in the parts.\<close>

lemma split_on_subset: "p \<in> set (split_on c s) \<Longrightarrow> set p \<subseteq> set s"
  by (induction s arbitrary: p) (fastforce split: if_splits list.splits)+

lemma split_first: "split_on c s ! 0 \<in> set (split_on c s)"
  by (simp add: nth_mem)

lemma ParseJID_parts:
  assumes "ParseJID s = (j, None)"
  shows "CHR ''@'' \<notin> set (User j) \<and> CHR ''@'' \<notin> set (Server j) \<and> CHR ''.'' \<notin> set (User j)"
proof (cases "length (split_on (CHR ''@'') s) = 1")
  case True
  then show ?thesis
    using assms split_on_no_sep [OF split_first, of "CHR ''@''" s] by (auto simp: ParseJID_def NewJID_def)
next
  case False
  let ?u = "split_on (CHR ''@'') s ! 0" and ?s = "split_on (CHR ''@'') s ! 1"
  have "1 < length (split_on (CHR ''@'') s)" using False by (cases "split_on (CHR ''@'') s") auto
  then have s: "CHR ''@'' \<notin> set ?s" by (intro split_on_no_sep [of ?s _ s] nth_mem)
  have u: "CHR ''@'' \<notin> set ?u" by (rule split_on_no_sep [OF split_first])
  note dot = split_on_no_sep [OF split_first, of "CHR ''.''" ?u] split_on_subset [OF split_first, of "CHR ''.''" ?u]
  note colon = split_on_subset [OF split_first, of "CHR '':''" ?u]
  show ?thesis
    using assms False s u dot colon
    by (auto simp: ParseJID_def NewJID_def Let_def split: if_splits sum.splits)
qed

lemma ParseJID_colon:
  assumes "CHR ''@'' \<notin> set u" "CHR ''@'' \<notin> set s" "CHR ''.'' \<notin> set u" "ParseJID (u @ ''@'' @ s) = (j, None)"
  shows "CHR '':'' \<notin> set (User j)"
  using assms split_on_no_sep [OF split_first, of "CHR '':''" u]
  by (auto simp: ParseJID_def split_at_server NewJID_def Let_def split: if_splits sum.splits)

lemma ParseJID_JID_String_iff: "ParseJID (JID_String j) = (j\<lparr>Integrator := 0\<rparr>, None) \<longleftrightarrow> jid_readable j"
proof
  assume p: "ParseJID (JID_String j) = (j\<lparr>Integrator := 0\<rparr>, None)"
  note parts = ParseJID_parts [OF p, simplified]
  show "jid_readable j"
  proof (cases "Server j = []")
    case True
    with p have "j\<lparr>Integrator := 0\<rparr> = NewJID [] []" by (simp add: JID_String_def ParseJID_def)
    then have "User j = []" "RawAgent j = 0" "Device j = 0" by (cases j; simp add: NewJID_def)+
    with parts show ?thesis by (simp add: jid_readable_def)
  next
    case False
    have "CHR '':'' \<notin> set (User j)" if "RawAgent j = 0"
    proof (cases "Device j > 0")
      case True
      let ?u = "User j @ '':'' @ FormatUint (unat (Device j))"
      have "CHR ''@'' \<notin> set ?u" "CHR ''.'' \<notin> set ?u" using parts by simp_all
      moreover have "JID_String j = ?u @ ''@'' @ Server j" using True False that by (simp add: JID_String_def)
      ultimately show ?thesis using ParseJID_colon [of ?u "Server j"] p parts by simp
    next
      case False
      with \<open>Server j \<noteq> []\<close> that have "User j = [] \<or> JID_String j = User j @ ''@'' @ Server j"
        by (simp add: JID_String_def)
      then show ?thesis using ParseJID_colon [of "User j" "Server j"] p parts by auto
    qed
    with parts False show ?thesis by (auto simp: jid_readable_def word_gt_0)
  qed
qed (rule ParseJID_JID_String)

text \<open>
  C4: the text form of an address is read back as the address, up to the integrator which the text
  does not carry, exactly when the address is readable: no separator the parser splits at occurs in
  its parts, and it has a server unless it is empty. The database form is read back exactly for the same addresses when there is a server; an
  address without a server is stored as a null, and reading that leaves the target as it was.
\<close>

theorem jid_text_roundtrip:
  "(UnmarshalText (MarshalText j) old = Inr (j\<lparr>Integrator := 0\<rparr>) \<longleftrightarrow> jid_readable j) \<and>
   (if Server j = [] then JID_Scan (JID_Value j) old = Inr old
    else (JID_Scan (JID_Value j) old = Inr (j\<lparr>Integrator := 0\<rparr>) \<longleftrightarrow> jid_readable j))"
  using ParseJID_JID_String_iff [of j]
  by (auto simp: UnmarshalText_def MarshalText_def JID_Scan_def JID_Value_def split: prod.splits option.splits)

section \<open>Signal addresses\<close>

lemma FormatUint_inj:
  assumes "FormatUint m = FormatUint n"
  shows "m = n"
proof -
  have "parse_uint_loop (max m n) 0 (FormatUint m) = Inr m"
    by (rule parse_uint_loop_Format) simp
  moreover have "parse_uint_loop (max m n) 0 (FormatUint n) = Inr n"
    by (rule parse_uint_loop_Format) simp
  ultimately show ?thesis unfolding assms by (simp only: sum.inject)
qed

lemma append_sep_eq:
  assumes "c \<notin> set u" "c \<notin> set v" "u @ c # s = v @ c # t"
  shows "u = v \<and> s = t"
  using assms
proof (induction u arbitrary: v)
  case Nil
  then show ?case by (cases v) auto
next
  case (Cons a u)
  then show ?case by (cases v) auto
qed

lemma append_last_sep_eq:
  assumes "c \<notin> set s" "c \<notin> set t" "u @ c # s = v @ c # t"
  shows "u = v \<and> s = t"
proof -
  have "rev s @ c # rev u = rev t @ c # rev v" using arg_cong [OF assms(3), of rev] by simp
  then show ?thesis using append_sep_eq [of c "rev s" "rev t" "rev u" "rev v"] assms(1,2) by simp
qed

text \<open>
  A phone number user whose name ends like the Signal name of an account of another server. Numbers
  have no underscore, but the parser accepts one.
\<close>

definition collides :: "JID \<Rightarrow> JID \<Rightarrow> bool" where
  "collides a b \<longleftrightarrow>
     Server a = DefaultUserServer \<and> Server b \<noteq> DefaultUserServer \<and>
     User a = User b @ ''_'' @ FormatUint (unat (ActualAgent b))"

text \<open>
  C5: two accounts of the user servers have the same Signal address name, and so share ratchet state,
  exactly when they are the same account or one is a phone number user whose name is that of the
  other followed by an underscore and the number of its server. Names without an underscore never
  collide.
\<close>

theorem SignalAddressUser_inj:
  assumes "Server a \<in> {DefaultUserServer, HiddenUserServer, HostedServer, HostedLIDServer}"
    and "Server b \<in> {DefaultUserServer, HiddenUserServer, HostedServer, HostedLIDServer}"
  shows "SignalAddressUser a = SignalAddressUser b \<longleftrightarrow>
    User a = User b \<and> Server a = Server b \<or> collides a b \<or> collides b a"
proof -
  have agent: "ActualAgent j = 0 \<longleftrightarrow> Server j = DefaultUserServer"
    if "Server j \<in> {DefaultUserServer, HiddenUserServer, HostedServer, HostedLIDServer}" for j
    using that by (auto simp: ActualAgent_def)
  have same: "ActualAgent a = ActualAgent b \<longleftrightarrow> Server a = Server b"
    using assms by (auto simp: ActualAgent_def)
  have no: "CHR ''_'' \<notin> set (FormatUint n)" for n using FormatUint_digits [of n] by auto
  have "User a @ CHR ''_'' # FormatUint (unat (ActualAgent a)) = User b @ CHR ''_'' # FormatUint (unat (ActualAgent b)) \<longleftrightarrow>
      User a = User b \<and> ActualAgent a = ActualAgent b"
    using append_last_sep_eq [OF no no, of "User a" "unat (ActualAgent a)" "User b" "unat (ActualAgent b)"]
      FormatUint_inj [of "unat (ActualAgent a)" "unat (ActualAgent b)"] by (auto simp: word_unat_eq_iff)
  then show ?thesis
    using agent [OF assms(1)] agent [OF assms(2)] same
    by (cases "ActualAgent a = 0"; cases "ActualAgent b = 0")
      (auto simp: SignalAddressUser_def Let_def collides_def)
qed

theorem SignalAddressUser_inj_witness:
  "SignalAddressUser (NewJID ''1555'' HiddenUserServer) \<noteq> SignalAddressUser (NewJID ''1555'' DefaultUserServer) \<and>
   ParseJID ''1555_1@s.whatsapp.net'' = (NewJID ''1555_1'' DefaultUserServer, None) \<and>
   SignalAddressUser (NewJID ''1555_1'' DefaultUserServer) = SignalAddressUser (NewJID ''1555'' HiddenUserServer)"
proof (intro conjI)
  have one: "FormatUint (Suc 0) = ''1''" by code_simp
  show "SignalAddressUser (NewJID ''1555'' HiddenUserServer) \<noteq> SignalAddressUser (NewJID ''1555'' DefaultUserServer)"
    by (subst SignalAddressUser_inj) (simp_all add: NewJID_def collides_def)
  show "ParseJID ''1555_1@s.whatsapp.net'' = (NewJID ''1555_1'' DefaultUserServer, None)" by code_simp
  show "SignalAddressUser (NewJID ''1555_1'' DefaultUserServer) = SignalAddressUser (NewJID ''1555'' HiddenUserServer)"
    by (subst SignalAddressUser_inj) (simp_all add: NewJID_def collides_def ActualAgent_def one)
qed

end
