(* ===== verification/Nodes.thy ===== *)
theory Nodes
  imports Jid
begin

text \<open>
  \<open>src/binary/node.go\<close>: the binary XML element. A Go \<open>any\<close> that the codec can meet is one of the
  constructors of \<open>gval\<close>; the six integer types are kept apart by \<open>int_kind\<close>, and any other
  dynamic type is \<open>VOther\<close>. \<open>Attrs\<close> is a Go map; it is an association list with distinct keys in
  the order in which the execution at hand iterates over it. The navigation methods are total.
\<close>

section \<open>Values and elements\<close>

datatype int_kind = KInt | KInt32 | KUint | KUint32 | KInt64 | KUint64

datatype gval =
    VNil
  | VStr string
  | VJid JID
  | VInt int_kind int
  | VBool bool
  | VBytes bytes
  | VNodes "node list"
  | VOther string
and node = Node (Tag: string) (Attrs: "(string \<times> gval) list") (Content: gval)

type_synonym attrs = "(string \<times> gval) list"

section \<open>Navigation\<close>

definition GetChildren :: "node \<Rightarrow> node list" where
  "GetChildren n = (case Content n of VNodes children \<Rightarrow> children | _ \<Rightarrow> [])"

definition GetChildrenByTag :: "string \<Rightarrow> node \<Rightarrow> node list" where
  "GetChildrenByTag tag n = filter (\<lambda>child. Tag child = tag) (GetChildren n)"

text \<open>
  \<open>GetOptionalChildByTag\<close> descends one level per tag into the first child with that tag. When a
  level has no such child it returns the element reached so far, and \<open>False\<close>.
\<close>

fun GetOptionalChildByTag :: "string list \<Rightarrow> node \<Rightarrow> node \<times> bool" where
  "GetOptionalChildByTag [] val = (val, True)"
| "GetOptionalChildByTag (tag # tags) val =
     (case find (\<lambda>child. Tag child = tag) (GetChildren val) of
        None \<Rightarrow> (val, False)
      | Some child \<Rightarrow> GetOptionalChildByTag tags child)"

definition GetChildByTag :: "string list \<Rightarrow> node \<Rightarrow> node" where
  "GetChildByTag tags n = fst (GetOptionalChildByTag tags n)"

text \<open>
  The string case of the attribute conversion in \<open>UnmarshalJSON\<close>. In the source's condition \<open>&&\<close>
  binds tighter than \<open>||\<close>, so the parse error is only looked at for the first server.
\<close>

definition json_string_attr :: "string \<Rightarrow> gval" where
  "json_string_attr typedVal =
     (let (parsed, err) = ParseJID typedVal in
      if err = None \<and> Server parsed = DefaultUserServer \<or> Server parsed = NewsletterServer \<or>
         Server parsed = GroupServer \<or> Server parsed = BroadcastServer
      then VJid parsed else VStr typedVal)"

lemma GetOptionalChildByTag_append:
  "GetOptionalChildByTag (ts @ us) n =
     (case GetOptionalChildByTag ts n of (m, True) \<Rightarrow> GetOptionalChildByTag us m | (m, False) \<Rightarrow> (m, False))"
  by (induction ts n rule: GetOptionalChildByTag.induct) (auto split: option.splits)

lemma GetOptionalChildByTag_tag:
  "GetOptionalChildByTag ts n = (m, True) \<Longrightarrow> ts \<noteq> [] \<Longrightarrow> Tag m = last ts"
  by (induction ts n rule: GetOptionalChildByTag.induct)
    (auto simp: find_Some_iff split: option.splits if_splits)

end
