(* ===== verification/Encoder.thy ===== *)
theory Encoder
  imports Nodes Tokens
begin

text \<open>
  \<open>src/binary/encoder.go\<close>: the writer of the binary XML format. The encoder's state is its byte
  buffer; every method takes the buffer and returns the extended one, or the panic the Go method
  raises. Lengths and sizes are natural numbers (Go's 64-bit \<open>int\<close> holds them without wrap).
  That every method only appends, and what the primitive ones append, is shown in \<open>EncoderProps\<close>.
\<close>

unbundle bit_operations_syntax

datatype enc_panic =
    LengthTooLarge nat
  | InvalidType string
  | TooManyBytesToPack nat
  | InvalidPackedType nat
  | InvalidNibble byte
  | InvalidHex byte

section \<open>Primitive writes\<close>

definition newEncoder :: bytes where
  "newEncoder = [0]"

definition pushByte :: "byte \<Rightarrow> bytes \<Rightarrow> bytes" where
  "pushByte b w = w @ [b]"

definition pushBytes :: "bytes \<Rightarrow> bytes \<Rightarrow> bytes" where
  "pushBytes bs w = w @ bs"

definition pushIntN :: "nat \<Rightarrow> nat \<Rightarrow> bool \<Rightarrow> bytes \<Rightarrow> bytes" where
  "pushIntN val n littleEndian w =
     fold (\<lambda>i w. let curShift = (if littleEndian then i else n - i - 1)
                 in pushByte (word_of_nat (drop_bit (curShift * 8) val AND 255)) w) [0..<n] w"

definition pushInt20 :: "nat \<Rightarrow> bytes \<Rightarrow> bytes" where
  "pushInt20 val w =
     pushBytes [word_of_nat (drop_bit 16 val AND 15), word_of_nat (drop_bit 8 val AND 255),
       word_of_nat (val AND 255)] w"

definition pushInt8 :: "nat \<Rightarrow> bytes \<Rightarrow> bytes" where
  "pushInt8 val = pushIntN val 1 False"

definition pushInt16 :: "nat \<Rightarrow> bytes \<Rightarrow> bytes" where
  "pushInt16 val = pushIntN val 2 False"

definition pushInt32 :: "nat \<Rightarrow> bytes \<Rightarrow> bytes" where
  "pushInt32 val = pushIntN val 4 False"

definition pushString :: "string \<Rightarrow> bytes \<Rightarrow> bytes" where
  "pushString s = pushBytes (bytes_of_string s)"

definition writeByteLength :: "nat \<Rightarrow> bytes \<Rightarrow> enc_panic + bytes" where
  "writeByteLength len w =
     (if len < 256 then Inr (pushInt8 len (pushByte Binary8 w))
      else if len < 2 ^ 20 then Inr (pushInt20 len (pushByte Binary20 w))
      else if len < 2 ^ 31 - 1 then Inr (pushInt32 len (pushByte Binary32 w))
      else Inl (LengthTooLarge len))"

definition writeBytes :: "bytes \<Rightarrow> bytes \<Rightarrow> enc_panic + bytes" where
  "writeBytes val w = rbind (writeByteLength (length val) w) (\<lambda>w. Inr (pushBytes val w))"

definition writeStringRaw :: "string \<Rightarrow> bytes \<Rightarrow> enc_panic + bytes" where
  "writeStringRaw val w = rbind (writeByteLength (length val) w) (\<lambda>w. Inr (pushString val w))"

definition writeListStart :: "nat \<Rightarrow> bytes \<Rightarrow> bytes" where
  "writeListStart listSize w =
     (if listSize = 0 then pushByte ListEmpty w
      else if listSize < 256 then pushInt8 listSize (pushByte List8 w)
      else pushInt16 listSize (pushByte List16 w))"

section \<open>Packed strings\<close>

text \<open>
  \<open>validateNibble\<close> and \<open>validateHex\<close> range over runes. A rune outside ASCII, or an invalid byte,
  is none of the accepted characters, so the test is the same bytewise.
\<close>

definition nibble_char :: "char \<Rightarrow> bool" where
  "nibble_char c \<longleftrightarrow>
     (48 \<le> (of_char c :: nat) \<and> (of_char c :: nat) \<le> 57) \<or> c = CHR ''-'' \<or> c = CHR ''.''"

definition hex_char :: "char \<Rightarrow> bool" where
  "hex_char c \<longleftrightarrow>
     (48 \<le> (of_char c :: nat) \<and> (of_char c :: nat) \<le> 57) \<or> (65 \<le> (of_char c :: nat) \<and> (of_char c :: nat) \<le> 70)"

definition validateNibble :: "string \<Rightarrow> bool" where
  "validateNibble val \<longleftrightarrow> \<not> length val > PackedMax \<and> list_all nibble_char val"

definition validateHex :: "string \<Rightarrow> bool" where
  "validateHex val \<longleftrightarrow> \<not> length val > PackedMax \<and> list_all hex_char val"

definition packNibble :: "byte \<Rightarrow> enc_panic + byte" where
  "packNibble val =
     (if val = 45 then Inr 10
      else if val = 46 then Inr 11
      else if val = 0 then Inr 15
      else if 48 \<le> val \<and> val \<le> 57 then Inr (val - 48)
      else Inl (InvalidNibble val))"

definition packHex :: "byte \<Rightarrow> enc_panic + byte" where
  "packHex val =
     (if 48 \<le> val \<and> val \<le> 57 then Inr (val - 48)
      else if 65 \<le> val \<and> val \<le> 70 then Inr (10 + val - 65)
      else if val = 0 then Inr 15
      else Inl (InvalidHex val))"

definition packBytePair :: "(byte \<Rightarrow> enc_panic + byte) \<Rightarrow> byte \<Rightarrow> byte \<Rightarrow> enc_panic + byte" where
  "packBytePair packer part1 part2 =
     rbind (packer part1) (\<lambda>a. rbind (packer part2) (\<lambda>b. Inr (push_bit 4 a OR b)))"

text \<open>The loop over byte pairs, with the last byte of an odd string paired with a zero byte.\<close>

fun pack_pairs :: "(byte \<Rightarrow> enc_panic + byte) \<Rightarrow> bytes \<Rightarrow> bytes \<Rightarrow> enc_panic + bytes" where
  "pack_pairs packer [] w = Inr w"
| "pack_pairs packer [a] w = rbind (packBytePair packer a 0) (\<lambda>p. Inr (pushByte p w))"
| "pack_pairs packer (a # b # val) w =
     rbind (packBytePair packer a b) (\<lambda>p. pack_pairs packer val (pushByte p w))"

definition writePackedBytes :: "string \<Rightarrow> nat \<Rightarrow> bytes \<Rightarrow> enc_panic + bytes" where
  "writePackedBytes val dataType w =
     (if length val > PackedMax then Inl (TooManyBytesToPack (length val))
      else
        (let rounded = (word_of_nat ((length val + 1) div 2) :: byte);
             roundedLength = (if length val mod 2 \<noteq> 0 then rounded OR 128 else rounded);
             w = pushByte roundedLength (pushByte (word_of_nat dataType) w)
         in if dataType = Nibble8 then pack_pairs packNibble (bytes_of_string val) w
            else if dataType = Hex8 then pack_pairs packHex (bytes_of_string val) w
            else Inl (InvalidPackedType dataType)))"

definition writeString :: "string \<Rightarrow> bytes \<Rightarrow> enc_panic + bytes" where
  "writeString s w =
     (case IndexOfSingleToken s of
        Some tokenIndex \<Rightarrow> Inr (pushByte tokenIndex w)
      | None \<Rightarrow>
          (case IndexOfDoubleByteToken s of
             Some (dictIndex, tokenIndex) \<Rightarrow> Inr (pushByte tokenIndex (pushByte (Dictionary0 + dictIndex) w))
           | None \<Rightarrow>
               if validateNibble s then writePackedBytes s Nibble8 w
               else if validateHex s then writePackedBytes s Hex8 w
               else writeStringRaw s w))"

section \<open>Addresses, attributes and elements\<close>

definition writeJID :: "JID \<Rightarrow> bytes \<Rightarrow> enc_panic + bytes" where
  "writeJID jid w =
     (if (Server jid = DefaultUserServer \<or> Server jid = HiddenUserServer) \<and> Device jid > 0 \<or>
         Server jid = HostedServer \<or> Server jid = HostedLIDServer then
        writeString (User jid) (pushByte (ucast (Device jid)) (pushByte (ActualAgent jid) (pushByte ADJID w)))
      else if Server jid = MessengerServer then
        rbind (writeString (User jid) (pushByte FBJID w)) (\<lambda>w.
          writeString (Server jid) (pushInt16 (unat (Device jid)) w))
      else if Server jid = InteropServer then
        rbind (writeString (User jid) (pushByte InteropJID w)) (\<lambda>w.
          writeString (Server jid)
            (pushInt16 (unat (Integrator jid)) (pushInt16 (unat (Device jid)) w)))
      else
        (let w = pushByte JIDPair w in
         rbind (if length (User jid) = 0 then Inr (pushByte ListEmpty w) else writeString (User jid) w)
           (writeString (Server jid))))"

definition skipped_attr :: "gval \<Rightarrow> bool" where
  "skipped_attr v \<longleftrightarrow> v = VStr [] \<or> v = VNil"

definition countAttributes :: "attrs \<Rightarrow> nat" where
  "countAttributes attributes = length (filter (\<lambda>kv. \<not> skipped_attr (snd kv)) attributes)"

fun writeNode :: "node \<Rightarrow> bytes \<Rightarrow> enc_panic + bytes"
  and write_any :: "gval \<Rightarrow> bytes \<Rightarrow> enc_panic + bytes"
  and writeNodes :: "node list \<Rightarrow> bytes \<Rightarrow> enc_panic + bytes"
  and writeAttributes :: "attrs \<Rightarrow> bytes \<Rightarrow> enc_panic + bytes" where
  "writeNode (Node tag ats content) w =
     (if tag = ''0'' then Inr (pushByte ListEmpty (pushByte List8 w))
      else
        (let hasContent = (if content \<noteq> VNil then 1 else 0) in
         rbind (writeString tag (writeListStart (2 * countAttributes ats + 1 + hasContent) w)) (\<lambda>w.
         rbind (writeAttributes ats w) (\<lambda>w.
         if content \<noteq> VNil then write_any content w else Inr w))))"
| "write_any VNil w = Inr (pushByte ListEmpty w)"
| "write_any (VJid jid) w = writeJID jid w"
| "write_any (VStr s) w = writeString s w"
| "write_any (VInt k i) w = writeString (FormatInt i) w"
| "write_any (VBool b) w = writeString (FormatBool b) w"
| "write_any (VBytes b) w = writeBytes b w"
| "write_any (VNodes ns) w = writeNodes ns (writeListStart (length ns) w)"
| "write_any (VOther t) w = Inl (InvalidType t)"
| "writeNodes [] w = Inr w"
| "writeNodes (n # ns) w = rbind (writeNode n w) (writeNodes ns)"
| "writeAttributes [] w = Inr w"
| "writeAttributes ((key, val) # ats) w =
     (if skipped_attr val then writeAttributes ats w
      else rbind (writeString key w) (\<lambda>w. rbind (write_any val w) (writeAttributes ats)))"

definition Marshal :: "node \<Rightarrow> enc_panic + bytes" where
  "Marshal n = writeNode n newEncoder"

end
