(* ===== verification/EncoderProps.thy ===== *)
theory EncoderProps
  imports Encoder
begin

text \<open>
  Facts about the encoder of \<open>Encoder\<close>: what the primitive writes append, and that every method
  only appends to the buffer, so that the bytes it adds do not depend on what was written before.
\<close>

unbundle bit_operations_syntax

section \<open>Every write appends\<close>

definition appends :: "(bytes \<Rightarrow> enc_panic + bytes) \<Rightarrow> bool" where
  "appends f \<longleftrightarrow> (\<forall>w. f w = rbind (f []) (\<lambda>e. Inr (w @ e)))"

lemma appendsI: "(\<And>w. f w = rbind (f []) (\<lambda>e. Inr (w @ e))) \<Longrightarrow> appends f"
  unfolding appends_def by blast

lemma appendsD: "appends f \<Longrightarrow> f w = rbind (f []) (\<lambda>e. Inr (w @ e))"
  unfolding appends_def by blast

lemma appends_bind:
  assumes "appends f" and "appends g"
  shows "appends (\<lambda>w. rbind (f w) g)"
proof (rule appendsI)
  fix w
  show "rbind (f w) g = rbind (rbind (f []) g) (\<lambda>e. Inr (w @ e))"
  proof (cases "f []")
    case (Inr e)
    have "g (w @ e) = rbind (g e) (\<lambda>e'. Inr (w @ e'))"
      by (subst (1 2) appendsD [OF assms(2)]) (simp add: rbind_assoc)
    with Inr show ?thesis by (subst appendsD [OF assms(1)]) simp
  qed (subst appendsD [OF assms(1)], simp)
qed

lemma appends_const [intro]: "appends (\<lambda>w. Inr (w @ e))" "appends Inr" "appends (\<lambda>w. Inl p)"
  by (simp_all add: appends_def)

lemma appends_pre:
  assumes "appends g"
  shows "appends (\<lambda>w. g (w @ e))"
  using appends_bind [OF appends_const(1) [of e] assms] by simp

lemma appends_if [intro]: "appends f \<Longrightarrow> appends g \<Longrightarrow> appends (\<lambda>w. if c then f w else g w)"
  by (cases c) simp_all

lemma fold_pushByte: "fold (\<lambda>i w. pushByte (h i) w) xs w = w @ map h xs"
  by (induction xs arbitrary: w) (simp_all add: pushByte_def)

lemma pushIntN_eq:
  "pushIntN v n le w =
     w @ map (\<lambda>i. word_of_nat (drop_bit ((if le then i else n - i - 1) * 8) v AND 255)) [0..<n]"
  by (simp only: pushIntN_def Let_def fold_pushByte)

lemma pushIntN_simps [enc_simps]:
  "pushInt8 v w = w @ [word_of_nat (v AND 255)]"
  "pushInt16 v w = w @ [word_of_nat (drop_bit 8 v AND 255), word_of_nat (v AND 255)]"
  "pushInt32 v w =
     w @ [word_of_nat (drop_bit 24 v AND 255), word_of_nat (drop_bit 16 v AND 255),
          word_of_nat (drop_bit 8 v AND 255), word_of_nat (v AND 255)]"
  "pushInt20 v w =
     w @ [word_of_nat (drop_bit 16 v AND 15), word_of_nat (drop_bit 8 v AND 255), word_of_nat (v AND 255)]"
  by (simp_all add: pushInt8_def pushInt16_def pushInt32_def pushInt20_def pushIntN_eq pushBytes_def upt_rec)

lemma appends_rbind_const:
  "(\<And>x. m = Inr x \<Longrightarrow> appends (f x)) \<Longrightarrow> appends (\<lambda>w. rbind m (\<lambda>x. f x w))"
  by (cases m) auto

lemma appends_writeByteLength [intro]: "appends (writeByteLength n)"
  by (rule appendsI) (simp add: writeByteLength_def enc_simps pushByte_def)

lemma appends_writeBytes [intro]: "appends (writeBytes v)"
  unfolding writeBytes_def [abs_def] pushBytes_def by (intro appends_bind) auto

lemma appends_writeStringRaw [intro]: "appends (writeStringRaw v)"
  unfolding writeStringRaw_def [abs_def] pushString_def pushBytes_def by (intro appends_bind) auto

lemma writeListStart_append: "writeListStart n w = w @ writeListStart n []"
  by (simp add: writeListStart_def enc_simps pushByte_def)

lemma appends_pack_pairs [intro]: "appends (pack_pairs packer v)"
proof (induction v rule: induct_list012)
  case 1
  have "pack_pairs packer [] = Inr" by (rule ext) simp
  then show ?case by auto
next
  case (2 a)
  have "pack_pairs packer [a] = (\<lambda>w. rbind (packBytePair packer a 0) (\<lambda>p. Inr (w @ [p])))"
    by (rule ext) (simp add: pushByte_def)
  then show ?case by (simp only:) (rule appends_rbind_const, rule appends_const)
next
  case (3 a b v)
  have "pack_pairs packer (a # b # v) =
      (\<lambda>w. rbind (packBytePair packer a b) (\<lambda>p. pack_pairs packer v (w @ [p])))"
    by (rule ext) (simp add: pushByte_def)
  then show ?case by (simp only:) (rule appends_rbind_const, rule appends_pre, rule 3)
qed

lemma appends_writePackedBytes [intro]: "appends (writePackedBytes v t)"
  unfolding writePackedBytes_def [abs_def] Let_def pushByte_def append_assoc
  by (intro appends_if appends_pack_pairs [THEN appends_pre] appends_const)

lemma appends_writeString [intro]: "appends (writeString s)"
  unfolding writeString_def [abs_def] pushByte_def append_assoc
  by (cases "IndexOfSingleToken s"; cases "IndexOfDoubleByteToken s")
    (auto simp: split_beta intro!: appends_if appends_writePackedBytes appends_writeStringRaw)

lemma appends_writeJID [intro]: "appends (writeJID j)"
  unfolding writeJID_def [abs_def] Let_def pushByte_def pushIntN_simps(2) append_assoc
  by (intro appends_if appends_bind appends_writeString [THEN appends_pre] appends_writeString appends_const)

lemma appends_writeNodes:
  "(\<And>n. n \<in> set ns \<Longrightarrow> appends (writeNode n)) \<Longrightarrow> appends (writeNodes ns)"
proof (induction ns)
  case Nil
  have "writeNodes [] = Inr" by (rule ext) simp
  then show ?case by auto
next
  case (Cons n ns)
  have "writeNodes (n # ns) = (\<lambda>w. rbind (writeNode n w) (writeNodes ns))" by (rule ext) simp
  with Cons show ?case by (simp only:) (rule appends_bind, auto)
qed

lemma appends_writeAttributes:
  "(\<And>kv. kv \<in> set ats \<Longrightarrow> appends (write_any (snd kv))) \<Longrightarrow> appends (writeAttributes ats)"
proof (induction ats)
  case Nil
  have "writeAttributes [] = Inr" by (rule ext) simp
  then show ?case by auto
next
  case (Cons kv ats)
  obtain k v where kv: "kv = (k, v)" by (cases kv)
  have "writeAttributes (kv # ats) =
      (\<lambda>w. if skipped_attr v then writeAttributes ats w
           else rbind (writeString k w) (\<lambda>w. rbind (write_any v w) (writeAttributes ats)))"
    by (rule ext) (simp add: kv)
  moreover have "appends (writeAttributes ats)" "appends (write_any v)"
    using Cons.IH Cons.prems Cons.prems [of "(k, v)"] kv by simp_all
  ultimately show ?case
    by (simp only:) (intro appends_if appends_bind appends_writeString)
qed

lemma write_any_eqs:
  "write_any VNil = (\<lambda>w. Inr (w @ [0]))"
  "write_any (VJid j) = writeJID j"
  "write_any (VStr s) = writeString s"
  "write_any (VInt k i) = writeString (FormatInt i)"
  "write_any (VBool b) = writeString (FormatBool b)"
  "write_any (VBytes bs) = writeBytes bs"
  "write_any (VNodes ns) = (\<lambda>w. writeNodes ns (w @ writeListStart (length ns) []))"
  "write_any (VOther t) = (\<lambda>w. Inl (InvalidType t))"
  by (simp_all add: fun_eq_iff pushByte_def flip: writeListStart_append)

lemma appends_write_any [intro]: "appends (write_any v)"
  and appends_writeNode [intro]: "appends (writeNode n)"
proof (induction v and n)
  case (VNodes ns)
  then show ?case
    unfolding write_any_eqs by (intro appends_writeNodes [THEN appends_pre])
next
  case (Node tag ats content)
  let ?n = "2 * countAttributes ats + 1 + (if content \<noteq> VNil then 1 else 0)"
  have "writeNode (Node tag ats content) =
      (\<lambda>w. if tag = ''0'' then Inr (w @ [List8, ListEmpty])
           else rbind (writeString tag (w @ writeListStart ?n [])) (\<lambda>w.
             rbind (writeAttributes ats w) (\<lambda>w.
             if content \<noteq> VNil then write_any content w else Inr w)))"
    by (rule ext) (simp add: pushByte_def Let_def flip: writeListStart_append)
  moreover have "appends (writeAttributes ats)"
    by (rule appends_writeAttributes) (auto intro: Node.IH)
  ultimately show ?case
    by (simp only:) (intro appends_if appends_bind appends_writeString [THEN appends_pre] appends_const Node.IH)
qed (unfold write_any_eqs, auto)

end
