(* ===== verification/Decoder.thy ===== *)
theory Decoder
  imports Nodes Tokens
begin

text \<open>
  \<open>src/binary/decoder.go\<close>, and \<open>Unmarshal\<close> and \<open>Unpack\<close> of \<open>node.go\<close> and \<open>unpack.go\<close>: the reader of
  the binary XML format. The decoder is the input with a read index. Every index and slice expression
  goes through \<open>at_opt\<close>, \<open>slice_opt\<close> or \<open>slice_to\<close>, so that Go's out-of-range panic is the value
  \<open>IndexPanic\<close>.

  \<open>read\<close>, \<open>readNode\<close> and the readers of addresses, attributes and lists call each other. Here each
  of them takes the reader it calls back as an argument \<open>rd\<close>, and \<open>read\<close> ties the knot by recursion
  on a fuel that bounds the nesting depth; every nested call comes after one more byte has been
  consumed, so a fuel larger than the number of remaining bytes is never used up (shown in
  \<open>DecoderProps\<close>). Sizes are natural numbers below \<open>2 ^ 32\<close>, which Go's 64-bit \<open>int\<close> holds.
\<close>

unbundle bit_operations_syntax

datatype dec_error =
    EOF
  | OddFlagWithoutData
  | UnknownUnpackTag nat
  | BadNibble byte
  | BadHex byte
  | UnknownListTag nat nat
  | DoubleTokenBounds nat nat
  | ErrInvalidToken nat nat
  | ErrInvalidJIDType
  | ErrNonStringKey nat
  | ErrInvalidNode
  | LeftoverBytes nat
  | IndexPanic
  | OutOfFuel

record decoder =
  dec_data :: bytes
  dec_index :: nat

type_synonym 'a dec_result = "dec_error + 'a \<times> decoder"

section \<open>Primitive reads\<close>

definition newDecoder :: "bytes \<Rightarrow> decoder" where
  "newDecoder d = \<lparr>dec_data = d, dec_index = 0\<rparr>"

definition checkEOS :: "nat \<Rightarrow> decoder \<Rightarrow> dec_error + unit" where
  "checkEOS len r = (if dec_index r + len > length (dec_data r) then Inl EOF else Inr ())"

definition readByte :: "decoder \<Rightarrow> byte dec_result" where
  "readByte r =
     rbind (checkEOS 1 r) (\<lambda>_.
       case at_opt (dec_data r) (dec_index r) of
         None \<Rightarrow> Inl IndexPanic
       | Some b \<Rightarrow> Inr (b, r\<lparr>dec_index := dec_index r + 1\<rparr>))"

fun readIntN_loop :: "nat \<Rightarrow> bool \<Rightarrow> decoder \<Rightarrow> nat list \<Rightarrow> nat \<Rightarrow> dec_error + nat" where
  "readIntN_loop n littleEndian r [] ret = Inr ret"
| "readIntN_loop n littleEndian r (i # is) ret =
     (let curShift = (if littleEndian then i else n - i - 1) in
      case at_opt (dec_data r) (dec_index r + i) of
        None \<Rightarrow> Inl IndexPanic
      | Some b \<Rightarrow> readIntN_loop n littleEndian r is (ret OR push_bit (curShift * 8) (unat b)))"

definition readIntN :: "nat \<Rightarrow> bool \<Rightarrow> decoder \<Rightarrow> nat dec_result" where
  "readIntN n littleEndian r =
     rbind (checkEOS n r) (\<lambda>_.
     rbind (readIntN_loop n littleEndian r [0..<n] 0) (\<lambda>ret.
       Inr (ret, r\<lparr>dec_index := dec_index r + n\<rparr>)))"

definition readInt8 :: "bool \<Rightarrow> decoder \<Rightarrow> nat dec_result" where
  "readInt8 = readIntN 1"

definition readInt16 :: "bool \<Rightarrow> decoder \<Rightarrow> nat dec_result" where
  "readInt16 = readIntN 2"

definition readInt32 :: "bool \<Rightarrow> decoder \<Rightarrow> nat dec_result" where
  "readInt32 = readIntN 4"

definition readInt20 :: "decoder \<Rightarrow> nat dec_result" where
  "readInt20 r =
     rbind (checkEOS 3 r) (\<lambda>_.
       case (at_opt (dec_data r) (dec_index r), at_opt (dec_data r) (dec_index r + 1),
             at_opt (dec_data r) (dec_index r + 2)) of
         (Some a, Some b, Some c) \<Rightarrow>
           Inr (push_bit 16 (unat a AND 15) + push_bit 8 (unat b) + unat c,
                r\<lparr>dec_index := dec_index r + 3\<rparr>)
       | _ \<Rightarrow> Inl IndexPanic)"

definition readRaw :: "nat \<Rightarrow> decoder \<Rightarrow> bytes dec_result" where
  "readRaw len r =
     rbind (checkEOS len r) (\<lambda>_.
       case slice_opt (dec_data r) (dec_index r) (dec_index r + len) of
         None \<Rightarrow> Inl IndexPanic
       | Some ret \<Rightarrow> Inr (ret, r\<lparr>dec_index := dec_index r + len\<rparr>))"

definition readBytesOrString :: "nat \<Rightarrow> bool \<Rightarrow> decoder \<Rightarrow> gval dec_result" where
  "readBytesOrString len asString r =
     rbind (readRaw len r) (\<lambda>(d, r). Inr (if asString then VStr (string_of_bytes d) else VBytes d, r))"

section \<open>Packed strings\<close>

definition unpackNibble :: "byte \<Rightarrow> dec_error + byte" where
  "unpackNibble v =
     (if v < 10 then Inr (48 + v)
      else if v = 10 then Inr 45
      else if v = 11 then Inr 46
      else if v = 15 then Inr 0
      else Inl (BadNibble v))"

definition unpackHex :: "byte \<Rightarrow> dec_error + byte" where
  "unpackHex v =
     (if v < 10 then Inr (48 + v)
      else if v < 16 then Inr (65 + v - 10)
      else Inl (BadHex v))"

definition unpackByte :: "nat \<Rightarrow> byte \<Rightarrow> dec_error + byte" where
  "unpackByte tag v =
     (if tag = Nibble8 then unpackNibble v
      else if tag = Hex8 then unpackHex v
      else Inl (UnknownUnpackTag tag))"

fun readPacked8_loop :: "nat \<Rightarrow> nat \<Rightarrow> bytes \<Rightarrow> decoder \<Rightarrow> bytes dec_result" where
  "readPacked8_loop tag 0 build r = Inr (build, r)"
| "readPacked8_loop tag (Suc n) build r =
     rbind (readByte r) (\<lambda>(currByte, r).
     rbind (unpackByte tag (drop_bit 4 (currByte AND 240))) (\<lambda>lower.
     rbind (unpackByte tag (currByte AND 15)) (\<lambda>upper.
       readPacked8_loop tag n (build @ [lower, upper]) r)))"

definition readPacked8 :: "nat \<Rightarrow> decoder \<Rightarrow> gval dec_result" where
  "readPacked8 tag r =
     rbind (readByte r) (\<lambda>(startByte, r).
     rbind (readPacked8_loop tag (unat (startByte AND 127)) [] r) (\<lambda>(ret, r).
       if drop_bit 7 startByte \<noteq> 0 then
         (if length ret = 0 then Inl OddFlagWithoutData
          else case slice_to ret (int (length ret) - 1) of
            None \<Rightarrow> Inl IndexPanic
          | Some ret \<Rightarrow> Inr (VStr (string_of_bytes ret), r))
       else Inr (VStr (string_of_bytes ret), r)))"

section \<open>Lists, addresses and elements, over a given reader\<close>

type_synonym reader = "bool \<Rightarrow> decoder \<Rightarrow> gval dec_result"

definition readListSize :: "nat \<Rightarrow> decoder \<Rightarrow> nat dec_result" where
  "readListSize tag r =
     (if tag = ListEmpty then Inr (0, r)
      else if tag = List8 then readInt8 False r
      else if tag = List16 then readInt16 False r
      else Inl (UnknownListTag tag (dec_index r)))"

definition readJIDPair :: "reader \<Rightarrow> decoder \<Rightarrow> gval dec_result" where
  "readJIDPair rd r =
     rbind (rd True r) (\<lambda>(user, r).
     rbind (rd True r) (\<lambda>(server, r).
       case server of
         VStr serverStr \<Rightarrow>
           (case user of
              VNil \<Rightarrow> Inr (VJid (NewJID [] serverStr), r)
            | VStr userStr \<Rightarrow> Inr (VJid (NewJID userStr serverStr), r)
            | _ \<Rightarrow> Inl ErrInvalidJIDType)
       | _ \<Rightarrow> Inl ErrInvalidJIDType))"

definition readInteropJID :: "reader \<Rightarrow> decoder \<Rightarrow> gval dec_result" where
  "readInteropJID rd r =
     rbind (rd True r) (\<lambda>(user, r).
     rbind (readInt16 False r) (\<lambda>(device, r).
     rbind (readInt16 False r) (\<lambda>(integrator, r).
     rbind (rd True r) (\<lambda>(server, r).
       if server \<noteq> VStr InteropServer then Inl ErrInvalidJIDType
       else (case user of
           VStr userStr \<Rightarrow>
             Inr (VJid \<lparr>User = userStr, RawAgent = 0, Device = word_of_nat device,
                        Integrator = word_of_nat integrator, Server = InteropServer\<rparr>, r)
         | _ \<Rightarrow> Inl ErrInvalidJIDType)))))"

definition readFBJID :: "reader \<Rightarrow> decoder \<Rightarrow> gval dec_result" where
  "readFBJID rd r =
     rbind (rd True r) (\<lambda>(user, r).
     rbind (readInt16 False r) (\<lambda>(device, r).
     rbind (rd True r) (\<lambda>(server, r).
       if server \<noteq> VStr MessengerServer then Inl ErrInvalidJIDType
       else (case user of
           VStr userStr \<Rightarrow>
             Inr (VJid \<lparr>User = userStr, RawAgent = 0, Device = word_of_nat device,
                        Integrator = 0, Server = MessengerServer\<rparr>, r)
         | _ \<Rightarrow> Inl ErrInvalidJIDType))))"

definition readADJID :: "reader \<Rightarrow> decoder \<Rightarrow> gval dec_result" where
  "readADJID rd r =
     rbind (readByte r) (\<lambda>(agent, r).
     rbind (readByte r) (\<lambda>(device, r).
     rbind (rd True r) (\<lambda>(user, r).
       case user of
         VStr userStr \<Rightarrow> Inr (VJid (NewADJID userStr agent device), r)
       | _ \<Rightarrow> Inl ErrInvalidJIDType)))"

text \<open>The map under construction is an association list; a repeated key overwrites its value.\<close>

fun readAttributes_loop :: "reader \<Rightarrow> nat \<Rightarrow> attrs \<Rightarrow> decoder \<Rightarrow> attrs dec_result" where
  "readAttributes_loop rd 0 ret r = Inr (ret, r)"
| "readAttributes_loop rd (Suc n) ret r =
     rbind (rd True r) (\<lambda>(keyIfc, r).
       case keyIfc of
         VStr key \<Rightarrow>
           rbind (rd True r) (\<lambda>(val, r). readAttributes_loop rd n (aset key val ret) r)
       | _ \<Rightarrow> Inl (ErrNonStringKey (dec_index r)))"

definition readAttributes :: "reader \<Rightarrow> nat \<Rightarrow> decoder \<Rightarrow> attrs dec_result" where
  "readAttributes rd n r = (if n = 0 then Inr ([], r) else readAttributes_loop rd n [] r)"

definition readNode :: "reader \<Rightarrow> decoder \<Rightarrow> node dec_result" where
  "readNode rd r =
     rbind (readInt8 False r) (\<lambda>(size, r).
     rbind (readListSize size r) (\<lambda>(listSize, r).
     rbind (rd True r) (\<lambda>(rawDesc, r).
       case rawDesc of
         VStr tag \<Rightarrow>
           (if listSize = 0 \<or> tag = [] then Inl ErrInvalidNode
            else
              rbind (readAttributes rd (drop_bit 1 (listSize - 1)) r) (\<lambda>(ats, r).
                if listSize mod 2 = 1 then Inr (Node tag ats VNil, r)
                else rbind (rd False r) (\<lambda>(content, r). Inr (Node tag ats content, r))))
       | _ \<Rightarrow> Inl ErrInvalidNode)))"

fun readNodes :: "reader \<Rightarrow> nat \<Rightarrow> decoder \<Rightarrow> node list dec_result" where
  "readNodes rd 0 r = Inr ([], r)"
| "readNodes rd (Suc n) r =
     rbind (readNode rd r) (\<lambda>(x, r). rbind (readNodes rd n r) (\<lambda>(xs, r). Inr (x # xs, r)))"

definition readList :: "reader \<Rightarrow> nat \<Rightarrow> decoder \<Rightarrow> gval dec_result" where
  "readList rd tag r =
     rbind (readListSize tag r) (\<lambda>(size, r). rbind (readNodes rd size r) (\<lambda>(ns, r). Inr (VNodes ns, r)))"

text \<open>One level of \<open>read\<close>: the tag byte, and the switch on it.\<close>

definition read_tag :: "reader \<Rightarrow> bool \<Rightarrow> nat \<Rightarrow> decoder \<Rightarrow> gval dec_result" where
  "read_tag rd asString tag r =
     (if tag = ListEmpty then Inr (VNil, r)
      else if tag = List8 \<or> tag = List16 then readList rd tag r
      else if tag = Binary8 then rbind (readInt8 False r) (\<lambda>(size, r). readBytesOrString size asString r)
      else if tag = Binary20 then rbind (readInt20 r) (\<lambda>(size, r). readBytesOrString size asString r)
      else if tag = Binary32 then rbind (readInt32 False r) (\<lambda>(size, r). readBytesOrString size asString r)
      else if tag = Dictionary0 \<or> tag = Dictionary1 \<or> tag = Dictionary2 \<or> tag = Dictionary3 then
        rbind (readInt8 False r) (\<lambda>(i, r).
          case GetDoubleToken (int tag - Dictionary0) (int i) of
            Inl TokenBounds \<Rightarrow> Inl (DoubleTokenBounds tag i)
          | Inl TokenPanic \<Rightarrow> Inl IndexPanic
          | Inr t \<Rightarrow> Inr (VStr t, r))
      else if tag = FBJID then readFBJID rd r
      else if tag = InteropJID then readInteropJID rd r
      else if tag = JIDPair then readJIDPair rd r
      else if tag = ADJID then readADJID rd r
      else if tag = Nibble8 \<or> tag = Hex8 then readPacked8 tag r
      else if 1 \<le> tag \<and> tag < length SingleByteTokens then
        (case at_opt SingleByteTokens tag of None \<Rightarrow> Inl IndexPanic | Some t \<Rightarrow> Inr (VStr t, r))
      else Inl (ErrInvalidToken tag (dec_index r)))"

definition read_step :: "reader \<Rightarrow> reader" where
  "read_step rd asString r =
     rbind (readByte r) (\<lambda>(tagByte, r). read_tag rd asString (unat tagByte) r)"

primrec read :: "nat \<Rightarrow> reader" where
  "read 0 = (\<lambda>asString r. Inl OutOfFuel)"
| "read (Suc fuel) = read_step (read fuel)"

definition Unmarshal :: "bytes \<Rightarrow> dec_error + node" where
  "Unmarshal d =
     rbind (readNode (read (Suc (length d))) (newDecoder d)) (\<lambda>(n, r).
       if dec_index r \<noteq> length (dec_data r) then Inl (LeftoverBytes (length (dec_data r) - dec_index r))
       else Inr n)"

text \<open>
  \<open>Unpack\<close> strips the flag byte and inflates the rest when bit 1 of it is set. The zlib reader is
  the parameter \<open>inflate\<close>.
\<close>

datatype unpack_error = UnexpectedEOF | InflateFailed

definition Unpack :: "(bytes \<Rightarrow> bytes option) \<Rightarrow> bytes \<Rightarrow> unpack_error + bytes" where
  "Unpack inflate d =
     (case d of
        [] \<Rightarrow> Inl UnexpectedEOF
      | dataType # rest \<Rightarrow>
          if 2 AND dataType > 0 then
            (case inflate rest of None \<Rightarrow> Inl InflateFailed | Some out \<Rightarrow> Inr out)
          else Inr rest)"

end
