(* ===== verification/DecoderProps.thy ===== *)
theory DecoderProps
  imports Decoder
begin

text \<open>
  Soundness of the decoder of \<open>Decoder\<close>: \<open>sound lim k m\<close> says that the step \<open>m\<close>, started inside
  the input, never indexes out of range, consumes at least \<open>k\<close> bytes when it succeeds and stays
  inside the input, and runs out of fuel only when at least \<open>lim\<close> bytes remain. The locale
  \<open>value_reader\<close> is the contract the structured readers have with the reader they call back; every
  level of \<open>read\<close> provides it. The consequence is that \<open>Unmarshal\<close> is total.
\<close>

unbundle bit_operations_syntax

section \<open>Soundness\<close>

definition remaining :: "decoder \<Rightarrow> nat" where
  "remaining r = length (dec_data r) - dec_index r"

definition within :: "decoder \<Rightarrow> bool" where
  "within r \<longleftrightarrow> dec_index r \<le> length (dec_data r)"

definition sound :: "nat \<Rightarrow> nat \<Rightarrow> (decoder \<Rightarrow> 'a dec_result) \<Rightarrow> bool" where
  "sound lim k m \<longleftrightarrow>
     (\<forall>r. within r \<longrightarrow>
        (case m r of
           Inl e \<Rightarrow> e \<noteq> IndexPanic \<and> (e = OutOfFuel \<longrightarrow> lim \<le> remaining r)
         | Inr (x, r') \<Rightarrow>
             dec_data r' = dec_data r \<and> within r' \<and> dec_index r + k \<le> dec_index r'))"

lemma soundI:
  assumes "\<And>r e. within r \<Longrightarrow> m r = Inl e \<Longrightarrow> e \<noteq> IndexPanic \<and> (e = OutOfFuel \<longrightarrow> lim \<le> remaining r)"
    and "\<And>r x r'. within r \<Longrightarrow> m r = Inr (x, r') \<Longrightarrow>
      dec_data r' = dec_data r \<and> within r' \<and> dec_index r + k \<le> dec_index r'"
  shows "sound lim k m"
  unfolding sound_def
proof (intro allI impI)
  fix r
  assume w: "within r"
  show "case m r of Inl e \<Rightarrow> e \<noteq> IndexPanic \<and> (e = OutOfFuel \<longrightarrow> lim \<le> remaining r)
      | Inr (x, r') \<Rightarrow> dec_data r' = dec_data r \<and> within r' \<and> dec_index r + k \<le> dec_index r'"
  proof (cases "m r")
    case (Inl e)
    with assms(1) [OF w Inl] show ?thesis by simp
  next
    case (Inr y)
    obtain x r' where "y = (x, r')" by (cases y)
    with Inr assms(2) [OF w, of x r'] show ?thesis by simp
  qed
qed

lemma soundD:
  assumes "sound lim k m" and "within r"
  shows "case m r of Inl e \<Rightarrow> e \<noteq> IndexPanic \<and> (e = OutOfFuel \<longrightarrow> lim \<le> remaining r)
      | Inr (x, r') \<Rightarrow> dec_data r' = dec_data r \<and> within r' \<and> dec_index r + k \<le> dec_index r'"
  using assms unfolding sound_def by blast

lemma sound_Inl:
  "sound lim k m \<Longrightarrow> within r \<Longrightarrow> m r = Inl e \<Longrightarrow> e \<noteq> IndexPanic \<and> (e = OutOfFuel \<longrightarrow> lim \<le> remaining r)"
  by (drule (1) soundD) simp

lemma sound_Inr:
  "sound lim k m \<Longrightarrow> within r \<Longrightarrow> m r = Inr (x, r') \<Longrightarrow>
     dec_data r' = dec_data r \<and> within r' \<and> dec_index r + k \<le> dec_index r'"
  by (drule (1) soundD) simp

lemma sound_bind_gen:
  assumes "sound lim k m" and "\<And>x. sound lim' j (f x)" and "lim \<le> lim' + k"
  shows "sound lim (k + j) (\<lambda>r. rbind (m r) (\<lambda>(x, r). f x r))"
proof (rule soundI)
  fix r e
  assume w: "within r" and e: "rbind (m r) (\<lambda>(x, r). f x r) = Inl e"
  from e consider "m r = Inl e" | x r' where "m r = Inr (x, r')" "f x r' = Inl e"
    by (auto simp: rbind_eq_Inl)
  then show "e \<noteq> IndexPanic \<and> (e = OutOfFuel \<longrightarrow> lim \<le> remaining r)"
  proof cases
    case 1
    with assms(1) w show ?thesis by (rule sound_Inl)
  next
    case 2
    from sound_Inr [OF assms(1) w 2(1)] have r': "dec_data r' = dec_data r" "within r'"
      "dec_index r + k \<le> dec_index r'" by auto
    from sound_Inl [OF assms(2) r'(2) 2(2)] r' assms(3) show ?thesis
      by (auto simp: remaining_def within_def)
  qed
next
  fix r y r''
  assume w: "within r" and "rbind (m r) (\<lambda>(x, r). f x r) = Inr (y, r'')"
  then obtain x r' where m: "m r = Inr (x, r')" and f: "f x r' = Inr (y, r'')"
    by (auto simp: rbind_eq_Inr)
  from sound_Inr [OF assms(1) w m] have r': "dec_data r' = dec_data r" "within r'"
    "dec_index r + k \<le> dec_index r'" by auto
  from sound_Inr [OF assms(2) r'(2) f] r'
  show "dec_data r'' = dec_data r \<and> within r'' \<and> dec_index r + (k + j) \<le> dec_index r''"
    by auto
qed

lemma sound_weaken:
  assumes "sound lim k m" and "j \<le> k" and "lim' \<le> lim"
  shows "sound lim' j m"
proof (rule soundI)
  fix r e
  assume "within r" and "m r = Inl e"
  from sound_Inl [OF assms(1) this] assms(3)
  show "e \<noteq> IndexPanic \<and> (e = OutOfFuel \<longrightarrow> lim' \<le> remaining r)" by auto
next
  fix r x r'
  assume "within r" and "m r = Inr (x, r')"
  from sound_Inr [OF assms(1) this] assms(2)
  show "dec_data r' = dec_data r \<and> within r' \<and> dec_index r + j \<le> dec_index r'" by simp
qed

lemma sound_drop: "sound lim k m \<Longrightarrow> sound lim 0 m"
  by (erule sound_weaken) simp_all

lemma sound_bind:
  assumes "sound lim k m" and "\<And>x. sound lim 0 (f x)"
  shows "sound lim k (\<lambda>r. rbind (m r) (\<lambda>(x, r). f x r))"
  using sound_bind_gen [OF assms] by simp

lemma sound_return: "sound lim 0 (\<lambda>r. Inr (x, r))"
  by (simp add: sound_def)

lemma sound_fail: "e \<noteq> IndexPanic \<Longrightarrow> e \<noteq> OutOfFuel \<Longrightarrow> sound lim k (\<lambda>r. Inl e)"
  by (simp add: sound_def)

lemma sound_fail_at:
  "(\<And>i. g i \<noteq> IndexPanic \<and> g i \<noteq> OutOfFuel) \<Longrightarrow> sound lim k (\<lambda>r. Inl (g (dec_index r)))"
  by (simp add: sound_def)

lemma sound_if: "(c \<Longrightarrow> sound lim k f) \<Longrightarrow> (\<not> c \<Longrightarrow> sound lim k g) \<Longrightarrow>
    sound lim k (\<lambda>r. if c then f r else g r)"
  by (cases c) simp_all

lemma sound_const_bind:
  "(\<And>e. m = Inl e \<Longrightarrow> e \<noteq> IndexPanic \<and> e \<noteq> OutOfFuel) \<Longrightarrow> (\<And>x. m = Inr x \<Longrightarrow> sound lim k (f x)) \<Longrightarrow>
     sound lim k (\<lambda>r. rbind m (\<lambda>x. f x r))"
  by (cases m) (auto simp: sound_def)

lemma sound_case_gval:
  assumes "\<And>s. sound lim k (f s)" and "sound lim k g"
  shows "sound lim k (\<lambda>r. case v of VStr s \<Rightarrow> f s r | _ \<Rightarrow> g r)"
  using assms by (cases v) auto

lemma sound_readByte: "sound lim 1 readByte"
  by (auto simp: sound_def readByte_def checkEOS_def within_def rbind_def)

lemma readIntN_loop_safe:
  assumes "\<forall>i \<in> set is. dec_index r + i < length (dec_data r)"
  shows "\<exists>v. readIntN_loop n le r is ret = Inr v"
  using assms by (induction "is" arbitrary: ret) (auto simp: Let_def)

lemma sound_readIntN: "sound lim n (readIntN n le)"
proof (rule soundI)
  fix r e
  assume "readIntN n le r = Inl e"
  moreover have "\<exists>v. readIntN_loop n le r [0..<n] 0 = Inr v" if "dec_index r + n \<le> length (dec_data r)"
    using that by (intro readIntN_loop_safe) auto
  ultimately have "e = EOF"
    by (auto simp: readIntN_def checkEOS_def rbind_eq_Inl split: if_splits)
  then show "e \<noteq> IndexPanic \<and> (e = OutOfFuel \<longrightarrow> lim \<le> remaining r)" by simp
next
  fix r x r'
  assume "readIntN n le r = Inr (x, r')"
  then show "dec_data r' = dec_data r \<and> within r' \<and> dec_index r + n \<le> dec_index r'"
    by (auto simp: readIntN_def checkEOS_def rbind_eq_Inr within_def split: if_splits)
qed

lemma sound_readInts:
  "sound lim 1 (readInt8 le)" "sound lim 2 (readInt16 le)" "sound lim 4 (readInt32 le)"
  by (simp_all add: readInt8_def readInt16_def readInt32_def sound_readIntN)

lemma sound_readInt20: "sound lim 3 readInt20"
  by (auto simp: sound_def readInt20_def checkEOS_def within_def rbind_def)

lemma sound_readRaw: "sound lim n (readRaw n)"
  by (auto simp: sound_def readRaw_def checkEOS_def within_def rbind_def slice_opt_def)

lemma sound_readBytesOrString: "sound lim 0 (readBytesOrString n s)"
  unfolding readBytesOrString_def [abs_def]
  by (intro sound_bind sound_return sound_drop [OF sound_readRaw])

lemma unpackByte_error:
  "unpackByte tag v = Inl e \<Longrightarrow> e \<noteq> IndexPanic \<and> e \<noteq> OutOfFuel"
  by (auto simp: unpackByte_def unpackNibble_def unpackHex_def split: if_splits)

lemma sound_readPacked8_loop: "sound lim 0 (readPacked8_loop tag n build)"
proof (induction n arbitrary: build)
  case 0
  have "readPacked8_loop tag 0 build = (\<lambda>r. Inr (build, r))" by (rule ext) simp
  then show ?case by (simp only:) (rule sound_return)
next
  case (Suc n)
  have "readPacked8_loop tag (Suc n) build = (\<lambda>r. rbind (readByte r) (\<lambda>(currByte, r).
      rbind (unpackByte tag (drop_bit 4 (currByte AND 240))) (\<lambda>lower.
      rbind (unpackByte tag (currByte AND 15)) (\<lambda>upper.
        readPacked8_loop tag n (build @ [lower, upper]) r))))"
    by (rule ext) simp
  then show ?case
    by (simp only:)
      (intro sound_bind sound_const_bind sound_drop [OF sound_readByte] Suc; simp add: unpackByte_error)
qed

lemma sound_case_option:
  assumes "\<And>x. v = Some x \<Longrightarrow> sound lim k (f x)" and "v \<noteq> None"
  shows "sound lim k (\<lambda>r. case v of None \<Rightarrow> g r | Some x \<Rightarrow> f x r)"
  using assms by (cases v) auto

lemma sound_readPacked8: "sound lim 1 (readPacked8 tag)"
  unfolding readPacked8_def [abs_def]
  by (intro sound_bind sound_readByte sound_readPacked8_loop sound_if sound_return sound_fail sound_case_option)
    (simp_all add: slice_to_def Suc_le_eq)

lemma sound_readListSize: "sound lim 0 (readListSize tag)"
  unfolding readListSize_def [abs_def]
  by (intro sound_if sound_return sound_fail_at sound_drop [OF sound_readInts(1)]
      sound_drop [OF sound_readInts(2)]) simp_all

locale value_reader =
  fixes rd :: reader and lim :: nat
  assumes rd_sound: "sound lim 1 (rd s)"
begin

lemma rd_sound0: "sound lim 0 (rd s)"
  by (rule sound_drop [OF rd_sound])

lemmas steps = sound_bind sound_return sound_if rd_sound0 sound_case_gval
  sound_drop [OF sound_readInts(1)] sound_drop [OF sound_readInts(2)]
  sound_drop [OF sound_readInts(3)] sound_drop [OF sound_readInt20] sound_drop [OF sound_readByte]

lemma sound_readJIDPair: "sound lim 0 (readJIDPair rd)"
proof -
  have "sound lim 0 (\<lambda>r. case user of VNil \<Rightarrow> Inr (VJid (NewJID [] s), r)
      | VStr u \<Rightarrow> Inr (VJid (NewJID u s), r) | _ \<Rightarrow> Inl ErrInvalidJIDType)" for user s
    by (cases user) (simp_all add: sound_def)
  then show ?thesis
    unfolding readJIDPair_def [abs_def] by (intro steps sound_fail) simp_all
qed

lemma sound_readInteropJID: "sound lim 0 (readInteropJID rd)"
  unfolding readInteropJID_def [abs_def] by (intro steps sound_fail) simp_all

lemma sound_readFBJID: "sound lim 0 (readFBJID rd)"
  unfolding readFBJID_def [abs_def] by (intro steps sound_fail) simp_all

lemma sound_readADJID: "sound lim 0 (readADJID rd)"
  unfolding readADJID_def [abs_def] by (intro steps sound_fail) simp_all

lemma sound_readAttributes_loop: "sound lim 0 (readAttributes_loop rd n ret)"
proof (induction n arbitrary: ret)
  case 0
  have "readAttributes_loop rd 0 ret = (\<lambda>r. Inr (ret, r))" by (rule ext) simp
  then show ?case by (simp only:) (rule sound_return)
next
  case (Suc n)
  have "readAttributes_loop rd (Suc n) ret = (\<lambda>r. rbind (rd True r) (\<lambda>(keyIfc, r).
      case keyIfc of VStr key \<Rightarrow>
          rbind (rd True r) (\<lambda>(val, r). readAttributes_loop rd n (aset key val ret) r)
        | _ \<Rightarrow> Inl (ErrNonStringKey (dec_index r))))"
    by (rule ext) simp
  then show ?case
    by (simp only:) (intro steps sound_fail_at Suc; simp)
qed

lemma sound_readAttributes: "sound lim 0 (readAttributes rd n)"
  unfolding readAttributes_def [abs_def] by (intro steps sound_readAttributes_loop)

lemma sound_readNode: "sound lim 1 (readNode rd)"
  unfolding readNode_def [abs_def]
  by (rule sound_bind [OF sound_readInts(1)])
    (intro steps sound_readListSize sound_readAttributes sound_fail; simp)

lemma sound_readNodes: "sound lim 0 (readNodes rd n)"
proof (induction n)
  case 0
  have "readNodes rd 0 = (\<lambda>r. Inr ([], r))" by (rule ext) simp
  then show ?case by (simp only:) (rule sound_return)
next
  case (Suc n)
  have "readNodes rd (Suc n) = (\<lambda>r. rbind (readNode rd r) (\<lambda>(x, r).
      rbind (readNodes rd n r) (\<lambda>(xs, r). Inr (x # xs, r))))"
    by (rule ext) simp
  then show ?case
    by (simp only:) (intro steps Suc sound_drop [OF sound_readNode]; simp)
qed

lemma sound_readList: "sound lim 0 (readList rd tag)"
  unfolding readList_def [abs_def] by (intro steps sound_readListSize sound_readNodes)

lemma sound_read_tag: "sound lim 0 (read_tag rd s tag)"
proof -
  have "sound lim 0 (\<lambda>r. case GetDoubleToken i j of Inl TokenBounds \<Rightarrow> Inl (DoubleTokenBounds a b)
      | Inl TokenPanic \<Rightarrow> Inl IndexPanic | Inr t \<Rightarrow> Inr (VStr t, r))" for i j a b
    using GetDoubleToken_no_panic [of i j]
    by (cases "GetDoubleToken i j") (auto simp: sound_def split: token_error.splits)
  then show ?thesis
    unfolding read_tag_def [abs_def]
    by (intro steps sound_readBytesOrString sound_readList sound_readFBJID sound_readInteropJID
        sound_readJIDPair sound_readADJID sound_drop [OF sound_readPacked8] sound_fail_at sound_case_option; simp)
qed

lemma sound_read_step: "sound (Suc lim) 1 (read_step rd s)"
  using sound_bind_gen [OF sound_readByte sound_read_tag, of "Suc lim"]
  unfolding read_step_def [abs_def] by simp

end

interpretation rd: value_reader "read fuel" fuel for fuel
proof (unfold_locales, induction fuel)
  case 0
  then show ?case by (simp add: sound_def)
next
  case (Suc fuel)
  then have "value_reader (read fuel) fuel" by unfold_locales
  then show ?case by (simp only: read.simps) (rule value_reader.sound_read_step)
qed

text \<open>
  C3: \<open>Unmarshal\<close> returns on every input, well formed or not: no index and no slice expression, in
  the input, in a packed string or in the token tables, is out of range, and the fuel of one more
  than the input's length is never used up.
\<close>

theorem Unmarshal_total: "Unmarshal d \<noteq> Inl IndexPanic \<and> Unmarshal d \<noteq> Inl OutOfFuel"
proof -
  have w: "within (newDecoder d)" and rem: "remaining (newDecoder d) = length d"
    by (simp_all add: within_def remaining_def newDecoder_def)
  show ?thesis
    using sound_Inl [OF rd.sound_readNode w, of "Suc (length d)"] rem
    by (auto simp: Unmarshal_def rbind_eq_Inl split: if_splits)
qed

end
