(* ===== verification/Codec.thy ===== *)
theory Codec
  imports EncoderProps DecoderProps
begin

text \<open>
  The encoder and the decoder fit together. \<open>wire\<close> and \<open>wire_node\<close> say what the receiving side sees
  of a value or an element: integers and booleans as decimal text, empty attributes dropped,
  addresses reduced to what their wire form carries. Every encodable element is written without
  panic and read back as exactly its wire form; elements in canonical form come back unchanged.
\<close>

unbundle bit_operations_syntax

section \<open>Exact reads\<close>

definition at_bytes :: "decoder \<Rightarrow> bytes \<Rightarrow> bool" where
  "at_bytes r bs \<longleftrightarrow> within r \<and> drop (dec_index r) (dec_data r) = bs"

definition advance :: "nat \<Rightarrow> decoder \<Rightarrow> decoder" where
  "advance n r = r\<lparr>dec_index := dec_index r + n\<rparr>"

definition reads :: "(decoder \<Rightarrow> 'a dec_result) \<Rightarrow> bytes \<Rightarrow> 'a \<Rightarrow> bool" where
  "reads m e x \<longleftrightarrow> (\<forall>r rest. at_bytes r (e @ rest) \<longrightarrow> m r = Inr (x, advance (length e) r))"

lemma readsI: "(\<And>r rest. at_bytes r (e @ rest) \<Longrightarrow> m r = Inr (x, advance (length e) r)) \<Longrightarrow> reads m e x"
  unfolding reads_def by blast

lemma readsD: "reads m e x \<Longrightarrow> at_bytes r (e @ rest) \<Longrightarrow> m r = Inr (x, advance (length e) r)"
  unfolding reads_def by blast

lemma at_bytes_length: "at_bytes r bs \<Longrightarrow> length (dec_data r) = dec_index r + length bs"
  by (auto simp: at_bytes_def within_def)

lemma at_bytes_advance: "at_bytes r (e @ rest) \<Longrightarrow> at_bytes (advance (length e) r) rest"
proof -
  assume a: "at_bytes r (e @ rest)"
  then have "drop (length e) (drop (dec_index r) (dec_data r)) = rest"
    by (simp add: at_bytes_def)
  with at_bytes_length [OF a] show ?thesis
    by (simp add: at_bytes_def advance_def within_def add.commute)
qed

lemma advance_advance: "advance m (advance n r) = advance (n + m) r"
  by (simp add: advance_def add.assoc)

lemma at_bytes_nth:
  assumes "at_bytes r bs" and "i < length bs"
  shows "at_opt (dec_data r) (dec_index r + i) = Some (bs ! i)"
proof -
  have lt: "dec_index r + i < length (dec_data r)"
    using at_bytes_length [OF assms(1)] assms(2) by simp
  have bs: "bs = drop (dec_index r) (dec_data r)" using assms(1) by (simp add: at_bytes_def)
  from lt show ?thesis by (simp add: bs)
qed

lemma reads_bind:
  assumes "reads m e x" and "reads (f x) e' y"
  shows "reads (\<lambda>r. rbind (m r) (\<lambda>(x, r). f x r)) (e @ e') y"
proof (rule readsI)
  fix r rest
  assume "at_bytes r ((e @ e') @ rest)"
  then have r: "at_bytes r (e @ e' @ rest)" by simp
  from readsD [OF assms(1) r] readsD [OF assms(2) at_bytes_advance [OF r]]
  show "rbind (m r) (\<lambda>(x, r). f x r) = Inr (y, advance (length (e @ e')) r)"
    by (simp add: advance_advance)
qed

lemma reads_return: "reads (\<lambda>r. Inr (x, r)) [] x"
  by (simp add: reads_def advance_def)

lemma reads_bind_return:
  assumes "reads m e x" and "\<And>r. f x r = Inr (y, r)"
  shows "reads (\<lambda>r. rbind (m r) (\<lambda>(x, r). f x r)) e y"
proof -
  have "f x = (\<lambda>r. Inr (y, r))" using assms(2) by (rule ext)
  with reads_bind [OF assms(1), of f "[]" y] show ?thesis by (simp add: reads_return)
qed

lemma reads_readByte: "reads readByte [b] b"
proof (rule readsI)
  fix r rest
  assume "at_bytes r ([b] @ rest)"
  with at_bytes_length [OF this] at_bytes_nth [OF this, of 0]
  show "readByte r = Inr (b, advance (length [b]) r)"
    by (simp add: readByte_def checkEOS_def advance_def)
qed

lemma reads_readRaw: "reads (readRaw (length bs)) bs bs"
proof (rule readsI)
  fix r rest
  assume a: "at_bytes r (bs @ rest)"
  from a have "drop (dec_index r) (dec_data r) = bs @ rest" by (simp add: at_bytes_def)
  with at_bytes_length [OF a] show "readRaw (length bs) r = Inr (bs, advance (length bs) r)"
    by (simp add: readRaw_def checkEOS_def advance_def slice_opt_def)
qed

lemma readIntN_at:
  assumes "at_bytes r (e @ rest)" and "length e = n"
  shows "readIntN n le r =
    rbind (readIntN_loop n le r [0..<n] 0) (\<lambda>v. Inr (v, advance (length e) r))"
  using at_bytes_length [OF assms(1)] assms(2) by (simp add: readIntN_def checkEOS_def advance_def)

lemma reads_readInt8: "reads (readInt8 False) [a] (unat a)"
proof (rule readsI)
  fix r rest
  assume a: "at_bytes r ([a] @ rest)"
  from at_bytes_nth [OF a, of 0] show "readInt8 False r = Inr (unat a, advance (length [a]) r)"
    by (simp add: readInt8_def readIntN_at [OF a] upt_rec)
qed

lemma reads_readInt16: "reads (readInt16 False) [a, b] (push_bit 8 (unat a) OR unat b)"
proof (rule readsI)
  fix r rest
  assume a: "at_bytes r ([a, b] @ rest)"
  from at_bytes_nth [OF a, of 0] at_bytes_nth [OF a, of 1]
  show "readInt16 False r = Inr (push_bit 8 (unat a) OR unat b, advance (length [a, b]) r)"
    by (simp add: readInt16_def readIntN_at [OF a] upt_rec)
qed

lemma reads_readInt32:
  "reads (readInt32 False) [a, b, c, d]
     (push_bit 24 (unat a) OR push_bit 16 (unat b) OR push_bit 8 (unat c) OR unat d)"
proof (rule readsI)
  fix r rest
  assume a: "at_bytes r ([a, b, c, d] @ rest)"
  from at_bytes_nth [OF a, of 0] at_bytes_nth [OF a, of 1] at_bytes_nth [OF a, of 2]
    at_bytes_nth [OF a, of "Suc (Suc (Suc 0))"]
  show "readInt32 False r =
      Inr (push_bit 24 (unat a) OR push_bit 16 (unat b) OR push_bit 8 (unat c) OR unat d,
        advance (length [a, b, c, d]) r)"
    by (simp add: readInt32_def readIntN_at [OF a] upt_rec or.assoc)
qed

lemma reads_readInt20:
  "reads readInt20 [a, b, c] (push_bit 16 (unat a AND 15) + push_bit 8 (unat b) + unat c)"
proof (rule readsI)
  fix r rest
  assume a: "at_bytes r ([a, b, c] @ rest)"
  from at_bytes_length [OF a] at_bytes_nth [OF a, of 0] at_bytes_nth [OF a, of 1] at_bytes_nth [OF a, of 2]
  show "readInt20 r = Inr (push_bit 16 (unat a AND 15) + push_bit 8 (unat b) + unat c,
      advance (length [a, b, c]) r)"
    by (simp add: readInt20_def checkEOS_def advance_def)
qed

lemma reads_step: "reads (read_tag rd s (unat b)) e v \<Longrightarrow> reads (read_step rd s) (b # e) v"
  unfolding read_step_def [abs_def] using reads_bind [OF reads_readByte] by fastforce

section \<open>Integers\<close>

lemma unat_low_byte: "unat (word_of_nat (v AND 255) :: byte) = take_bit 8 v"
proof -
  have "v AND 255 = take_bit 8 v" by (simp add: take_bit_eq_mask mask_eq_exp_minus_1)
  then show ?thesis by (simp add: unsigned_of_nat)
qed

lemma unat_low_nibble: "unat (word_of_nat (v AND 15) :: byte) = take_bit 4 v"
proof -
  have "v AND 15 = take_bit 4 v" by (simp add: take_bit_eq_mask mask_eq_exp_minus_1)
  then show ?thesis by (simp add: unsigned_of_nat)
qed

lemma and_15_take: "take_bit 4 (v :: nat) AND 15 = take_bit 4 v"
proof -
  have "(15 :: nat) = mask 4" by (simp add: mask_eq_exp_minus_1)
  then show ?thesis by (simp add: take_bit_eq_mask and.assoc)
qed

lemma bit_less: "(v :: nat) < 2 ^ k \<Longrightarrow> bit v n \<Longrightarrow> n < k"
  by (metis bit_take_bit_iff take_bit_nat_eq_self)

lemma join16:
  assumes "v < 2 ^ 16"
  shows "push_bit 8 (take_bit 8 (drop_bit 8 v)) OR take_bit 8 v = (v :: nat)"
  using bit_less [OF assms] by (intro bit_eqI) (fastforce simp: bit_simps)

lemma join32:
  assumes "v < 2 ^ 32"
  shows "push_bit 24 (take_bit 8 (drop_bit 24 v)) OR push_bit 16 (take_bit 8 (drop_bit 16 v)) OR
    push_bit 8 (take_bit 8 (drop_bit 8 v)) OR take_bit 8 v = (v :: nat)"
proof (rule bit_eqI)
  fix n :: nat
  consider "n < 8" | "8 \<le> n" "n < 16" | "16 \<le> n" "n < 24" | "24 \<le> n" "n < 32" | "32 \<le> n" by linarith
  then show "bit (push_bit 24 (take_bit 8 (drop_bit 24 v)) OR push_bit 16 (take_bit 8 (drop_bit 16 v)) OR
    push_bit 8 (take_bit 8 (drop_bit 8 v)) OR take_bit 8 v) n = bit v n"
    using bit_less [OF assms, of n] by cases (auto simp: bit_simps)
qed

lemma join20:
  assumes "v < 2 ^ 20"
  shows "push_bit 16 (take_bit 4 (drop_bit 16 v)) + push_bit 8 (take_bit 8 (drop_bit 8 v)) + take_bit 8 v = (v :: nat)"
proof -
  have lt: "v div 65536 < 16" using assms by (simp add: less_mult_imp_div_less)
  have "v div 65536 = v div 256 div 256" by (simp flip: div_mult2_eq)
  with lt have "push_bit 16 (take_bit 4 (drop_bit 16 v)) + push_bit 8 (take_bit 8 (drop_bit 8 v)) + take_bit 8 v =
      v div 256 div 256 * 65536 + v div 256 mod 256 * 256 + v mod 256"
    by (simp add: take_bit_eq_mod drop_bit_eq_div push_bit_eq_mult)
  with div_mult_mod_eq [of "v div 256" 256] div_mult_mod_eq [of v 256] show ?thesis by linarith
qed

text \<open>What the integer writers append is read back by the integer readers.\<close>

lemma reads_int8: "v < 2 ^ 8 \<Longrightarrow> reads (readInt8 False) (pushInt8 v []) v"
  using reads_readInt8 [of "word_of_nat (v AND 255)"]
  by (simp add: enc_simps unat_low_byte take_bit_nat_eq_self)

lemma reads_int16: "v < 2 ^ 16 \<Longrightarrow> reads (readInt16 False) (pushInt16 v []) v"
  using reads_readInt16 [of "word_of_nat (drop_bit 8 v AND 255)" "word_of_nat (v AND 255)"] join16 [of v]
  by (simp only: enc_simps unat_low_byte append_Nil)

lemma reads_int32: "v < 2 ^ 32 \<Longrightarrow> reads (readInt32 False) (pushInt32 v []) v"
  using reads_readInt32 [of "word_of_nat (drop_bit 24 v AND 255)" "word_of_nat (drop_bit 16 v AND 255)"
    "word_of_nat (drop_bit 8 v AND 255)" "word_of_nat (v AND 255)"] join32 [of v]
  by (simp only: enc_simps unat_low_byte append_Nil)

lemma reads_int20: "v < 2 ^ 20 \<Longrightarrow> reads readInt20 (pushInt20 v []) v"
  using reads_readInt20 [of "word_of_nat (drop_bit 16 v AND 15)"
    "word_of_nat (drop_bit 8 v AND 255)" "word_of_nat (v AND 255)"] join20 [of v]
  by (simp only: enc_simps unat_low_byte unat_low_nibble and_15_take append_Nil)

lemma push_append:
  "pushInt8 v w = w @ pushInt8 v []" "pushInt16 v w = w @ pushInt16 v []"
  "pushInt20 v w = w @ pushInt20 v []" "pushInt32 v w = w @ pushInt32 v []"
  by (simp_all add: enc_simps)

section \<open>Packed strings\<close>

text \<open>The contract of a pair of half-byte packer and unpacker, on the bytes a string may consist of.\<close>

lemma byte_halves:
  fixes a b :: byte
  assumes "a < 16" and "b < 16"
  shows "drop_bit 4 ((push_bit 4 a OR b) AND 240) = a" and "(push_bit 4 a OR b) AND 15 = b"
proof -
  have lt: "n < 4" if "c < 16" "bit c n" for c :: byte and n
    using that bit_less [of "unat c" 4 n] by (simp add: bit_unsigned_iff word_less_nat_alt)
  have masks: "(240 :: byte) = push_bit 4 (mask 4)" "(15 :: byte) = mask 4"
    by (simp_all add: mask_eq_exp_minus_1)
  show "drop_bit 4 ((push_bit 4 a OR b) AND 240) = a"
    unfolding masks by (rule bit_eqI) (auto simp: bit_simps dest: lt [OF assms(1)] lt [OF assms(2)])
  show "(push_bit 4 a OR b) AND 15 = b"
    unfolding masks by (rule bit_eqI) (auto simp: bit_simps dest: lt [OF assms(1)] lt [OF assms(2)])
qed

lemma start_byte:
  assumes "n \<le> 64"
  shows "unat ((word_of_nat n :: byte) AND 127) = n" "drop_bit 7 (word_of_nat n :: byte) = 0"
    and "unat ((word_of_nat n OR 128 :: byte) AND 127) = n" "drop_bit 7 (word_of_nat n OR 128 :: byte) \<noteq> 0"
proof -
  have take: "take_bit 7 (word_of_nat n :: byte) = word_of_nat n" "take_bit 8 n = n"
    using assms by (simp_all add: take_bit_of_nat take_bit_nat_eq_self)
  have m: "(127 :: byte) = mask 7" by (simp add: mask_eq_exp_minus_1)
  show "unat ((word_of_nat n :: byte) AND 127) = n"
    unfolding m by (simp add: take unsigned_of_nat flip: take_bit_eq_mask)
  have "take_bit 7 (word_of_nat n OR 128 :: byte) = word_of_nat n" by (simp add: take)
  then show "unat ((word_of_nat n OR 128 :: byte) AND 127) = n"
    unfolding m by (simp add: take unsigned_of_nat flip: take_bit_eq_mask)
  show z: "drop_bit 7 (word_of_nat n :: byte) = 0"
    by (subst take(1) [symmetric]) (simp add: drop_bit_take_bit)
  show "drop_bit 7 (word_of_nat n OR 128 :: byte) \<noteq> 0" by (simp add: z)
qed

locale half_byte_codec =
  fixes packer :: "byte \<Rightarrow> enc_panic + byte" and tag :: nat and ok :: "byte \<Rightarrow> bool" and filler :: byte
  assumes pack_ok: "ok a \<Longrightarrow> \<exists>p. packer a = Inr p \<and> p < 16 \<and> unpackByte tag p = Inr a"
    and pack_zero: "\<exists>p. packer 0 = Inr p \<and> p < 16 \<and> unpackByte tag p = Inr filler"
begin

lemma pack_pair:
  assumes "packer a = Inr p" "p < 16" "packer b = Inr q" "q < 16"
  shows "packBytePair packer a b = Inr (push_bit 4 p OR q)"
    and "drop_bit 4 ((push_bit 4 p OR q) AND 240) = p" and "(push_bit 4 p OR q) AND 15 = q"
  using assms byte_halves by (simp_all add: packBytePair_def)

lemma reads_loop_step:
  assumes "packer a = Inr p" "p < 16" "unpackByte tag p = Inr a'"
    and "packer b = Inr q" "q < 16" "unpackByte tag q = Inr b'"
    and rest: "reads (readPacked8_loop tag n (build @ [a', b'])) e v"
  shows "reads (readPacked8_loop tag (Suc n) build) ((push_bit 4 p OR q) # e) v"
proof -
  let ?b = "push_bit 4 p OR q"
  have "readPacked8_loop tag (Suc n) build = (\<lambda>r. rbind (readByte r) (\<lambda>(currByte, r).
     rbind (unpackByte tag (drop_bit 4 (currByte AND 240))) (\<lambda>lower.
     rbind (unpackByte tag (currByte AND 15)) (\<lambda>upper.
       readPacked8_loop tag n (build @ [lower, upper]) r))))"
    by (rule ext) simp
  moreover have "reads (\<lambda>r. rbind (unpackByte tag (drop_bit 4 (?b AND 240))) (\<lambda>lower.
     rbind (unpackByte tag (?b AND 15)) (\<lambda>upper.
       readPacked8_loop tag n (build @ [lower, upper]) r))) e v"
    using rest assms pack_pair [of a p b q] by simp
  ultimately show ?thesis using reads_bind [OF reads_readByte, of _ ?b e v] by simp
qed

lemma pack_unpack:
  assumes "list_all ok bs"
  shows "\<exists>e. pack_pairs packer bs [] = Inr e \<and> length e = (length bs + 1) div 2 \<and>
    (\<forall>build. reads (readPacked8_loop tag (length e) build) e
       (build @ bs @ (if odd (length bs) then [filler] else [])))"
  using assms
proof (induction bs rule: induct_list012)
  case 1
  have "readPacked8_loop tag 0 build = (\<lambda>r. Inr (build, r))" for build by (rule ext) simp
  then show ?case by (simp add: reads_return)
next
  case (2 a)
  then obtain p where p: "packer a = Inr p" "p < 16" "unpackByte tag p = Inr a" using pack_ok by auto
  obtain q where q: "packer 0 = Inr q" "q < 16" "unpackByte tag q = Inr filler" using pack_zero by auto
  have "reads (readPacked8_loop tag 0 (build @ [a, filler])) [] (build @ [a, filler])" for build
    by (simp add: reads_def advance_def)
  then have "reads (readPacked8_loop tag (Suc 0) build) [push_bit 4 p OR q] (build @ [a, filler])" for build
    by (rule reads_loop_step [OF p q])
  then show ?case using pack_pair(1) [OF p(1,2) q(1,2)] by (simp add: pushByte_def)
next
  case (3 a b bs)
  from 3 have ok: "ok a" "ok b" "list_all ok bs" by simp_all
  obtain p where p: "packer a = Inr p" "p < 16" "unpackByte tag p = Inr a" using pack_ok [OF ok(1)] by blast
  obtain q where q: "packer b = Inr q" "q < 16" "unpackByte tag q = Inr b" using pack_ok [OF ok(2)] by blast
  obtain e where e: "pack_pairs packer bs [] = Inr e" "length e = (length bs + 1) div 2"
    and rd: "\<And>build. reads (readPacked8_loop tag (length e) build) e
       (build @ bs @ (if odd (length bs) then [filler] else []))"
    using 3(1) [OF ok(3)] by blast
  let ?e = "(push_bit 4 p OR q) # e"
  have "pack_pairs packer (a # b # bs) [] = Inr ?e"
    using pack_pair(1) [OF p(1,2) q(1,2)] appendsD [OF appends_pack_pairs, of packer bs "[push_bit 4 p OR q]"] e
    by (simp add: pushByte_def)
  moreover have "length ?e = (length (a # b # bs) + 1) div 2" using e(2) by simp
  moreover have "reads (readPacked8_loop tag (length ?e) build) ?e
      (build @ (a # b # bs) @ (if odd (length (a # b # bs)) then [filler] else []))" for build
    using reads_loop_step [OF p q rd] by (simp del: readPacked8_loop.simps)
  ultimately show ?case by blast
qed

lemma reads_packed:
  assumes "list_all ok (bytes_of_string s)" and "length s \<le> 127"
    and "start = (if odd (length s) then word_of_nat ((length s + 1) div 2) OR 128
                  else word_of_nat ((length s + 1) div 2))"
  shows "\<exists>e. pack_pairs packer (bytes_of_string s) [] = Inr e \<and>
    reads (readPacked8 tag) (start # e) (VStr s)"
proof -
  obtain e where e: "pack_pairs packer (bytes_of_string s) [] = Inr e" "length e = (length s + 1) div 2"
    and rd: "\<And>build. reads (readPacked8_loop tag (length e) build) e
       (build @ bytes_of_string s @ (if odd (length s) then [filler] else []))"
    using pack_unpack [OF assms(1)] by auto
  have len: "length e \<le> 64" using e(2) assms(2) by simp
  have n: "unat (start AND 127) = length e" and odd: "drop_bit 7 start \<noteq> 0 \<longleftrightarrow> odd (length s)"
    using start_byte [OF len] e(2) assms(3) by auto
  have "reads (\<lambda>r. rbind (readPacked8_loop tag (unat (start AND 127)) [] r) (\<lambda>(ret, r).
       if drop_bit 7 start \<noteq> 0 then
         (if length ret = 0 then Inl OddFlagWithoutData
          else case slice_to ret (int (length ret) - 1) of
            None \<Rightarrow> Inl IndexPanic
          | Some ret \<Rightarrow> Inr (VStr (string_of_bytes ret), r))
       else Inr (VStr (string_of_bytes ret), r))) e (VStr s)"
    unfolding n odd using rd [of "[]"] by (rule reads_bind_return) (auto simp: slice_to_def)
  then have "reads (readPacked8 tag) ([start] @ e) (VStr s)"
    unfolding readPacked8_def [abs_def] by (rule reads_bind [OF reads_readByte])
  with e(1) show ?thesis by auto
qed

end

lemma of_char_byte_char [simp]: "(of_char (byte_char b) :: nat) = unat b"
proof -
  have "take_bit 8 (of_char c :: nat) = of_char c" for c
    by (simp add: take_bit_eq_mod)
  moreover have "char_byte c = word_of_nat (of_char c)" for c
    unfolding char_byte_def by (rule of_nat_of_char [symmetric])
  ultimately have "(of_char c :: nat) = unat (char_byte c)" for c
    by (simp add: unsigned_of_nat)
  then show ?thesis by simp
qed

lemma byte_char_eq_iff: "byte_char b = c \<longleftrightarrow> b = char_byte c"
  by auto

lemma minus_digit:
  fixes a :: byte
  assumes "48 \<le> a" "a \<le> 57"
  shows "a \<noteq> 45" "a \<noteq> 46" "a \<noteq> 0" "a - 48 < 10" "a - 48 < 16"
proof -
  from assms have "48 \<le> unat a" "unat a \<le> 57" by (simp_all add: word_le_nat_alt)
  moreover from assms have "unat (a - 48) = unat a - 48" by (simp add: unat_sub)
  ultimately show "a - 48 < 10" "a - 48 < 16" by (simp_all add: word_less_nat_alt)
  show "a \<noteq> 45" "a \<noteq> 46" "a \<noteq> 0" using assms by auto
qed

lemma hex_letter:
  fixes a :: byte
  assumes "65 \<le> a" "a \<le> 70"
  shows "\<not> a \<le> 57" "\<not> a - 55 < 10" "a - 55 < 16"
proof -
  from assms have le: "65 \<le> unat a" "unat a \<le> 70" by (simp_all add: word_le_nat_alt)
  then have "unat (a - 55) = unat a - 55" by (simp add: unat_sub word_le_nat_alt)
  with le show "\<not> a - 55 < 10" "a - 55 < 16" "\<not> a \<le> 57"
    by (simp_all add: word_less_nat_alt word_le_nat_alt)
qed

interpretation nibble: half_byte_codec packNibble Nibble8 "\<lambda>b. nibble_char (byte_char b)" 0
proof
  fix a :: byte
  assume "nibble_char (byte_char a)"
  then have "a = 45 \<or> a = 46 \<or> 48 \<le> a \<and> a \<le> 57"
    by (auto simp: nibble_char_def word_le_nat_alt byte_char_eq_iff char_byte_def)
  then show "\<exists>p. packNibble a = Inr p \<and> p < 16 \<and> unpackByte Nibble8 p = Inr a"
    by (elim disjE) (simp_all add: packNibble_def unpackByte_def unpackNibble_def minus_digit)
qed (simp add: packNibble_def unpackByte_def unpackNibble_def)

interpretation hexadecimal: half_byte_codec packHex Hex8 "\<lambda>b. hex_char (byte_char b)" 70
proof
  fix a :: byte
  assume "hex_char (byte_char a)"
  then have "48 \<le> a \<and> a \<le> 57 \<or> 65 \<le> a \<and> a \<le> 70"
    by (auto simp: hex_char_def word_le_nat_alt)
  then show "\<exists>p. packHex a = Inr p \<and> p < 16 \<and> unpackByte Hex8 p = Inr a"
    by (elim disjE) (simp_all add: packHex_def unpackByte_def unpackHex_def minus_digit hex_letter)
qed (simp add: packHex_def unpackByte_def unpackHex_def)

section \<open>Strings\<close>

lemma unat_252 [simp]:
  "unat (252 :: byte) = 252" "unat (253 :: byte) = 253" "unat (254 :: byte) = 254"
  by simp_all

lemma read_tag_simps [wire_simps]:
  "read_tag rd s 0 = (\<lambda>r. Inr (VNil, r))"
  "read_tag rd s 252 = (\<lambda>r. rbind (readInt8 False r) (\<lambda>(size, r). readBytesOrString size s r))"
  "read_tag rd s 253 = (\<lambda>r. rbind (readInt20 r) (\<lambda>(size, r). readBytesOrString size s r))"
  "read_tag rd s 254 = (\<lambda>r. rbind (readInt32 False r) (\<lambda>(size, r). readBytesOrString size s r))"
  "read_tag rd s 246 = readFBJID rd"
  "read_tag rd s 245 = readInteropJID rd"
  "read_tag rd s 250 = readJIDPair rd"
  "read_tag rd s 247 = readADJID rd"
  "read_tag rd s 255 = readPacked8 255"
  "read_tag rd s 251 = readPacked8 251"
  "read_tag rd s 248 = readList rd 248"
  "read_tag rd s 249 = readList rd 249"
  by (rule ext, simp add: read_tag_def)+

lemma reads_readBytesOrString:
  "reads (readBytesOrString (length bs) s) bs (if s then VStr (string_of_bytes bs) else VBytes bs)"
  unfolding readBytesOrString_def [abs_def] using reads_readRaw by (rule reads_bind_return) simp

lemma reads_sized:
  assumes "reads m e (length bs)"
  shows "reads (\<lambda>r. rbind (m r) (\<lambda>(size, r). readBytesOrString size s r)) (e @ bs)
    (if s then VStr (string_of_bytes bs) else VBytes bs)"
  using assms reads_readBytesOrString by (rule reads_bind)

text \<open>Length-prefixed bytes are read back, as a string or as bytes according to the position.\<close>

lemma writeByteLength_reads:
  assumes "length bs < 2 ^ 31 - 1"
  shows "\<exists>e. writeByteLength (length bs) [] = Inr e \<and> e \<noteq> [] \<and>
    (\<forall>rd s. reads (read_step rd s) (e @ bs) (if s then VStr (string_of_bytes bs) else VBytes bs))"
proof -
  let ?n = "length bs"
  consider "?n < 256" | "\<not> ?n < 256" "?n < 2 ^ 20" | "\<not> ?n < 256" "\<not> ?n < 2 ^ 20" by linarith
  then show ?thesis
  proof cases
    case 1
    then have "reads (read_step rd s) (252 # pushInt8 ?n [] @ bs)
        (if s then VStr (string_of_bytes bs) else VBytes bs)" for rd s
      by (intro reads_step) (simp only: wire_simps unat_252, rule reads_sized [OF reads_int8], simp)
    with 1 show ?thesis
      by (simp add: writeByteLength_def push_append(1) [of _ "w # ws" for w ws] pushByte_def)
  next
    case 2
    then have "reads (read_step rd s) (253 # pushInt20 ?n [] @ bs)
        (if s then VStr (string_of_bytes bs) else VBytes bs)" for rd s
      by (intro reads_step) (simp only: wire_simps unat_252, rule reads_sized [OF reads_int20])
    with 2 show ?thesis
      by (simp add: writeByteLength_def push_append(3) [of _ "w # ws" for w ws] pushByte_def)
  next
    case 3
    from assms have "reads (read_step rd s) (254 # pushInt32 ?n [] @ bs)
        (if s then VStr (string_of_bytes bs) else VBytes bs)" for rd s
      by (intro reads_step) (simp only: wire_simps unat_252, rule reads_sized [OF reads_int32], simp)
    with 3 assms show ?thesis
      by (simp add: writeByteLength_def push_append(4) [of _ "w # ws" for w ws] pushByte_def)
  qed
qed

text \<open>
  The text form a string has on the receiving side: dictionary and packed strings stay strings;
  a raw string in content position comes back as bytes, since the two share their wire form.
\<close>

definition raw_string :: "string \<Rightarrow> bool" where
  "raw_string s \<longleftrightarrow>
     IndexOfSingleToken s = None \<and> IndexOfDoubleByteToken s = None \<and> \<not> validateNibble s \<and> \<not> validateHex s"

definition wire_str :: "bool \<Rightarrow> string \<Rightarrow> gval" where
  "wire_str asString s = (if asString \<or> \<not> raw_string s then VStr s else VBytes (bytes_of_string s))"

lemma list_all_bytes_of_string [simp]: "list_all (\<lambda>b. P (byte_char b)) (bytes_of_string s) = list_all P s"
  by (induction s) auto

lemma writePackedBytes_reads:
  assumes "t = 255 \<and> list_all nibble_char s \<or> t = 251 \<and> list_all hex_char s" and "length s \<le> 127"
  shows "\<exists>e. writePackedBytes s t [] = Inr e \<and> e \<noteq> [] \<and> (\<forall>rd b. reads (read_step rd b) e (VStr s))"
proof -
  define start :: byte where "start = (if odd (length s) then word_of_nat ((length s + 1) div 2) OR 128
                  else word_of_nat ((length s + 1) div 2))"
  have "\<exists>e. pack_pairs (if t = 255 then packNibble else packHex) (bytes_of_string s) [] = Inr e \<and>
      reads (readPacked8 t) (start # e) (VStr s)"
    using assms nibble.reads_packed [of s start] hexadecimal.reads_packed [of s start] by (auto simp: start_def)
  then obtain e where e: "pack_pairs (if t = 255 then packNibble else packHex) (bytes_of_string s) [] = Inr e"
    and rd: "reads (readPacked8 t) (start # e) (VStr s)" by blast
  have "writePackedBytes s t [] = Inr (word_of_nat t # start # e)"
    using assms e appendsD [OF appends_pack_pairs, of packNibble "bytes_of_string s" "[word_of_nat t, start]"]
      appendsD [OF appends_pack_pairs, of packHex "bytes_of_string s" "[word_of_nat t, start]"]
    by (auto simp: writePackedBytes_def start_def PackedMax_def pushByte_def Let_def odd_iff_mod_2_eq_one split: if_splits)
  moreover have "reads (read_step r b) (word_of_nat t # start # e) (VStr s)" for r b
    using assms(1) rd by (intro reads_step) (auto simp: wire_simps)
  ultimately show ?thesis by blast
qed

lemma reads_single:
  assumes "IndexOfSingleToken s = Some t"
  shows "reads (read_step rd b) [t] (VStr s)"
proof (rule reads_step)
  have "read_tag rd b (unat t) = (\<lambda>r. Inr (VStr s, r))"
    using IndexOfSingleToken_sound [OF assms] IndexOfSingleToken_nonzero [OF assms]
    by (auto simp: read_tag_def fun_eq_iff length_SingleByteTokens)
  then show "reads (read_tag rd b (unat t)) [] (VStr s)" by (simp add: reads_return)
qed

lemma reads_double:
  assumes "IndexOfDoubleByteToken s = Some (d, i)"
  shows "reads (read_step rd b) [236 + d, i] (VStr s)"
proof (rule reads_step)
  note snd = IndexOfDoubleByteToken_sound [OF assms]
  have tag: "unat (236 + d) = 236 + unat d" using snd(1) by (simp add: unat_word_ariths)
  have "unat d = 0 \<or> unat d = 1 \<or> unat d = 2 \<or> unat d = 3" using snd(1) by linarith
  then have "read_tag rd b (236 + unat d) = (\<lambda>r. rbind (readInt8 False r) (\<lambda>(j, r).
      case GetDoubleToken (int (unat d)) (int j) of
        Inl TokenBounds \<Rightarrow> Inl (DoubleTokenBounds (236 + unat d) j) | Inl TokenPanic \<Rightarrow> Inl IndexPanic
      | Inr t \<Rightarrow> Inr (VStr t, r)))"
    by (auto simp: read_tag_def fun_eq_iff)
  then show "reads (read_tag rd b (unat (236 + d))) [i] (VStr s)"
    unfolding tag using snd(2) by (simp only:) (rule reads_bind_return [OF reads_readInt8], simp)
qed

lemma writeString_reads:
  assumes "length s < 2 ^ 31 - 1"
  shows "\<exists>e. writeString s [] = Inr e \<and> e \<noteq> [] \<and> (\<forall>rd b. reads (read_step rd b) e (wire_str b s))"
proof -
  consider t where "IndexOfSingleToken s = Some t"
    | d i where "IndexOfSingleToken s = None" "IndexOfDoubleByteToken s = Some (d, i)"
    | t where "IndexOfSingleToken s = None" "IndexOfDoubleByteToken s = None"
        "length s \<le> 127" "t = (255 :: nat) \<and> validateNibble s \<or> t = 251 \<and> \<not> validateNibble s \<and> validateHex s"
    | "IndexOfSingleToken s = None" "IndexOfDoubleByteToken s = None" "\<not> validateNibble s" "\<not> validateHex s"
    by (cases "IndexOfSingleToken s"; cases "IndexOfDoubleByteToken s"; cases "validateNibble s"; cases "validateHex s")
      (auto simp: validateNibble_def validateHex_def PackedMax_def)
  then show ?thesis
  proof cases
    case 1
    with reads_single [OF 1] show ?thesis by (simp add: writeString_def pushByte_def wire_str_def raw_string_def)
  next
    case 2
    with reads_double [OF 2(2)] show ?thesis by (simp add: writeString_def pushByte_def wire_str_def raw_string_def)
  next
    case 3
    then have "wire_str b s = VStr s" "writeString s [] = writePackedBytes s t []" for b
      by (auto simp: wire_str_def raw_string_def writeString_def)
    with 3 writePackedBytes_reads [of t s] show ?thesis
      by (simp add: validateNibble_def validateHex_def) blast
  next
    case 4
    then have w: "wire_str b s = (if b then VStr s else VBytes (bytes_of_string s))"
      "writeString s [] = writeStringRaw s []" for b
      by (auto simp: wire_str_def raw_string_def writeString_def)
    obtain e where "writeByteLength (length s) [] = Inr e" "e \<noteq> []"
      and "\<And>rd b. reads (read_step rd b) (e @ bytes_of_string s) (if b then VStr s else VBytes (bytes_of_string s))"
      using writeByteLength_reads [of "bytes_of_string s", unfolded string_of_bytes_of_string length_bytes_of_string]
        assms by blast
    then show ?thesis unfolding w by (simp add: writeStringRaw_def pushString_def pushBytes_def)
  qed
qed

section \<open>Addresses\<close>

text \<open>
  What an address keeps on the wire. The address-with-device form has one byte for the device and
  no separate agent; pairs keep user and server only.
\<close>

definition wire_jid :: "JID \<Rightarrow> JID" where
  "wire_jid j =
     (if (Server j = DefaultUserServer \<or> Server j = HiddenUserServer) \<and> Device j > 0 \<or>
         Server j = HostedServer \<or> Server j = HostedLIDServer then
        \<lparr>User = User j, RawAgent = 0, Device = ucast (ucast (Device j) :: byte), Integrator = 0, Server = Server j\<rparr>
      else if Server j = MessengerServer then
        \<lparr>User = User j, RawAgent = 0, Device = Device j, Integrator = 0, Server = Server j\<rparr>
      else if Server j = InteropServer then j\<lparr>RawAgent := 0\<rparr>
      else NewJID (User j) (Server j))"

lemma NewADJID_ActualAgent:
  "Server j = DefaultUserServer \<or> Server j = HiddenUserServer \<or> Server j = HostedServer \<or> Server j = HostedLIDServer \<Longrightarrow>
   NewADJID u (ActualAgent j) d = \<lparr>User = u, RawAgent = 0, Device = ucast d, Integrator = 0, Server = Server j\<rparr>"
  by (auto simp: NewADJID_def ActualAgent_def)

lemma appends_at: "appends f \<Longrightarrow> f [] = Inr e \<Longrightarrow> f w = Inr (w @ e)"
  by (simp add: appendsD [of f w])

lemma reads_byte_then:
  "reads (f b) e v \<Longrightarrow> reads (\<lambda>r. rbind (readByte r) (\<lambda>(x, r). f x r)) (b # e) v"
  using reads_bind [OF reads_readByte, of f b e v] by simp

definition str_code :: "string \<Rightarrow> bytes \<Rightarrow> bool" where
  "str_code s e \<longleftrightarrow>
     writeString s [] = Inr e \<and> e \<noteq> [] \<and> (\<forall>rd. reads (read_step rd True) e (VStr s))"

lemma str_code_exists: "length s < 2 ^ 31 - 1 \<Longrightarrow> \<exists>e. str_code s e"
  using writeString_reads [of s] by (metis str_code_def wire_str_def)

lemma str_codeD:
  assumes "str_code s e"
  shows "writeString s w = Inr (w @ e)" "0 < length e" "reads (read_step rd True) e (VStr s)"
  using assms appends_at [OF appends_writeString] by (simp_all add: str_code_def)

definition jid_code :: "JID \<Rightarrow> bytes \<Rightarrow> bool" where
  "jid_code j e \<longleftrightarrow> writeJID j [] = Inr e \<and> 2 \<le> length e \<and>
    (\<forall>rd b. reads (read_step (read_step rd) b) e (VJid (wire_jid j)))"

abbreviation ad_form :: "JID \<Rightarrow> bool" where
  "ad_form j \<equiv> (Server j = DefaultUserServer \<or> Server j = HiddenUserServer) \<and> Device j > 0 \<or>
     Server j = HostedServer \<or> Server j = HostedLIDServer"

lemma unat_16: "unat (w :: 16 word) < 2 ^ 16"
  using unsigned_less [of w] by simp

lemma jid_code_ad:
  assumes "ad_form j" and eu: "str_code (User j) eu"
  shows "jid_code j (247 # ActualAgent j # ucast (Device j) # eu)"
proof -
  have "reads (readADJID (read_step rd)) (ActualAgent j # ucast (Device j) # eu) (VJid (wire_jid j))" for rd
    unfolding readADJID_def [abs_def]
    by (intro reads_byte_then, rule reads_bind_return [OF str_codeD(3) [OF eu]])
      (use assms(1) in \<open>auto simp: wire_jid_def NewADJID_ActualAgent\<close>)
  then have "reads (read_step (read_step rd) b) (247 # ActualAgent j # ucast (Device j) # eu) (VJid (wire_jid j))" for rd b
    by (intro reads_step) (simp add: wire_simps)
  with assms(1) show ?thesis by (simp add: jid_code_def writeJID_def pushByte_def str_codeD [OF eu])
qed

lemma jid_code_fb:
  assumes "Server j = MessengerServer" and eu: "str_code (User j) eu" and es: "str_code (Server j) es"
  shows "jid_code j (246 # eu @ pushInt16 (unat (Device j)) [] @ es)"
proof -
  have "reads (readFBJID (read_step rd)) (eu @ pushInt16 (unat (Device j)) [] @ es) (VJid (wire_jid j))" for rd
    unfolding readFBJID_def [abs_def]
    by (rule reads_bind [OF str_codeD(3) [OF eu]], rule reads_bind [OF reads_int16 [OF unat_16]],
        rule reads_bind_return [OF str_codeD(3) [OF es]])
      (use assms(1) in \<open>auto simp: wire_jid_def\<close>)
  then have "reads (read_step (read_step rd) b) (246 # eu @ pushInt16 (unat (Device j)) [] @ es) (VJid (wire_jid j))" for rd b
    by (intro reads_step) (simp add: wire_simps)
  with assms(1) str_codeD(1,2) [OF eu] str_codeD(1) [OF es] show ?thesis
    by (simp add: jid_code_def writeJID_def pushByte_def push_append(2) [of _ "w # ws" for w ws] Suc_le_eq)
qed

lemma jid_code_interop:
  assumes "Server j = InteropServer" and eu: "str_code (User j) eu" and es: "str_code (Server j) es"
  shows "jid_code j (245 # eu @ pushInt16 (unat (Device j)) [] @ pushInt16 (unat (Integrator j)) [] @ es)"
proof -
  have "reads (readInteropJID (read_step rd))
      (eu @ pushInt16 (unat (Device j)) [] @ pushInt16 (unat (Integrator j)) [] @ es) (VJid (wire_jid j))" for rd
    unfolding readInteropJID_def [abs_def]
    by (rule reads_bind [OF str_codeD(3) [OF eu]], rule reads_bind [OF reads_int16 [OF unat_16]],
        rule reads_bind [OF reads_int16 [OF unat_16]], rule reads_bind_return [OF str_codeD(3) [OF es]])
      (use assms(1) in \<open>auto simp: wire_jid_def\<close>)
  then have "reads (read_step (read_step rd) b)
      (245 # eu @ pushInt16 (unat (Device j)) [] @ pushInt16 (unat (Integrator j)) [] @ es) (VJid (wire_jid j))" for rd b
    by (intro reads_step) (simp add: wire_simps)
  with assms(1) str_codeD(1,2) [OF eu] str_codeD(1) [OF es] show ?thesis
    by (simp add: jid_code_def writeJID_def pushByte_def push_append(2) [of _ "w # ws" for w ws] Suc_le_eq)
qed

lemma jid_code_pair:
  assumes "\<not> ad_form j" "Server j \<noteq> MessengerServer" "Server j \<noteq> InteropServer"
    and eu: "str_code (User j) eu" and es: "str_code (Server j) es"
  shows "jid_code j (250 # (if User j = [] then [0] else eu) @ es)"
proof -
  let ?eu = "if User j = [] then [0] else eu"
  have ru: "reads (read_step rd True) ?eu (if User j = [] then VNil else VStr (User j))" for rd
    using str_codeD(3) [OF eu] reads_step [of rd True 0 "[]" VNil] by (simp add: wire_simps reads_return)
  have "reads (readJIDPair (read_step rd)) (?eu @ es) (VJid (wire_jid j))" for rd
    unfolding readJIDPair_def [abs_def]
    by (rule reads_bind [OF ru], rule reads_bind_return [OF str_codeD(3) [OF es]])
      (use assms(1-3) in \<open>auto simp: wire_jid_def\<close>)
  then have "reads (read_step (read_step rd) b) (250 # ?eu @ es) (VJid (wire_jid j))" for rd b
    by (intro reads_step) (simp add: wire_simps)
  with assms(1-3) str_codeD(1,2) [OF eu] str_codeD(1,2) [OF es] show ?thesis
    by (simp add: jid_code_def writeJID_def pushByte_def Suc_le_eq)
qed

lemma jid_code_exists:
  assumes "length (User j) < 2 ^ 31 - 1" and "length (Server j) < 2 ^ 31 - 1"
  shows "\<exists>e. jid_code j e"
  using str_code_exists [OF assms(1)] str_code_exists [OF assms(2)]
    jid_code_ad jid_code_fb jid_code_interop jid_code_pair by blast

section \<open>Values and elements\<close>

text \<open>The receiving side's view of a value (in string or content position) and of an element.\<close>

fun wire_node :: "node \<Rightarrow> node"
  and wire :: "bool \<Rightarrow> gval \<Rightarrow> gval"
  and wire_nodes :: "node list \<Rightarrow> node list"
  and wire_attrs :: "attrs \<Rightarrow> attrs" where
  "wire_node (Node tag ats content) = Node tag (wire_attrs ats) (wire False content)"
| "wire b VNil = VNil"
| "wire b (VStr s) = wire_str b s"
| "wire b (VJid j) = VJid (wire_jid j)"
| "wire b (VInt k i) = wire_str b (FormatInt i)"
| "wire b (VBool v) = wire_str b (FormatBool v)"
| "wire b (VBytes bs) = (if b then VStr (string_of_bytes bs) else VBytes bs)"
| "wire b (VNodes ns) = (if ns = [] then VNil else VNodes (wire_nodes ns))"
| "wire b (VOther t) = VOther t"
| "wire_nodes [] = []"
| "wire_nodes (n # ns) = wire_node n # wire_nodes ns"
| "wire_attrs [] = []"
| "wire_attrs ((k, v) # ats) = (if skipped_attr v then wire_attrs ats else (k, wire True v) # wire_attrs ats)"

text \<open>
  The elements the encoder accepts: a tag the decoder can tell from a stream end, distinct
  attribute names (a Go map), texts and bytes below the 31-bit length limit, list sizes below the
  16-bit limit, and no value of a type the encoder does not know.
\<close>

definition short_text :: "'a list \<Rightarrow> bool" where
  "short_text s \<longleftrightarrow> length s < 2 ^ 31 - 1"

fun encodable_node :: "node \<Rightarrow> bool"
  and encodable :: "gval \<Rightarrow> bool"
  and encodable_nodes :: "node list \<Rightarrow> bool"
  and encodable_attrs :: "attrs \<Rightarrow> bool" where
  "encodable_node (Node tag ats content) \<longleftrightarrow>
     tag \<noteq> [] \<and> tag \<noteq> ''0'' \<and> short_text tag \<and> distinct (map fst ats) \<and> encodable_attrs ats \<and>
     2 * countAttributes ats + 2 < 2 ^ 16 \<and> encodable content"
| "encodable VNil \<longleftrightarrow> True"
| "encodable (VStr s) \<longleftrightarrow> short_text s"
| "encodable (VJid j) \<longleftrightarrow> short_text (User j) \<and> short_text (Server j)"
| "encodable (VInt k i) \<longleftrightarrow> short_text (FormatInt i)"
| "encodable (VBool v) \<longleftrightarrow> True"
| "encodable (VBytes bs) \<longleftrightarrow> short_text bs"
| "encodable (VNodes ns) \<longleftrightarrow> length ns < 2 ^ 16 \<and> encodable_nodes ns"
| "encodable (VOther t) \<longleftrightarrow> False"
| "encodable_nodes [] \<longleftrightarrow> True"
| "encodable_nodes (n # ns) \<longleftrightarrow> encodable_node n \<and> encodable_nodes ns"
| "encodable_attrs [] \<longleftrightarrow> True"
| "encodable_attrs ((k, v) # ats) \<longleftrightarrow> short_text k \<and> encodable v \<and> encodable_attrs ats"

definition val_code :: "gval \<Rightarrow> bytes \<Rightarrow> bool" where
  "val_code v e \<longleftrightarrow> write_any v [] = Inr e \<and> e \<noteq> [] \<and>
     (\<forall>f b. length e \<le> f \<longrightarrow> reads (read f b) e (wire b v))"

definition node_code :: "node \<Rightarrow> bytes \<Rightarrow> bool" where
  "node_code n e \<longleftrightarrow> writeNode n [] = Inr e \<and> e \<noteq> [] \<and>
     (\<forall>f. length e \<le> f \<longrightarrow> reads (readNode (read f)) e (wire_node n))"

lemma val_codeD:
  assumes "val_code v e"
  shows "write_any v w = Inr (w @ e)" "0 < length e" "length e \<le> f \<Longrightarrow> reads (read f b) e (wire b v)"
  using assms appends_at [OF appends_write_any] by (simp_all add: val_code_def)

lemma node_codeD:
  assumes "node_code n e"
  shows "writeNode n w = Inr (w @ e)" "0 < length e"
    "length e \<le> f \<Longrightarrow> reads (readNode (read f)) e (wire_node n)"
  using assms appends_at [OF appends_writeNode] by (simp_all add: node_code_def)

lemma read_fuel: "0 < f \<Longrightarrow> read f = read_step (read (f - 1))"
  by (cases f) simp_all

lemma str_code_read: "str_code s e \<Longrightarrow> 0 < f \<Longrightarrow> reads (read f True) e (VStr s)"
  by (simp add: read_fuel str_codeD)

lemma val_code_string:
  assumes "short_text s"
  shows "\<exists>e. writeString s [] = Inr e \<and> e \<noteq> [] \<and>
    (\<forall>f b. length e \<le> f \<longrightarrow> reads (read f b) e (wire_str b s))"
proof -
  obtain e where e: "writeString s [] = Inr e" "e \<noteq> []"
    and r: "\<And>rd b. reads (read_step rd b) e (wire_str b s)"
    using writeString_reads [OF assms [unfolded short_text_def]] by blast
  have "0 < f" if "length e \<le> f" for f using that e(2) by (cases f) auto
  with e r show ?thesis by (auto simp: read_fuel)
qed

lemma val_code_jid:
  assumes "short_text (User j)" "short_text (Server j)"
  shows "\<exists>e. val_code (VJid j) e"
proof -
  obtain e where e: "writeJID j [] = Inr e" "2 \<le> length e"
    and r: "\<And>rd b. reads (read_step (read_step rd) b) e (VJid (wire_jid j))"
    using jid_code_exists assms unfolding short_text_def jid_code_def by blast
  have "reads (read f b) e (VJid (wire_jid j))" if "length e \<le> f" for f b
    using that e(2) r [of "read (f - 1 - 1)" b] by (simp add: read_fuel)
  with e show ?thesis by (auto simp: val_code_def)
qed

lemma val_code_bytes:
  assumes "short_text bs"
  shows "\<exists>e. val_code (VBytes bs) e"
proof -
  obtain e where e: "writeByteLength (length bs) [] = Inr e" "e \<noteq> []"
    and r: "\<And>rd s. reads (read_step rd s) (e @ bs) (if s then VStr (string_of_bytes bs) else VBytes bs)"
    using writeByteLength_reads [of bs] assms unfolding short_text_def by blast
  have "0 < f" if "length (e @ bs) \<le> f" for f using that e(2) by (cases f) auto
  with e r show ?thesis
    by (intro exI [of _ "e @ bs"]) (simp add: val_code_def writeBytes_def pushBytes_def read_fuel)
qed

section \<open>Lists, attributes and whole elements\<close>

lemma writeListStart_reads:
  assumes "n < 2 ^ 16"
  shows "\<exists>t e. writeListStart n [] = t # e \<and> reads (readListSize (unat t)) e n \<and>
    (if n = 0 then t = 0 else t = 248 \<or> t = 249)"
proof -
  have sz: "readListSize 0 = (\<lambda>r. Inr (0, r))" "readListSize 248 = readInt8 False"
    "readListSize 249 = readInt16 False"
    by (rule ext, simp add: readListSize_def)+
  show ?thesis
    using assms reads_int8 [of n] reads_int16 [of n]
    by (auto simp: writeListStart_def pushByte_def sz reads_return push_append(1,2) [of _ "w # ws" for w ws])
qed

lemma writeNodes_reads:
  "(\<And>n. n \<in> set ns \<Longrightarrow> \<exists>e. node_code n e) \<Longrightarrow>
   \<exists>e. writeNodes ns [] = Inr e \<and>
     (\<forall>f. length e \<le> f \<longrightarrow> reads (readNodes (read f) (length ns)) e (wire_nodes ns))"
proof (induction ns)
  case Nil
  have "readNodes rd 0 = (\<lambda>r. Inr ([], r))" for rd by (rule ext) simp
  then show ?case by (simp add: reads_return)
next
  case (Cons n ns)
  obtain e1 where n: "node_code n e1" using Cons.prems [of n] by auto
  obtain e2 where e2: "writeNodes ns [] = Inr e2"
    and r2: "\<And>f. length e2 \<le> f \<Longrightarrow> reads (readNodes (read f) (length ns)) e2 (wire_nodes ns)"
    using Cons.IH Cons.prems by auto
  have ns: "readNodes rd (length (n # ns)) =
      (\<lambda>r. rbind (readNode rd r) (\<lambda>(x, r). rbind (readNodes rd (length ns) r) (\<lambda>(xs, r). Inr (x # xs, r))))" for rd
    by (rule ext) simp
  have "reads (readNodes (read f) (length (n # ns))) (e1 @ e2) (wire_nodes (n # ns))" if "length (e1 @ e2) \<le> f" for f
    unfolding ns using that
    by (intro reads_bind [OF node_codeD(3) [OF n]], simp) (rule reads_bind_return [OF r2], simp_all)
  moreover have "writeNodes (n # ns) [] = Inr (e1 @ e2)"
    using appends_at [OF appends_writeNodes e2, of e1] by (simp add: node_codeD [OF n] appends_writeNode)
  ultimately show ?case by blast
qed

lemma val_code_nodes:
  assumes "\<And>n. n \<in> set ns \<Longrightarrow> \<exists>e. node_code n e" and "length ns < 2 ^ 16"
  shows "\<exists>e. val_code (VNodes ns) e"
proof -
  obtain en where en: "writeNodes ns [] = Inr en"
    and rn: "\<And>f. length en \<le> f \<Longrightarrow> reads (readNodes (read f) (length ns)) en (wire_nodes ns)"
    using writeNodes_reads [OF assms(1)] by blast
  obtain t es where start: "writeListStart (length ns) [] = t # es" and rs: "reads (readListSize (unat t)) es (length ns)"
    and t: "if ns = [] then t = 0 else t = 248 \<or> t = 249"
    using writeListStart_reads [OF assms(2)] by auto
  have "write_any (VNodes ns) [] = Inr (t # es @ en)"
    using appends_at [OF appends_writeNodes en, of "t # es"] by (simp add: write_any_eqs start appends_writeNode)
  moreover have "reads (read f b) (t # es @ en) (wire b (VNodes ns))" if "length (t # es @ en) \<le> f" for f b
  proof (cases "ns = []")
    case True
    with start en have "t = 0" "es = []" "en = []" by (simp_all add: writeListStart_def pushByte_def)
    with True that show ?thesis
      by (simp add: read_fuel) (intro reads_step, simp add: wire_simps reads_return)
  next
    case False
    have "reads (readList rd (unat t)) (es @ en) (VNodes (wire_nodes ns))" if "rd = read (f - 1)" for rd
      unfolding readList_def [abs_def] that
      by (intro reads_bind [OF rs] reads_bind_return [OF rn]) (use \<open>length (t # es @ en) \<le> f\<close> in auto)
    moreover have "read_tag rd b (unat t) = readList rd (unat t)" for rd using t False by (auto simp: wire_simps)
    ultimately show ?thesis using False that by (simp add: read_fuel reads_step)
  qed
  ultimately show ?thesis by (auto simp: val_code_def)
qed

lemma countAttributes_Cons [simp]:
  "countAttributes [] = 0"
  "countAttributes ((k, v) # ats) = (if skipped_attr v then countAttributes ats else Suc (countAttributes ats))"
  by (simp_all add: countAttributes_def)

lemma reads_attr_step:
  assumes k: "str_code k ek" and v: "val_code v ev" and f: "length ek + length ev \<le> f"
    and rest: "reads (readAttributes_loop (read f) n (aset k (wire True v) ret)) ea x"
  shows "reads (readAttributes_loop (read f) (Suc n) ret) (ek @ ev @ ea) x"
proof -
  have loop: "readAttributes_loop rd (Suc n) ret = (\<lambda>r. rbind (rd True r) (\<lambda>(keyIfc, r).
     case keyIfc of
       VStr key \<Rightarrow> rbind (rd True r) (\<lambda>(val, r). readAttributes_loop rd n (aset key val ret) r)
     | _ \<Rightarrow> Inl (ErrNonStringKey (dec_index r))))" for rd
    by (rule ext) simp
  have "0 < f" using f str_codeD(2) [OF k] by linarith
  moreover have "reads (\<lambda>r. rbind (read f True r) (\<lambda>(val, r). readAttributes_loop (read f) n (aset k val ret) r)) (ev @ ea) x"
    by (rule reads_bind, rule val_codeD(3) [OF v]) (use f rest in simp_all)
  ultimately show ?thesis
    unfolding loop by (intro reads_bind [OF str_code_read [OF k]]) simp_all
qed

lemma readAttributes_eq: "readAttributes rd n = readAttributes_loop rd n []"
  by (rule ext) (cases n, simp_all add: readAttributes_def)

lemma reads_readNode:
  assumes "reads (readListSize (unat t)) es n" and "0 < n" and "reads (rd True) et (VStr tag)" and "tag \<noteq> []"
    and "reads (readAttributes rd (drop_bit 1 (n - 1))) ea ats"
    and "if n mod 2 = 1 then ec = [] \<and> c = VNil else reads (rd False) ec c"
  shows "reads (readNode rd) (t # es @ et @ ea @ ec) (Node tag ats c)"
proof -
  have "reads (\<lambda>r. if n mod 2 = 1 then Inr (Node tag ats VNil, r)
      else rbind (rd False r) (\<lambda>(content, r). Inr (Node tag ats content, r))) ec (Node tag ats c)"
    using assms(6) by (cases "n mod 2 = 1") (simp_all add: reads_return reads_bind_return)
  then have "reads (\<lambda>r. rbind (readAttributes rd (drop_bit 1 (n - 1)) r) (\<lambda>(ats, r).
      if n mod 2 = 1 then Inr (Node tag ats VNil, r)
      else rbind (rd False r) (\<lambda>(content, r). Inr (Node tag ats content, r)))) (ea @ ec) (Node tag ats c)"
    by (rule reads_bind [OF assms(5)])
  then have "reads (\<lambda>r. rbind (readListSize (unat t) r) (\<lambda>(listSize, r).
     rbind (rd True r) (\<lambda>(rawDesc, r).
       case rawDesc of
         VStr tag \<Rightarrow>
           (if listSize = 0 \<or> tag = [] then Inl ErrInvalidNode
            else
              rbind (readAttributes rd (drop_bit 1 (listSize - 1)) r) (\<lambda>(ats, r).
                if listSize mod 2 = 1 then Inr (Node tag ats VNil, r)
                else rbind (rd False r) (\<lambda>(content, r). Inr (Node tag ats content, r))))
       | _ \<Rightarrow> Inl ErrInvalidNode))) (es @ et @ ea @ ec) (Node tag ats c)"
    using assms(2,4) by (intro reads_bind [OF assms(1)] reads_bind [OF assms(3)]) simp
  then have "reads (readNode rd) ([t] @ es @ et @ ea @ ec) (Node tag ats c)"
    unfolding readNode_def [abs_def] by (rule reads_bind [OF reads_readInt8])
  then show ?thesis by simp
qed

lemma writeAttributes_reads:
  "(\<And>k v. (k, v) \<in> set ats \<Longrightarrow> short_text k \<and> (\<exists>e. val_code v e)) \<Longrightarrow> distinct (map fst ats) \<Longrightarrow>
   \<exists>e. writeAttributes ats [] = Inr e \<and>
     (\<forall>f ret. length e \<le> f \<longrightarrow> fst ` set ret \<inter> fst ` set ats = {} \<longrightarrow>
        reads (readAttributes_loop (read f) (countAttributes ats) ret) e (ret @ wire_attrs ats))"
proof (induction ats)
  case Nil
  have "readAttributes_loop rd 0 ret = (\<lambda>r. Inr (ret, r))" for rd ret by (rule ext) simp
  then show ?case by (simp add: reads_return)
next
  case (Cons kv ats)
  obtain k v where kv: "kv = (k, v)" by (cases kv)
  obtain ek where k: "str_code k ek"
    using Cons.prems(1) [of k v] str_code_exists [of k] kv unfolding short_text_def by auto
  obtain ev where v: "val_code v ev" using Cons.prems(1) [of k v] kv by auto
  obtain ea where ea: "writeAttributes ats [] = Inr ea"
    and ra: "\<And>f ret. length ea \<le> f \<Longrightarrow> fst ` set ret \<inter> fst ` set ats = {} \<Longrightarrow>
        reads (readAttributes_loop (read f) (countAttributes ats) ret) ea (ret @ wire_attrs ats)"
    using Cons.IH [OF Cons.prems(1) distinct_tl [OF Cons.prems(2), simplified]] by auto
  show ?case
  proof (cases "skipped_attr v")
    case True
    with ea ra show ?thesis by (auto simp: kv)
  next
    case False
    have "reads (readAttributes_loop (read f) (countAttributes (kv # ats)) ret) (ek @ ev @ ea) (ret @ wire_attrs (kv # ats))"
      if "length (ek @ ev @ ea) \<le> f" and "fst ` set ret \<inter> fst ` set (kv # ats) = {}" for f ret
    proof -
      have fresh: "aset k (wire True v) ret = ret @ [(k, wire True v)]" using that(2) kv by (intro aset_fresh) auto
      have "fst ` set (ret @ [(k, wire True v)]) \<inter> fst ` set ats = {}" using that(2) Cons.prems(2) kv by auto
      then have "reads (readAttributes_loop (read f) (countAttributes ats) (aset k (wire True v) ret)) ea
          (ret @ wire_attrs (kv # ats))"
        unfolding fresh using ra [of f "ret @ [(k, wire True v)]"] that(1) False by (simp add: kv)
      from reads_attr_step [OF k v _ this] that(1) False show ?thesis by (simp add: kv)
    qed
    moreover have "writeAttributes (kv # ats) [] = Inr (ek @ ev @ ea)"
      using appends_at [OF appends_writeAttributes ea, of "ek @ ev"] False
      by (simp add: kv str_codeD [OF k] val_codeD [OF v] appends_write_any)
    ultimately show ?thesis by blast
  qed
qed

lemma node_code_Node:
  assumes tag: "tag \<noteq> []" "tag \<noteq> ''0''" "short_text tag"
    and ats: "distinct (map fst ats)" "\<And>k v. (k, v) \<in> set ats \<Longrightarrow> short_text k \<and> (\<exists>e. val_code v e)"
    and size: "2 * countAttributes ats + 2 < 2 ^ 16" and content: "\<exists>e. val_code content e"
  shows "\<exists>e. node_code (Node tag ats content) e"
proof -
  let ?n = "2 * countAttributes ats + 1 + (if content \<noteq> VNil then 1 else 0)"
  have n: "?n < 2 ^ 16" using size by auto
  obtain t es where start: "writeListStart ?n [] = t # es" and rs: "reads (readListSize (unat t)) es ?n"
    using writeListStart_reads [of ?n] n by blast
  obtain et where et: "str_code tag et" using str_code_exists tag(3) unfolding short_text_def by blast
  obtain ea where ea: "writeAttributes ats [] = Inr ea"
    and ra: "\<And>f ret. length ea \<le> f \<Longrightarrow> fst ` set ret \<inter> fst ` set ats = {} \<Longrightarrow>
        reads (readAttributes_loop (read f) (countAttributes ats) ret) ea (ret @ wire_attrs ats)"
    using writeAttributes_reads [OF ats(2,1)] by blast
  obtain ec where ec: "if content = VNil then ec = [] else val_code content ec"
    using content by (cases "content = VNil") auto
  let ?e = "t # es @ et @ ea @ ec"
  have wa: "writeAttributes ats w = Inr (w @ ea)" for w
    by (rule appends_at [OF appends_writeAttributes ea]) (rule appends_write_any)
  have "writeNode (Node tag ats content) [] = Inr ?e"
    using tag(2) start wa str_codeD(1) [OF et] ec by (auto simp: Let_def val_codeD split: if_splits)
  moreover have "reads (readNode (read f)) ?e (wire_node (Node tag ats content))" if f: "length ?e \<le> f" for f
  proof -
    have "drop_bit 1 (?n - 1) = countAttributes ats" by (simp add: drop_bit_Suc)
    then have a: "reads (readAttributes (read f) (drop_bit 1 (?n - 1))) ea (wire_attrs ats)"
      using ra [of f "[]"] f by (simp add: readAttributes_eq)
    have "0 < f" using f by simp
    then have tg: "reads (read f True) et (VStr tag)" by (rule str_code_read [OF et])
    have "if ?n mod 2 = 1 then ec = [] \<and> wire False content = VNil else reads (read f False) ec (wire False content)"
      using ec f val_codeD(3) [of content ec f False] by auto
    from reads_readNode [OF rs _ tg tag(1) a this] show ?thesis by simp
  qed
  ultimately show ?thesis by (auto simp: node_code_def)
qed

lemma codes_exist:
  "encodable v \<Longrightarrow> \<exists>e. val_code v e"
  "encodable_node n \<Longrightarrow> \<exists>e. node_code n e"
proof (induction v and n)
  case VNil
  have "reads (read f b) [0] VNil" if "1 \<le> f" for f b
    using that reads_step [of "read (f - 1)" b 0 "[]" VNil] by (simp add: read_fuel wire_simps reads_return)
  then show ?case by (intro exI [of _ "[0]"]) (simp add: val_code_def pushByte_def)
next
  case (VStr s)
  then show ?case using val_code_string [of s] by (auto simp: val_code_def)
next
  case (VInt k i)
  then show ?case using val_code_string [of "FormatInt i"] by (auto simp: val_code_def)
next
  case (VBool b)
  then show ?case
    using val_code_string [of "FormatBool b"] by (auto simp: val_code_def short_text_def FormatBool_def)
next
  case (VNodes ns)
  then have "n \<in> set ns \<Longrightarrow> encodable_node n" for n by (induction ns) auto
  with VNodes show ?case by (intro val_code_nodes) auto
next
  case (Node tag ats content)
  then have "encodable_attrs ats" by simp
  then have a: "(k, v) \<in> set ats \<Longrightarrow> short_text k \<and> encodable v" for k v
    by (induction ats) auto
  have "(k, v) \<in> set ats \<Longrightarrow> short_text k \<and> (\<exists>e. val_code v e)" for k v
    using a [of k v] Node.IH(1) [of "(k, v)" v] by auto
  with Node show ?case by (intro node_code_Node) auto
qed (auto intro: val_code_jid val_code_bytes)

lemma Unmarshal_code:
  assumes "node_code n e"
  shows "Unmarshal e = Inr (wire_node n)"
proof -
  have "at_bytes (newDecoder e) (e @ [])"
    by (simp add: at_bytes_def newDecoder_def within_def)
  from readsD [OF node_codeD(3) [OF assms] this, of "Suc (length e)"] show ?thesis
    by (simp add: Unmarshal_def advance_def newDecoder_def)
qed

lemma Marshal_code:
  assumes "encodable_node n"
  shows "\<exists>e. Marshal n = Inr (0 # e) \<and> Unpack inflate (0 # e) = Inr e \<and> Unmarshal e = Inr (wire_node n)"
proof -
  obtain e where e: "node_code n e" using codes_exist(2) [OF assms] by blast
  then have "Marshal n = Inr (0 # e)" by (simp add: Marshal_def newEncoder_def node_codeD)
  moreover have "Unpack inflate (0 # e) = Inr e" by (simp add: Unpack_def)
  ultimately show ?thesis using Unmarshal_code [OF e] by blast
qed

text \<open>
  C1: every encodable element is marshalled without a panic, and unpacking and unmarshalling the
  result gives back exactly its wire form, whatever the inflate function is.
\<close>

theorem Marshal_Unmarshal:
  assumes "encodable_node n"
  shows "\<exists>d e. Marshal n = Inr d \<and> Unpack inflate d = Inr e \<and> Unmarshal e = Inr (wire_node n)"
  using Marshal_code [OF assms] by blast

definition example_iq :: node where
  "example_iq = Node ''iq'' [(''id'', VStr ''27.1''), (''count'', VInt KInt 3), (''to'', VJid (NewJID [] DefaultUserServer)),
     (''empty'', VStr [])] (VNodes [Node ''ping'' [] VNil, Node ''key'' [] (VBytes [1, 2, 3])])"

theorem Marshal_Unmarshal_witness:
  "\<exists>d e. Marshal example_iq = Inr d \<and> Unpack (\<lambda>_. None) d = Inr e \<and>
     Unmarshal e = Inr (Node ''iq'' [(''id'', VStr ''27.1''), (''count'', VStr ''3''),
       (''to'', VJid (NewJID [] DefaultUserServer))]
       (VNodes [Node ''ping'' [] VNil, Node ''key'' [] (VBytes [1, 2, 3])]))"
  using Marshal_Unmarshal [of example_iq "\<lambda>_. None"]
  by (simp add: example_iq_def short_text_def wire_str_def skipped_attr_def wire_jid_def NewJID_def
      FormatInt_def FormatUint.simps digit_char_def)

section \<open>Canonical elements\<close>

text \<open>
  The elements that are their own wire form: attributes hold non-empty strings or addresses that
  lose nothing, content is absent, bytes, or a non-empty list of such elements. The decoder
  produces content of no other kind except dictionary and packed strings.
\<close>

definition canonical_attr :: "gval \<Rightarrow> bool" where
  "canonical_attr v = (case v of VStr s \<Rightarrow> s \<noteq> [] | VJid j \<Rightarrow> wire_jid j = j | _ \<Rightarrow> False)"

fun canonical_node :: "node \<Rightarrow> bool"
  and canonical_content :: "gval \<Rightarrow> bool"
  and canonical_nodes :: "node list \<Rightarrow> bool" where
  "canonical_node (Node tag ats content) \<longleftrightarrow>
     list_all (\<lambda>kv. canonical_attr (snd kv)) ats \<and> canonical_content content"
| "canonical_content VNil \<longleftrightarrow> True"
| "canonical_content (VBytes bs) \<longleftrightarrow> True"
| "canonical_content (VNodes ns) \<longleftrightarrow> ns \<noteq> [] \<and> canonical_nodes ns"
| "canonical_content (VStr s) \<longleftrightarrow> \<not> raw_string s"
| "canonical_content (VJid j) \<longleftrightarrow> wire_jid j = j"
| "canonical_content (VInt k i) \<longleftrightarrow> False"
| "canonical_content (VBool b) \<longleftrightarrow> False"
| "canonical_content (VOther t) \<longleftrightarrow> False"
| "canonical_nodes [] \<longleftrightarrow> True"
| "canonical_nodes (n # ns) \<longleftrightarrow> canonical_node n \<and> canonical_nodes ns"

lemma wire_attrs_canonical: "list_all (\<lambda>kv. canonical_attr (snd kv)) ats \<Longrightarrow> wire_attrs ats = ats"
  by (induction ats) (auto simp: canonical_attr_def wire_str_def skipped_attr_def split: gval.splits)

lemma wire_canonical:
  "canonical_node n \<Longrightarrow> wire_node n = n"
  "canonical_content v \<Longrightarrow> wire False v = v"
  "canonical_nodes ns \<Longrightarrow> wire_nodes ns = ns"
  by (induction n and v and ns rule: canonical_node_canonical_content_canonical_nodes.induct)
    (auto simp: wire_attrs_canonical wire_str_def)

text \<open>C2: an encodable element in canonical form comes back unchanged.\<close>

theorem Marshal_Unmarshal_canonical:
  assumes "encodable_node n" and "canonical_node n"
  shows "\<exists>d e. Marshal n = Inr d \<and> Unpack inflate d = Inr e \<and> Unmarshal e = Inr n"
  using Marshal_code [OF assms(1), of inflate] unfolding wire_canonical(1) [OF assms(2)] by blast

definition example_message :: node where
  "example_message = Node ''message''
     [(''id'', VStr ''3EB0''), (''from'', VJid \<lparr>User = ''1555'', RawAgent = 0, Device = 7, Integrator = 0, Server = HiddenUserServer\<rparr>)]
     (VNodes [Node ''enc'' [(''type'', VStr ''pkmsg'')] (VBytes [51, 8])])"

theorem Marshal_Unmarshal_canonical_witness:
  "\<exists>d e. Marshal example_message = Inr d \<and> Unpack (\<lambda>_. None) d = Inr e \<and> Unmarshal e = Inr example_message"
proof (rule Marshal_Unmarshal_canonical)
  show "encodable_node example_message" by (simp add: example_message_def short_text_def skipped_attr_def)
  show "canonical_node example_message" by (simp add: example_message_def canonical_attr_def wire_jid_def)
qed

end
