(* ===== verification/AttrUtil.thy ===== *)
theory AttrUtil
  imports Codec
begin

text \<open>
  \<open>src/binary/attrs.go\<close>: typed access to the attributes of an element. Every method takes the helper
  object and returns its result together with the object, whose error list it may have extended.
  The main facts: reading never drops an error, a batch of required reads is error free exactly
  when every attribute is present with the right type, and values written by one client as
  integers, booleans and addresses are read back as such by the other.
\<close>

section \<open>The helper object\<close>

datatype attr_error =
    MissingJID string
  | NotJID string
  | MissingAttr string
  | NotString string
  | BadInt string num_error
  | BadUint string num_error
  | BadBool string

record AttrUtility =
  au_attrs :: attrs
  Errors :: "attr_error list"

type_synonym 'a attr_read = "AttrUtility \<Rightarrow> 'a \<times> AttrUtility"

definition AttrGetter :: "node \<Rightarrow> AttrUtility" where
  "AttrGetter n = \<lparr>au_attrs = Attrs n, Errors = []\<rparr>"

definition add_error :: "attr_error \<Rightarrow> AttrUtility \<Rightarrow> AttrUtility" where
  "add_error e au = au\<lparr>Errors := Errors au @ [e]\<rparr>"

section \<open>Addresses\<close>

definition GetJID :: "string \<Rightarrow> bool \<Rightarrow> (JID \<times> bool) attr_read" where
  "GetJID key require au =
     (case map_of (au_attrs au) key of
        None \<Rightarrow> ((EmptyJID, False), if require then add_error (MissingJID key) au else au)
      | Some val \<Rightarrow>
          (case val of
             VJid jidVal \<Rightarrow> ((jidVal, True), au)
           | _ \<Rightarrow> ((EmptyJID, False), add_error (NotJID key) au)))"

definition OptionalJID :: "string \<Rightarrow> JID option attr_read" where
  "OptionalJID key au = (let ((jid, ok), au) = GetJID key False au in (if ok then Some jid else None, au))"

definition OptionalJIDOrEmpty :: "string \<Rightarrow> JID attr_read" where
  "OptionalJIDOrEmpty key au = (let ((jid, ok), au) = GetJID key False au in (if ok then jid else EmptyJID, au))"

definition au_JID :: "string \<Rightarrow> JID attr_read" where
  "au_JID key au = (let ((jid, ok), au) = GetJID key True au in (jid, au))"

section \<open>Strings, numbers and booleans\<close>

definition GetString :: "string \<Rightarrow> bool \<Rightarrow> (string \<times> bool) attr_read" where
  "GetString key require au =
     (case map_of (au_attrs au) key of
        None \<Rightarrow> (([], False), if require then add_error (MissingAttr key) au else au)
      | Some val \<Rightarrow>
          (case val of
             VStr strVal \<Rightarrow> ((strVal, True), au)
           | _ \<Rightarrow> (([], False), add_error (NotString key) au)))"

definition GetInt64 :: "string \<Rightarrow> bool \<Rightarrow> (int \<times> bool) attr_read" where
  "GetInt64 key require au =
     (let ((strVal, ok), au) = GetString key require au in
      if \<not> ok then ((0, False), au)
      else (case ParseInt64 strVal of
          Inl err \<Rightarrow> ((0, False), add_error (BadInt key err) au)
        | Inr intVal \<Rightarrow> ((intVal, True), au)))"

definition GetUint64 :: "string \<Rightarrow> bool \<Rightarrow> (nat \<times> bool) attr_read" where
  "GetUint64 key require au =
     (let ((strVal, ok), au) = GetString key require au in
      if \<not> ok then ((0, False), au)
      else (case ParseUint64 strVal of
          Inl err \<Rightarrow> ((0, False), add_error (BadUint key err) au)
        | Inr intVal \<Rightarrow> ((intVal, True), au)))"

definition GetBool :: "string \<Rightarrow> bool \<Rightarrow> (bool \<times> bool) attr_read" where
  "GetBool key require au =
     (let ((strVal, ok), au) = GetString key require au in
      if \<not> ok then ((False, False), au)
      else (case ParseBool strVal of
          Inl err \<Rightarrow> ((False, False), add_error (BadBool key) au)
        | Inr boolVal \<Rightarrow> ((boolVal, True), au)))"

text \<open>A \<open>time.Time\<close> as the call that made it: the zero value, or one of the two conversions.\<close>

datatype gotime = ZeroTime | UnixSeconds int | UnixMillis int

definition GetUnixTime :: "string \<Rightarrow> bool \<Rightarrow> (gotime \<times> bool) attr_read" where
  "GetUnixTime key require au =
     (let ((intVal, ok), au) = GetInt64 key require au in
      if \<not> ok then ((ZeroTime, False), au)
      else if intVal = 0 then ((ZeroTime, True), au)
      else ((UnixSeconds intVal, True), au))"

definition GetUnixMilli :: "string \<Rightarrow> bool \<Rightarrow> (gotime \<times> bool) attr_read" where
  "GetUnixMilli key require au =
     (let ((intVal, ok), au) = GetInt64 key require au in
      if \<not> ok then ((ZeroTime, False), au)
      else if intVal = 0 then ((ZeroTime, True), au)
      else ((UnixMillis intVal, True), au))"

definition OptionalString :: "string \<Rightarrow> string attr_read" where
  "OptionalString key au = (let ((strVal, ok), au) = GetString key False au in (strVal, au))"

definition au_String :: "string \<Rightarrow> string attr_read" where
  "au_String key au = (let ((strVal, ok), au) = GetString key True au in (strVal, au))"

definition OptionalInt :: "string \<Rightarrow> int attr_read" where
  "OptionalInt key au = (let ((val, ok), au) = GetInt64 key False au in (val, au))"

definition au_Int :: "string \<Rightarrow> int attr_read" where
  "au_Int key au = (let ((val, ok), au) = GetInt64 key True au in (val, au))"

definition au_Int64 :: "string \<Rightarrow> int attr_read" where
  "au_Int64 key au = (let ((val, ok), au) = GetInt64 key True au in (val, au))"

definition au_Uint64 :: "string \<Rightarrow> nat attr_read" where
  "au_Uint64 key au = (let ((val, ok), au) = GetUint64 key True au in (val, au))"

definition OptionalBool :: "string \<Rightarrow> bool attr_read" where
  "OptionalBool key au = (let ((val, ok), au) = GetBool key False au in (val, au))"

definition au_Bool :: "string \<Rightarrow> bool attr_read" where
  "au_Bool key au = (let ((val, ok), au) = GetBool key True au in (val, au))"

definition OptionalUnixTime :: "string \<Rightarrow> gotime attr_read" where
  "OptionalUnixTime key au = (let ((val, ok), au) = GetUnixTime key False au in (val, au))"

definition UnixTime :: "string \<Rightarrow> gotime attr_read" where
  "UnixTime key au = (let ((val, ok), au) = GetUnixTime key True au in (val, au))"

definition OptionalUnixMilli :: "string \<Rightarrow> gotime attr_read" where
  "OptionalUnixMilli key au = (let ((val, ok), au) = GetUnixMilli key False au in (val, au))"

definition UnixMilli :: "string \<Rightarrow> gotime attr_read" where
  "UnixMilli key au = (let ((val, ok), au) = GetUnixMilli key True au in (val, au))"

definition au_OK :: "AttrUtility \<Rightarrow> bool" where
  "au_OK au \<longleftrightarrow> length (Errors au) = 0"

definition au_Error :: "AttrUtility \<Rightarrow> attr_error list option" where
  "au_Error au = (if au_OK au then None else Some (Errors au))"

section \<open>The contract of the typed getters\<close>

locale attr_getter =
  fixes get :: "string \<Rightarrow> bool \<Rightarrow> ('a \<times> bool) attr_read"
  assumes attrs_kept: "au_attrs (snd (get k req au)) = au_attrs au"
    and ok_keeps: "snd (fst (get k req au)) \<Longrightarrow> snd (get k req au) = au"
    and required_fails: "\<not> snd (fst (get k True au)) \<Longrightarrow> \<exists>e. Errors (snd (get k True au)) = Errors au @ [e]"
    and same_result: "au_attrs a = au_attrs b \<Longrightarrow> fst (get k r a) = fst (get k s b)"
begin

text \<open>A batch of required reads leaves the object without errors exactly when each of them succeeds.\<close>

lemma required_batch:
  "au_OK (fold (\<lambda>k au. snd (get k True au)) ks au) \<longleftrightarrow>
     au_OK au \<and> (\<forall>k \<in> set ks. snd (fst (get k True au)))"
proof (induction ks arbitrary: au)
  case (Cons k ks)
  have "fst (get l True (snd (get k True au))) = fst (get l True au)" for l
    by (rule same_result) (rule attrs_kept)
  moreover have "au_OK (snd (get k True au)) \<longleftrightarrow> au_OK au \<and> snd (fst (get k True au))"
    using ok_keeps [of k True au] required_fails [of k au] by (cases "snd (fst (get k True au))") (auto simp: au_OK_def)
  ultimately show ?case by (simp add: Cons.IH)
qed simp

end

lemmas attr_defs = GetJID_def GetString_def GetInt64_def GetUint64_def GetBool_def GetUnixTime_def GetUnixMilli_def
  add_error_def Let_def split_beta

interpretation jid_getter: attr_getter GetJID
  by unfold_locales (auto simp: attr_defs split: option.splits gval.splits)

interpretation string_getter: attr_getter GetString
  by unfold_locales (auto simp: attr_defs split: option.splits gval.splits)

text \<open>The numeric and boolean getters parse the string; their contract follows from the string one.\<close>

lemma parsed_getter:
  assumes "\<And>k req au. get k req au =
     (let ((s, ok), au) = GetString k req au in
      if \<not> ok then (dflt, au)
      else (case parse s of Inl err \<Rightarrow> (dflt, add_error (mk k err) au) | Inr v \<Rightarrow> ((v, True), au)))"
    and "\<not> snd dflt"
  shows "attr_getter get"
  by unfold_locales
    (use assms(2) in \<open>auto simp: assms(1) GetString_def add_error_def Let_def split: option.splits gval.splits sum.splits\<close>)

interpretation int_getter: attr_getter GetInt64
  by (rule parsed_getter [where dflt = "(0, False)" and parse = ParseInt64 and mk = BadInt])
    (simp_all add: GetInt64_def)

interpretation uint_getter: attr_getter GetUint64
  by (rule parsed_getter [where dflt = "(0, False)" and parse = ParseUint64 and mk = BadUint])
    (simp_all add: GetUint64_def)

interpretation bool_getter: attr_getter GetBool
  by (rule parsed_getter [where dflt = "(False, False)" and parse = ParseBool and mk = "\<lambda>k _. BadBool k"])
    (simp_all add: GetBool_def)

text \<open>
  A batch of required string reads on an element leaves no error exactly when every one of the
  attributes is present and holds a string.
\<close>

theorem required_strings:
  "au_OK (fold (\<lambda>k au. snd (au_String k au)) ks (AttrGetter n)) \<longleftrightarrow>
     list_all (\<lambda>k. \<exists>s. map_of (Attrs n) k = Some (VStr s)) ks"
proof -
  have eq: "snd (au_String k au) = snd (GetString k True au)" for k au
    by (simp add: au_String_def split_beta)
  have "snd (fst (GetString k True (AttrGetter n))) \<longleftrightarrow> (\<exists>s. map_of (Attrs n) k = Some (VStr s))" for k
    by (auto simp: GetString_def AttrGetter_def split: option.splits gval.splits)
  then show ?thesis
    unfolding eq string_getter.required_batch by (simp add: list_all_iff au_OK_def) (simp add: AttrGetter_def)
qed

section \<open>Attributes across the wire\<close>

lemma fst_wire_attrs: "fst ` set (wire_attrs ats) \<subseteq> fst ` set ats"
  by (induction ats) (auto simp: image_subset_iff split: if_splits)

lemma map_of_wire_attrs:
  "distinct (map fst ats) \<Longrightarrow>
   map_of (wire_attrs ats) k =
     (case map_of ats k of Some v \<Rightarrow> if skipped_attr v then None else Some (wire True v) | None \<Rightarrow> None)"
proof (induction ats)
  case (Cons kv ats)
  obtain l v where kv: "kv = (l, v)" by (cases kv)
  have "l \<notin> fst ` set (wire_attrs ats)" using Cons.prems fst_wire_attrs [of ats] by (auto simp: kv)
  then have "map_of (wire_attrs ats) l = None" by (simp add: map_of_eq_None_iff)
  with Cons show ?case by (simp add: kv)
qed simp

text \<open>The addresses the wire form keeps as they are.\<close>

definition wire_safe :: "JID \<Rightarrow> bool" where
  "wire_safe j \<longleftrightarrow>
     RawAgent j = 0 \<and> Integrator j = 0 \<and>
     (Device j = 0 \<or>
      Device j < 256 \<and> Server j \<in> {DefaultUserServer, HiddenUserServer, HostedServer, HostedLIDServer})"

lemma byte_device:
  assumes "(d :: 16 word) < 256"
  shows "ucast (ucast d :: byte) = d"
proof -
  have "unat d < 256" using assms by (simp add: word_less_nat_alt)
  then show ?thesis by (simp add: word_unat_eq_iff unsigned_ucast_eq unsigned_take_bit_eq take_bit_nat_eq_self)
qed

lemma wire_safe_jid:
  assumes "wire_safe j"
  shows "wire_jid j = j"
  using assms byte_device [of "Device j"] by (intro jid_eqI) (auto simp: wire_safe_def wire_jid_def NewJID_def word_gt_0)

text \<open>
  C6: what the typed getters return on the element the other side decodes, for the attributes of an
  encodable element. A signed or unsigned 64-bit integer, a boolean and a non-empty text are the
  values put in, and reading them records no error. An empty text is not sent, and a required read
  of it records the missing attribute. An address comes back in its wire form; that is the address
  itself when it has no agent and no integrator, and a device number only on the user servers and
  below 256.
\<close>

theorem attributes_transmitted:
  assumes "encodable_node n"
  shows "\<exists>d e m. Marshal n = Inr d \<and> Unpack inflate d = Inr e \<and> Unmarshal e = Inr m \<and>
    (\<forall>k t i. map_of (Attrs n) k = Some (VInt t i) \<longrightarrow> - (2 ^ 63) \<le> i \<longrightarrow> i < 2 ^ 63 \<longrightarrow>
       GetInt64 k True (AttrGetter m) = ((i, True), AttrGetter m)) \<and>
    (\<forall>k t i. map_of (Attrs n) k = Some (VInt t i) \<longrightarrow> 0 \<le> i \<longrightarrow> i < 2 ^ 64 \<longrightarrow>
       GetUint64 k True (AttrGetter m) = ((nat i, True), AttrGetter m)) \<and>
    (\<forall>k b. map_of (Attrs n) k = Some (VBool b) \<longrightarrow> GetBool k True (AttrGetter m) = ((b, True), AttrGetter m)) \<and>
    (\<forall>k s. map_of (Attrs n) k = Some (VStr s) \<longrightarrow>
       GetString k True (AttrGetter m) =
         (if s = [] then (([], False), add_error (MissingAttr k) (AttrGetter m)) else ((s, True), AttrGetter m))) \<and>
    (\<forall>k j. map_of (Attrs n) k = Some (VJid j) \<longrightarrow>
       GetJID k True (AttrGetter m) = ((wire_jid j, True), AttrGetter m) \<and> (wire_safe j \<longrightarrow> wire_jid j = j))"
proof -
  obtain tag ats c where n: "n = Node tag ats c" by (cases n)
  then have "distinct (map fst ats)" using assms by simp
  note m = map_of_wire_attrs [OF this]
  from Marshal_code [OF assms, of inflate] obtain e where
    "Marshal n = Inr (0 # e)" "Unpack inflate (0 # e) = Inr e" "Unmarshal e = Inr (wire_node n)" by blast
  moreover have "ParseUint64 (FormatInt i) = Inr (nat i)" if "0 \<le> i" "i < 2 ^ 64" for i
    using that by (simp add: FormatInt_def nat_less_iff)
  ultimately show ?thesis
    by (intro exI [of _ "0 # e"] exI [of _ e] exI [of _ "wire_node n"])
      (simp add: n m attr_defs AttrGetter_def skipped_attr_def wire_str_def ParseInt64_FormatInt wire_safe_jid)
qed

definition example_receipt :: node where
  "example_receipt = Node ''receipt''
     [(''t'', VInt KInt64 1700000000), (''has_more'', VBool True), (''id'', VStr ''3EB0''),
      (''note'', VStr []), (''to'', VJid (NewADJID ''1555'' 1 7))] VNil"

theorem attributes_transmitted_witness:
  "\<exists>d e m. Marshal example_receipt = Inr d \<and> Unpack (\<lambda>_. None) d = Inr e \<and> Unmarshal e = Inr m \<and>
     fst (GetInt64 ''t'' True (AttrGetter m)) = (1700000000, True) \<and>
     fst (GetUint64 ''t'' True (AttrGetter m)) = (1700000000, True) \<and>
     fst (GetBool ''has_more'' True (AttrGetter m)) = (True, True) \<and>
     fst (GetString ''id'' True (AttrGetter m)) = (''3EB0'', True) \<and>
     fst (GetString ''note'' True (AttrGetter m)) = ([], False) \<and>
     fst (GetJID ''to'' True (AttrGetter m)) = (NewADJID ''1555'' 1 7, True)"
proof -
  have ok: "encodable_node example_receipt"
    by (simp add: example_receipt_def short_text_def skipped_attr_def NewADJID_def FormatInt_def FormatUint.simps)
  have safe: "wire_safe (NewADJID ''1555'' 1 7)" by (simp add: wire_safe_def NewADJID_def)
  from attributes_transmitted [OF ok, of "\<lambda>_. None"] obtain d e m where
    dem: "Marshal example_receipt = Inr d" "Unpack (\<lambda>_. None) d = Inr e" "Unmarshal e = Inr m"
    and i: "\<And>k t i. map_of (Attrs example_receipt) k = Some (VInt t i) \<Longrightarrow> - (2 ^ 63) \<le> i \<Longrightarrow> i < 2 ^ 63 \<Longrightarrow>
       GetInt64 k True (AttrGetter m) = ((i, True), AttrGetter m)"
    and u: "\<And>k t i. map_of (Attrs example_receipt) k = Some (VInt t i) \<Longrightarrow> 0 \<le> i \<Longrightarrow> i < 2 ^ 64 \<Longrightarrow>
       GetUint64 k True (AttrGetter m) = ((nat i, True), AttrGetter m)"
    and b: "\<And>k b. map_of (Attrs example_receipt) k = Some (VBool b) \<Longrightarrow>
       GetBool k True (AttrGetter m) = ((b, True), AttrGetter m)"
    and s: "\<And>k s. map_of (Attrs example_receipt) k = Some (VStr s) \<Longrightarrow> GetString k True (AttrGetter m) =
       (if s = [] then (([], False), add_error (MissingAttr k) (AttrGetter m)) else ((s, True), AttrGetter m))"
    and j: "\<And>k j. map_of (Attrs example_receipt) k = Some (VJid j) \<Longrightarrow>
       GetJID k True (AttrGetter m) = ((wire_jid j, True), AttrGetter m) \<and> (wire_safe j \<longrightarrow> wire_jid j = j)"
    by blast
  show ?thesis
    using dem i [of "''t''" KInt64 1700000000] u [of "''t''" KInt64 1700000000] b [of "''has_more''" True]
      s [of "''id''" "''3EB0''"] s [of "''note''" "[]"] j [of "''to''" "NewADJID ''1555'' 1 7"] safe
    by (intro exI [of _ d] exI [of _ e] exI [of _ m]) (simp add: example_receipt_def)
qed

end
