(* ===== verification/Xml.thy ===== *)
theory Xml
  imports Nodes "HOL-Library.Char_ord" "HOL-Library.List_Lexorder" "HOL-Library.Multiset"
begin

text \<open>
  \<open>src/binary/xml.go\<close>: the textual form of elements for logs. The package variables and the parts of
  Go's \<open>fmt\<close> and \<open>unicode\<close> tables the printer relies on are fields of \<open>xml_env\<close>: \<open>valid_print\<close> says
  that the bytes are valid UTF-8 of printable characters, the two formatters give the text of
  values that are neither strings nor addresses. Shown here: the text does not depend on the
  order in which the attribute map is iterated, nor on the values the printer redacts.
\<close>

record xml_env =
  IndentXML :: bool
  MaxBytesToPrintAsHex :: nat
  valid_print :: "bytes \<Rightarrow> bool"
  fmt_other_v :: "gval \<Rightarrow> string"
  fmt_other_s :: "gval \<Rightarrow> string"

section \<open>Library string operations\<close>

definition newline :: char where
  "newline = char_of (10 :: nat)"

fun Join :: "string list \<Rightarrow> string \<Rightarrow> string" where
  "Join [] sep = []"
| "Join [s] sep = s"
| "Join (s # t # ss) sep = s @ sep @ Join (t # ss) sep"

definition ReplaceAll_char :: "char \<Rightarrow> string \<Rightarrow> string \<Rightarrow> string" where
  "ReplaceAll_char c r s = concat (map (\<lambda>x. if x = c then r else [x]) s)"

definition hex_digit :: "nat \<Rightarrow> char" where
  "hex_digit d = ''0123456789abcdef'' ! d"

definition EncodeToString :: "bytes \<Rightarrow> string" where
  "EncodeToString bs = concat (map (\<lambda>b. [hex_digit (unat b div 16), hex_digit (unat b mod 16)]) bs)"

section \<open>The printer\<close>

definition sensitiveXMLAttribute :: "string \<Rightarrow> bool" where
  "sensitiveXMLAttribute key \<longleftrightarrow> key = ''auth'' \<or> key = ''pin'' \<or> key = ''token''"

definition sensitiveXMLNodeContent :: "string \<Rightarrow> bool" where
  "sensitiveXMLNodeContent tag \<longleftrightarrow>
     tag \<in> set [''access_token'', ''address'', ''code'', ''description'', ''email'', ''linked_accounts'',
       ''session_cookies'', ''token'', ''wa_ad_account_nonce'', ''website'']"

definition redacted :: string where
  "redacted = ''[redacted]''"

definition fmt_v :: "xml_env \<Rightarrow> gval \<Rightarrow> string" where
  "fmt_v env v = (case v of VStr s \<Rightarrow> s | VJid j \<Rightarrow> JID_String j | _ \<Rightarrow> fmt_other_v env v)"

definition fmt_s :: "xml_env \<Rightarrow> gval \<Rightarrow> string" where
  "fmt_s env v = (case v of VStr s \<Rightarrow> s | VJid j \<Rightarrow> JID_String j | _ \<Rightarrow> fmt_other_s env v)"

definition attr_text :: "xml_env \<Rightarrow> string \<times> gval \<Rightarrow> string" where
  "attr_text env kv =
     (let value = (if sensitiveXMLAttribute (fst kv) then VStr redacted else snd kv)
      in fst kv @ ''='' @ [CHR 0x22] @ fmt_v env value @ [CHR 0x22])"

definition attributeString :: "xml_env \<Rightarrow> attrs \<Rightarrow> string" where
  "attributeString env ats = (if length ats = 0 then [] else Join (sort ([] # map (attr_text env) ats)) '' '')"

definition printable :: "xml_env \<Rightarrow> bytes \<Rightarrow> string" where
  "printable env d = (if valid_print env d then string_of_bytes d else [])"

function hex_lines :: "string \<Rightarrow> string list" where
  "hex_lines hexData = (if hexData = [] then [] else take 80 hexData # hex_lines (drop 80 hexData))"
  by auto
termination by (relation "measure length") auto

declare hex_lines.simps [simp del]

definition bytes_lines :: "xml_env \<Rightarrow> bytes \<Rightarrow> string list" where
  "bytes_lines env content =
     (if length (printable env content) > 0 then
        (if IndentXML env then split_on newline (string_of_bytes content)
         else [ReplaceAll_char newline [CHR 0x5C, CHR ''n''] (string_of_bytes content)])
      else if length content > MaxBytesToPrintAsHex env then
        [''<!-- '' @ FormatUint (length content) @ '' bytes -->'']
      else if \<not> IndentXML env then [EncodeToString content]
      else hex_lines (EncodeToString content))"

definition other_lines :: "xml_env \<Rightarrow> gval \<Rightarrow> string list" where
  "other_lines env content =
     (let strContent = fmt_s env content in
      if IndentXML env then split_on newline strContent
      else [ReplaceAll_char newline [CHR 0x5C, CHR ''n''] strContent])"

definition leaf_lines :: "xml_env \<Rightarrow> gval \<Rightarrow> string list" where
  "leaf_lines env content =
     (case content of VBytes b \<Rightarrow> bytes_lines env b | VNil \<Rightarrow> [] | _ \<Rightarrow> other_lines env content)"

definition indent_lines :: "xml_env \<Rightarrow> string list \<Rightarrow> string list" where
  "indent_lines env split = (if length split > 1 \<and> IndentXML env then map (\<lambda>line. ''  '' @ line) split else split)"

text \<open>\<open>Node.String\<close> and \<open>contentString\<close>; \<open>nodes_lines\<close> is the loop over the children in the latter.\<close>

fun Node_String :: "xml_env \<Rightarrow> node \<Rightarrow> string"
  and contentString :: "xml_env \<Rightarrow> string \<Rightarrow> gval \<Rightarrow> string list"
  and nodes_lines :: "xml_env \<Rightarrow> node list \<Rightarrow> string list" where
  "Node_String env (Node tag ats cont) =
     (let content = contentString env tag cont in
      if length content = 0 then ''<'' @ tag @ attributeString env ats @ ''/>''
      else
        (let nl = (if length content = 1 \<or> \<not> IndentXML env then [] else [newline])
         in ''<'' @ tag @ attributeString env ats @ ''>'' @ nl @ Join content nl @ nl @ ''</'' @ tag @ ''>''))"
| "contentString env tag (VNodes ns) =
     (if sensitiveXMLNodeContent tag then [redacted] else indent_lines env (nodes_lines env ns))"
| "contentString env tag content =
     (if content \<noteq> VNil \<and> sensitiveXMLNodeContent tag then [redacted]
      else indent_lines env (leaf_lines env content))"
| "nodes_lines env [] = []"
| "nodes_lines env (n # ns) = split_on newline (Node_String env n) @ nodes_lines env ns"

section \<open>Redaction and map order\<close>

text \<open>An element with everything the printer hides blotted out.\<close>

definition redact_attr :: "string \<times> gval \<Rightarrow> string \<times> gval" where
  "redact_attr kv = (fst kv, if sensitiveXMLAttribute (fst kv) then VStr redacted else snd kv)"

fun redact_node :: "node \<Rightarrow> node"
  and redact_content :: "string \<Rightarrow> gval \<Rightarrow> gval"
  and redact_nodes :: "node list \<Rightarrow> node list" where
  "redact_node (Node tag ats cont) = Node tag (map redact_attr ats) (redact_content tag cont)"
| "redact_content tag (VNodes ns) =
     (if sensitiveXMLNodeContent tag then VStr redacted else VNodes (redact_nodes ns))"
| "redact_content tag content =
     (if content \<noteq> VNil \<and> sensitiveXMLNodeContent tag then VStr redacted else content)"
| "redact_nodes [] = []"
| "redact_nodes (n # ns) = redact_node n # redact_nodes ns"

lemma attr_text_redact [simp]: "attr_text env (redact_attr kv) = attr_text env kv"
  by (simp add: attr_text_def redact_attr_def)

lemma attributeString_redact [simp]: "attributeString env (map redact_attr ats) = attributeString env ats"
  by (simp add: attributeString_def comp_def)

lemma contentString_cases:
  "\<lbrakk>\<forall>ns. content \<noteq> VNodes ns\<rbrakk> \<Longrightarrow> contentString env tag content =
     (if content \<noteq> VNil \<and> sensitiveXMLNodeContent tag then [redacted]
      else indent_lines env (leaf_lines env content))"
  by (cases content) auto

lemma redact_content_cases:
  "\<lbrakk>\<forall>ns. content \<noteq> VNodes ns\<rbrakk> \<Longrightarrow> redact_content tag content =
     (if content \<noteq> VNil \<and> sensitiveXMLNodeContent tag then VStr redacted else content)"
  by (cases content) auto

lemma String_redact:
  "Node_String env (redact_node n) = Node_String env n"
  "contentString env tag (redact_content tag c) = contentString env tag c"
  "nodes_lines env (redact_nodes ns) = nodes_lines env ns"
  by (induction n and tag c and ns rule: redact_node_redact_content_redact_nodes.induct)
    (simp_all add: Let_def)

text \<open>
  C7: the textual form of an element depends on nothing that is redacted: elements that differ only
  in the values of the sensitive attributes and in the content of the sensitive tags, at any
  depth, have the same text.
\<close>

theorem String_noninterference:
  assumes "redact_node n = redact_node m"
  shows "Node_String env n = Node_String env m"
  using assms by (metis String_redact(1))

definition example_env :: xml_env where
  "example_env = \<lparr>IndentXML = False, MaxBytesToPrintAsHex = 128, valid_print = (\<lambda>_. False),
     fmt_other_v = (\<lambda>_. []), fmt_other_s = (\<lambda>_. [])\<rparr>"

theorem String_noninterference_witness:
  "Node_String example_env (Node ''iq'' [] (VNodes [Node ''pair'' [(''token'', VStr ''a'')] VNil, Node ''code'' [] (VBytes [1])])) =
   Node_String example_env (Node ''iq'' [] (VNodes [Node ''pair'' [(''token'', VStr ''b'')] VNil, Node ''code'' [] (VBytes [2, 3])]))"
  by (rule String_noninterference)
    (simp add: redact_attr_def sensitiveXMLAttribute_def sensitiveXMLNodeContent_def)

text \<open>The attribute text is the same in whatever order the attribute map is iterated.\<close>

theorem attributeString_order:
  assumes "mset ats = mset bts"
  shows "attributeString env ats = attributeString env bts"
proof -
  have "mset (map (attr_text env) ats) = mset (map (attr_text env) bts)" using assms by simp
  then have "sort ([] # map (attr_text env) ats) = sort ([] # map (attr_text env) bts)"
    by (intro properties_for_sort [OF _ sorted_sort]) (simp only: mset_sort mset.simps)
  then show ?thesis using mset_eq_length [OF assms] by (simp only: attributeString_def)
qed

theorem attributeString_order_witness:
  "attributeString example_env [(''id'', VStr ''1''), (''to'', VStr ''x'')] =
   attributeString example_env [(''to'', VStr ''x''), (''id'', VStr ''1'')]"
  by (rule attributeString_order) simp

end
