(* ===== verification/FrameSocket.thy ===== *)
theory FrameSocket
  imports Prelude
begin

text \<open>
  \<open>src/socket/framesocket.go\<close>: length-prefixed frames over a websocket. The state record keeps the
  reassembly fields of the Go struct; the connection pointer and the cancel function appear as
  whether they are set, and what leaves the object (frames sent on the channel, websocket
  messages written, scheduled disconnect callbacks) as logs. Dialing, reading and writing the
  websocket are its environment.

  The reassembly loop is proved to refine a pure parser of the byte stream. Hence the frames do
  not depend on how the stream is cut into websocket messages, and what \<open>SendFrame\<close> writes is
  delivered as it was sent.
\<close>

unbundle bit_operations_syntax

section \<open>State and operations\<close>

abbreviation (input) FrameMaxSize :: nat where
  "FrameMaxSize \<equiv> 2 ^ 24"

abbreviation (input) FrameLengthSize :: nat where
  "FrameLengthSize \<equiv> 3"

record frame_socket =
  fs_conn :: bool
  fs_closed :: bool
  fs_cancel :: bool
  fs_OnDisconnect :: bool
  fs_Header :: "bytes option"
  incomingLength :: nat
  receivedLength :: nat
  incoming :: "bytes option"
  partialHeader :: "bytes option"
  Frames :: "bytes list"
  written :: "bytes list"
  callbacks :: "bool list"

datatype fs_error =
    ErrSocketAlreadyOpen
  | ErrDialFailed
  | ErrSocketClosed
  | ErrFrameTooLarge
  | ErrWriteFailed
  | SlicePanic
  | NilCallPanic

definition NewFrameSocket :: "bytes \<Rightarrow> frame_socket" where
  "NewFrameSocket WAConnHeader =
     \<lparr>fs_conn = False, fs_closed = False, fs_cancel = False, fs_OnDisconnect = False,
      fs_Header = Some WAConnHeader, incomingLength = 0, receivedLength = 0, incoming = None,
      partialHeader = None, Frames = [], written = [], callbacks = []\<rparr>"

definition IsConnected :: "frame_socket \<Rightarrow> bool" where
  "IsConnected fs = fs_conn fs"

definition SetOnDisconnect :: "bool \<Rightarrow> frame_socket \<Rightarrow> frame_socket" where
  "SetOnDisconnect handler fs = fs\<lparr>fs_OnDisconnect := handler\<rparr>"

text \<open>\<open>Close\<close> calls the cancel function of the context; calling it unset is a nil call.\<close>

definition fs_Close :: "nat \<Rightarrow> frame_socket \<Rightarrow> fs_error + frame_socket" where
  "fs_Close code fs =
     (if \<not> fs_conn fs then Inr fs
      else
        (let fs = fs\<lparr>fs_conn := False, fs_closed := True\<rparr> in
         if \<not> fs_cancel fs then Inl NilCallPanic
         else
           (let fs = fs\<lparr>fs_cancel := False\<rparr> in
            if fs_OnDisconnect fs then Inr (fs\<lparr>callbacks := callbacks fs @ [code = 0]\<rparr>) else Inr fs)))"

text \<open>\<open>dialed\<close> says whether the websocket could be dialed. The error leaves the cancel function set.\<close>

definition fs_Connect :: "bool \<Rightarrow> frame_socket \<Rightarrow> fs_error option \<times> frame_socket" where
  "fs_Connect dialed fs =
     (if fs_conn fs then (Some ErrSocketAlreadyOpen, fs)
      else
        (let fs = fs\<lparr>fs_cancel := True\<rparr> in
         if \<not> dialed then (Some ErrDialFailed, fs) else (None, fs\<lparr>fs_conn := True\<rparr>)))"

definition length_bytes :: "nat \<Rightarrow> bytes" where
  "length_bytes n = [word_of_nat (drop_bit 16 n), word_of_nat (drop_bit 8 n), word_of_nat n]"

text \<open>\<open>write_ok\<close> is the outcome of the websocket write.\<close>

definition SendFrame :: "bool \<Rightarrow> bytes \<Rightarrow> frame_socket \<Rightarrow> fs_error option \<times> frame_socket" where
  "SendFrame write_ok d fs =
     (if \<not> fs_conn fs then (Some ErrSocketClosed, fs)
      else if length d \<ge> FrameMaxSize then (Some ErrFrameTooLarge, fs)
      else
        (let header = (case fs_Header fs of None \<Rightarrow> [] | Some h \<Rightarrow> h);
             wholeFrame = header @ length_bytes (length d) @ d;
             fs = fs\<lparr>fs_Header := None\<rparr>
         in if write_ok then (None, fs\<lparr>written := written fs @ [wholeFrame]\<rparr>)
            else (Some ErrWriteFailed, fs)))"

definition frameComplete :: "bytes \<Rightarrow> frame_socket \<Rightarrow> frame_socket" where
  "frameComplete d fs =
     fs\<lparr>incoming := None, partialHeader := None, incomingLength := 0, receivedLength := 0,
        Frames := Frames fs @ [d]\<rparr>"

text \<open>\<open>copy(dst[off:], src)\<close>; the slice expression panics when the offset is beyond the end.\<close>

definition copy_at :: "nat \<Rightarrow> bytes \<Rightarrow> bytes \<Rightarrow> fs_error + bytes" where
  "copy_at off src dst =
     (if off > length dst then Inl SlicePanic
      else Inr (take off dst @ take (length dst - off) src @ drop (off + length src) dst))"

text \<open>
  One round of the loop in \<open>processData\<close>, with its three parts: prepending a partial header, the
  start of a frame, and the continuation of one. Each gives the rest of the message and the state.
\<close>

definition take_partial :: "bytes \<Rightarrow> frame_socket \<Rightarrow> bytes \<times> frame_socket" where
  "take_partial msg fs =
     (case partialHeader fs of
        None \<Rightarrow> (msg, fs)
      | Some h \<Rightarrow> (h @ msg, fs\<lparr>partialHeader := None\<rparr>))"

definition start_frame :: "bytes \<Rightarrow> frame_socket \<Rightarrow> fs_error + (bytes \<times> frame_socket)" where
  "start_frame msg fs =
     (if length msg \<ge> FrameLengthSize then
        (let len = push_bit 16 (unat (msg ! 0)) + push_bit 8 (unat (msg ! 1)) + unat (msg ! 2);
             msg = drop FrameLengthSize msg;
             fs = fs\<lparr>incomingLength := len, receivedLength := length msg\<rparr>
         in if length msg \<ge> len then Inr (drop len msg, frameComplete (take len msg) fs)
            else rbind (copy_at 0 msg (replicate len 0)) (\<lambda>buf. Inr ([], fs\<lparr>incoming := Some buf\<rparr>)))
      else Inr ([], fs\<lparr>partialHeader := Some msg\<rparr>))"

definition continue_frame :: "bytes \<Rightarrow> bytes \<Rightarrow> frame_socket \<Rightarrow> fs_error + (bytes \<times> frame_socket)" where
  "continue_frame buf msg fs =
     (if receivedLength fs + length msg \<ge> incomingLength fs then
        (if incomingLength fs < receivedLength fs then Inl SlicePanic
         else
           rbind (copy_at (receivedLength fs) (take (incomingLength fs - receivedLength fs) msg) buf)
             (\<lambda>buf. Inr (drop (incomingLength fs - receivedLength fs) msg, frameComplete buf fs)))
      else
        rbind (copy_at (receivedLength fs) msg buf) (\<lambda>buf.
          Inr ([], fs\<lparr>incoming := Some buf, receivedLength := receivedLength fs + length msg\<rparr>)))"

definition processData_step :: "bytes \<Rightarrow> frame_socket \<Rightarrow> fs_error + (bytes \<times> frame_socket)" where
  "processData_step msg fs =
     (let (msg, fs) = take_partial msg fs
      in case incoming fs of None \<Rightarrow> start_frame msg fs | Some buf \<Rightarrow> continue_frame buf msg fs)"

text \<open>
  The loop ends: every round shortens what is left, or completes a frame and with it leaves the
  continuation branch.
\<close>

definition loop_measure :: "bytes \<Rightarrow> frame_socket \<Rightarrow> nat" where
  "loop_measure msg fs =
     (if msg = [] then 0
      else 2 * (length msg + (case partialHeader fs of None \<Rightarrow> 0 | Some h \<Rightarrow> length h)) +
        (if incoming fs = None then 0 else 1))"

lemma start_frame_rest:
  assumes "start_frame msg fs = Inr (msg', fs')"
  shows "msg' = [] \<or> length msg' < length msg \<and> partialHeader fs' = None \<and> incoming fs' = None"
  using assms by (auto simp: start_frame_def Let_def frameComplete_def rbind_eq_Inr split: if_splits)

lemma continue_frame_rest:
  assumes "continue_frame buf msg fs = Inr (msg', fs')"
  shows "msg' = [] \<or> length msg' \<le> length msg \<and> partialHeader fs' = None \<and> incoming fs' = None"
  using assms by (auto simp: continue_frame_def frameComplete_def rbind_eq_Inr split: if_splits)

lemma processData_step_decreases:
  assumes "msg \<noteq> []" and "processData_step msg fs = Inr (msg', fs')"
  shows "loop_measure msg' fs' < loop_measure msg fs"
proof -
  obtain m f where t: "take_partial msg fs = (m, f)" by (cases "take_partial msg fs")
  then have len: "length m = length msg + (case partialHeader fs of None \<Rightarrow> 0 | Some h \<Rightarrow> length h)"
    and inc: "incoming f = incoming fs"
    by (auto simp: take_partial_def split: option.splits)
  show ?thesis
  proof (cases "incoming fs")
    case None
    with assms(2) t inc have "start_frame m f = Inr (msg', fs')" by (simp add: processData_step_def)
    from start_frame_rest [OF this] assms(1) len None show ?thesis
      by (auto simp: loop_measure_def)
  next
    case (Some buf)
    with assms(2) t inc have "continue_frame buf m f = Inr (msg', fs')" by (simp add: processData_step_def)
    from continue_frame_rest [OF this] assms(1) len Some show ?thesis
      by (auto simp: loop_measure_def)
  qed
qed

function processData :: "bytes \<Rightarrow> frame_socket \<Rightarrow> fs_error + frame_socket" where
  "processData msg fs =
     (if msg = [] then Inr fs
      else (case processData_step msg fs of
          Inl e \<Rightarrow> Inl e
        | Inr (msg', fs') \<Rightarrow> processData msg' fs'))"
  by auto
termination
  by (relation "measure (\<lambda>(msg, fs). loop_measure msg fs)") (auto dest: processData_step_decreases)

declare processData.simps [simp del]

section \<open>The byte stream as a sequence of frames\<close>

text \<open>The specification: split a stream into its complete frames and the incomplete rest.\<close>

definition frame_length :: "bytes \<Rightarrow> nat" where
  "frame_length bs = push_bit 16 (unat (bs ! 0)) + push_bit 8 (unat (bs ! 1)) + unat (bs ! 2)"

function frames_of :: "bytes \<Rightarrow> bytes list \<times> bytes" where
  "frames_of bs =
     (if length bs < 3 \<or> length bs < 3 + frame_length bs then ([], bs)
      else
        (let (fs, rest) = frames_of (drop (3 + frame_length bs) bs)
         in (take (frame_length bs) (drop 3 bs) # fs, rest)))"
  by auto
termination by (relation "measure length") auto

declare frames_of.simps [simp del]

lemma frames_of_short: "length bs < 3 \<or> length bs < 3 + frame_length bs \<Longrightarrow> frames_of bs = ([], bs)"
  by (subst frames_of.simps) simp

lemma frames_of_long:
  "3 \<le> length bs \<Longrightarrow> 3 + frame_length bs \<le> length bs \<Longrightarrow>
   frames_of bs = (take (frame_length bs) (drop 3 bs) # fst (frames_of (drop (3 + frame_length bs) bs)),
     snd (frames_of (drop (3 + frame_length bs) bs)))"
  by (subst frames_of.simps) (simp add: split_beta)

lemma frame_length_append: "3 \<le> length bs \<Longrightarrow> frame_length (bs @ cs) = frame_length bs"
  by (auto simp: frame_length_def numeral_3_eq_3 numeral_2_eq_2 Suc_le_length_iff)

lemma frames_of_append:
  "frames_of (a @ b) =
     (fst (frames_of a) @ fst (frames_of (snd (frames_of a) @ b)), snd (frames_of (snd (frames_of a) @ b)))"
proof (induction a rule: frames_of.induct)
  case (1 a)
  show ?case
  proof (cases "length a < 3 \<or> length a < 3 + frame_length a")
    case True
    then show ?thesis by (simp add: frames_of_short)
  next
    case False
    then have "frames_of (a @ b) =
        (take (frame_length a) (drop 3 a) # fst (frames_of (drop (3 + frame_length a) a @ b)),
         snd (frames_of (drop (3 + frame_length a) a @ b)))"
      using frames_of_long [of "a @ b"] by (simp add: frame_length_append)
    with 1 [OF False] False show ?thesis by (simp add: frames_of_long)
  qed
qed

lemma frame_length_length_bytes:
  assumes "n < 2 ^ 24"
  shows "frame_length (length_bytes n @ bs) = n"
proof -
  have "n div 65536 < 256" using assms by (simp add: less_mult_imp_div_less)
  moreover have "n div 65536 = n div 256 div 256" by (simp flip: div_mult2_eq)
  ultimately have "frame_length (length_bytes n @ bs) =
      n div 256 div 256 * 65536 + n div 256 mod 256 * 256 + n mod 256"
    by (simp add: frame_length_def length_bytes_def unsigned_of_nat take_bit_eq_mod drop_bit_eq_div push_bit_eq_mult)
  with div_mult_mod_eq [of "n div 256" 256] div_mult_mod_eq [of n 256] show ?thesis by linarith
qed

lemma byte_sum:
  assumes "b < (256 :: nat)" "c < 256"
  shows "(a * 65536 + b * 256 + c) div 65536 = a" "(a * 65536 + b * 256 + c) div 256 mod 256 = b"
    "(a * 65536 + b * 256 + c) mod 256 = c"
proof -
  have "b * 256 + c < 65536" using assms by linarith
  then show "(a * 65536 + b * 256 + c) div 65536 = a" by (simp add: add.assoc)
  have "a * 65536 + b * 256 + c = (a * 256 + b) * 256 + c" by simp
  with assms show "(a * 65536 + b * 256 + c) div 256 mod 256 = b" "(a * 65536 + b * 256 + c) mod 256 = c"
    by (simp_all only: div_mult_self3 mod_mult_self3 div_less mod_less) simp_all
qed

lemma unat_byte: "unat (b :: byte) < 256"
  using unsigned_less [of b] by simp

lemma word_of_nat_byteI: "n mod 256 = unat b \<Longrightarrow> word_of_nat n = (b :: byte)"
  by (simp add: word_unat_eq_iff unsigned_of_nat take_bit_eq_mod)

lemma length_bytes_frame_length:
  assumes "3 \<le> length bs"
  shows "length_bytes (frame_length bs) = take 3 bs"
proof -
  obtain a b c r where bs: "bs = a # b # c # r"
    using assms by (auto simp: numeral_3_eq_3 Suc_le_length_iff)
  let ?n = "unat a * 65536 + unat b * 256 + unat c"
  note sums = byte_sum [OF unat_byte unat_byte, of "unat a" b c]
  have n: "frame_length bs = ?n" by (simp add: bs frame_length_def push_bit_eq_mult)
  have "(word_of_nat (frame_length bs div 65536) :: byte) = a"
    unfolding n by (rule word_of_nat_byteI) (simp only: sums, simp add: unat_byte)
  moreover have "(word_of_nat (frame_length bs div 256) :: byte) = b"
    unfolding n by (rule word_of_nat_byteI) (simp only: sums)
  moreover have "(word_of_nat (frame_length bs) :: byte) = c"
    unfolding n by (rule word_of_nat_byteI) (simp only: sums)
  ultimately show ?thesis unfolding length_bytes_def drop_bit_eq_div by (simp add: bs)
qed

lemma frame_length_less: "3 \<le> length bs \<Longrightarrow> frame_length bs < 2 ^ 24"
  using unat_byte [of "bs ! 0"] unat_byte [of "bs ! 1"] unat_byte [of "bs ! 2"]
  by (simp add: frame_length_def push_bit_eq_mult)

section \<open>The reassembly loop refines the stream parser\<close>

definition fs_ok :: "frame_socket \<Rightarrow> bool" where
  "fs_ok fs \<longleftrightarrow>
     (case incoming fs of
        None \<Rightarrow> (case partialHeader fs of None \<Rightarrow> True | Some h \<Rightarrow> length h < 3)
      | Some buf \<Rightarrow> partialHeader fs = None \<and> length buf = incomingLength fs \<and>
          receivedLength fs < incomingLength fs \<and> incomingLength fs < 2 ^ 24)"

text \<open>The bytes of the stream that were received but are not part of a delivered frame.\<close>

definition pending :: "frame_socket \<Rightarrow> bytes" where
  "pending fs =
     (case incoming fs of
        None \<Rightarrow> (case partialHeader fs of None \<Rightarrow> [] | Some h \<Rightarrow> h)
      | Some buf \<Rightarrow> length_bytes (incomingLength fs) @ take (receivedLength fs) buf)"

definition stream_view :: "bytes \<Rightarrow> frame_socket \<Rightarrow> bytes list \<times> bytes" where
  "stream_view msg fs =
     (Frames fs @ fst (frames_of (pending fs @ msg)), snd (frames_of (pending fs @ msg)))"

lemma length_length_bytes [simp]: "length (length_bytes n) = 3"
  by (simp add: length_bytes_def)

lemma pending_incomplete: "fs_ok fs \<Longrightarrow> frames_of (pending fs) = ([], pending fs)"
  by (rule frames_of_short)
    (auto simp: fs_ok_def pending_def frame_length_length_bytes split: option.splits)

lemma copy_at_ok: "off \<le> length dst \<Longrightarrow> off + length src \<le> length dst \<Longrightarrow>
    copy_at off src dst = Inr (take off dst @ src @ drop (off + length src) dst)"
  by (simp add: copy_at_def)

lemma start_frame_eq:
  "start_frame msg fs =
     (if length msg \<ge> 3 then
        (let fs = fs\<lparr>incomingLength := frame_length msg, receivedLength := length (drop 3 msg)\<rparr>
         in if length (drop 3 msg) \<ge> frame_length msg
            then Inr (drop (frame_length msg) (drop 3 msg), frameComplete (take (frame_length msg) (drop 3 msg)) fs)
            else rbind (copy_at 0 (drop 3 msg) (replicate (frame_length msg) 0))
              (\<lambda>buf. Inr ([], fs\<lparr>incoming := Some buf\<rparr>)))
      else Inr ([], fs\<lparr>partialHeader := Some msg\<rparr>))"
  by (simp only: start_frame_def frame_length_def Let_def)

lemma start_frame_refines:
  assumes "incoming fs = None" and "partialHeader fs = None"
  shows "\<exists>m f. start_frame msg fs = Inr (m, f) \<and> fs_ok f \<and> stream_view m f = stream_view msg fs"
proof -
  let ?n = "frame_length msg"
  have pend: "pending fs = []" using assms by (simp add: pending_def)
  consider (short) "length msg < 3" | (part) "3 \<le> length msg" "length msg < 3 + ?n" | (full) "3 + ?n \<le> length msg"
    by linarith
  then show ?thesis
  proof cases
    case short
    then show ?thesis using assms
      by (auto simp: start_frame_def fs_ok_def stream_view_def pending_def)
  next
    case part
    let ?f = "fs\<lparr>incomingLength := ?n, receivedLength := length msg - 3,
        incoming := Some (drop 3 msg @ replicate (3 + ?n - length msg) 0)\<rparr>"
    have "start_frame msg fs = Inr ([], ?f)"
      using part by (simp add: start_frame_eq Let_def copy_at_ok add.commute)
    moreover have "pending ?f = msg"
      using part length_bytes_frame_length [OF part(1)] by (simp add: pending_def)
    ultimately show ?thesis
      using part assms pend frame_length_less [OF part(1)] by (auto simp: fs_ok_def stream_view_def)
  next
    case full
    let ?f = "frameComplete (take ?n (drop 3 msg)) (fs\<lparr>incomingLength := ?n, receivedLength := length msg - 3\<rparr>)"
    have "?n \<le> length msg - 3" using full by linarith
    then have "start_frame msg fs = Inr (drop (3 + ?n) msg, ?f)"
      using full by (simp add: start_frame_eq Let_def add.commute)
    moreover have "pending ?f = []" "Frames ?f = Frames fs @ [take ?n (drop 3 msg)]" "fs_ok ?f"
      by (simp_all add: frameComplete_def pending_def fs_ok_def)
    ultimately show ?thesis
      using full pend frames_of_long [of msg] by (auto simp: stream_view_def)
  qed
qed

lemma continue_frame_refines:
  assumes "incoming fs = Some buf" and "fs_ok fs"
  shows "\<exists>m f. continue_frame buf msg fs = Inr (m, f) \<and> fs_ok f \<and> stream_view m f = stream_view msg fs"
proof -
  let ?n = "incomingLength fs" and ?k = "receivedLength fs"
  have ok: "partialHeader fs = None" "length buf = ?n" "?k < ?n" "?n < 2 ^ 24"
    using assms by (simp_all add: fs_ok_def)
  have pend: "pending fs = length_bytes ?n @ take ?k buf" using assms(1) by (simp add: pending_def)
  have n: "frame_length (length_bytes ?n @ bs) = ?n" for bs by (rule frame_length_length_bytes [OF ok(4)])
  show ?thesis
  proof (cases "?n \<le> ?k + length msg")
    case True
    let ?d = "take ?k buf @ take (?n - ?k) msg"
    have "continue_frame buf msg fs = Inr (drop (?n - ?k) msg, frameComplete ?d fs)"
      using True ok by (simp add: continue_frame_def copy_at_ok)
    moreover have "frames_of (pending fs @ msg) =
        (?d # fst (frames_of (drop (?n - ?k) msg)), snd (frames_of (drop (?n - ?k) msg)))"
      using True ok frames_of_long [of "pending fs @ msg"] by (simp add: pend n)
    ultimately show ?thesis
      by (simp add: stream_view_def frameComplete_def fs_ok_def pending_def)
  next
    case False
    let ?f = "fs\<lparr>incoming := Some (take ?k buf @ msg @ drop (?k + length msg) buf), receivedLength := ?k + length msg\<rparr>"
    have "continue_frame buf msg fs = Inr ([], ?f)"
      using False ok by (simp add: continue_frame_def copy_at_ok)
    moreover have "pending ?f = pending fs @ msg" using False ok pend by (simp add: pending_def)
    moreover have "fs_ok ?f" using False ok by (simp add: fs_ok_def)
    ultimately show ?thesis by (simp add: stream_view_def)
  qed
qed

lemma processData_step_refines:
  assumes "fs_ok fs" and "msg \<noteq> []"
  shows "\<exists>m f. processData_step msg fs = Inr (m, f) \<and> fs_ok f \<and> stream_view m f = stream_view msg fs"
proof (cases "incoming fs")
  case None
  obtain m f where t: "take_partial msg fs = (m, f)" by (cases "take_partial msg fs")
  with None have f: "incoming f = None" "partialHeader f = None" and view: "stream_view m f = stream_view msg fs"
    by (auto simp: take_partial_def stream_view_def pending_def split: option.splits)
  from start_frame_refines [OF f, of m] view show ?thesis by (simp add: processData_step_def t f)
next
  case (Some buf)
  with assms(1) have "take_partial msg fs = (msg, fs)" by (simp add: take_partial_def fs_ok_def)
  with continue_frame_refines [OF Some assms(1), of msg] Some show ?thesis by (simp add: processData_step_def)
qed

lemma processData_refines:
  "fs_ok fs \<Longrightarrow> \<exists>f. processData msg fs = Inr f \<and> fs_ok f \<and> (Frames f, pending f) = stream_view msg fs"
proof (induction msg fs rule: processData.induct)
  case (1 msg fs)
  show ?case
  proof (cases "msg = []")
    case True
    with pending_incomplete [OF 1(2)] 1(2) show ?thesis
      by (simp add: processData.simps [of "[]"] stream_view_def)
  next
    case False
    from processData_step_refines [OF 1(2) False] obtain m f where
      step: "processData_step msg fs = Inr (m, f)" "fs_ok f" "stream_view m f = stream_view msg fs" by blast
    from 1(1) [OF False step(1) refl step(2)] step False show ?thesis
      by (subst processData.simps) simp
  qed
qed

section \<open>Independence of the cutting of the stream\<close>

text \<open>The contract of an incremental parser, and what follows for feeding it chunk by chunk.\<close>

locale incremental_parser =
  fixes parse :: "'b list \<Rightarrow> 'f list \<times> 'b list"
  assumes parse_Nil: "parse [] = ([], [])"
    and parse_append: "parse (a @ b) =
      (fst (parse a) @ fst (parse (snd (parse a) @ b)), snd (parse (snd (parse a) @ b)))"
begin

fun feed :: "'b list list \<Rightarrow> 'f list \<times> 'b list \<Rightarrow> 'f list \<times> 'b list" where
  "feed [] st = st"
| "feed (c # cs) (out, rest) = feed cs (out @ fst (parse (rest @ c)), snd (parse (rest @ c)))"

lemma feed_from: "parse rest = ([], rest) \<Longrightarrow>
    feed cs (out, rest) = (out @ fst (parse (rest @ concat cs)), snd (parse (rest @ concat cs)))"
proof (induction cs arbitrary: out rest)
  case (Cons c cs)
  have "parse (snd (parse (rest @ c))) = ([], snd (parse (rest @ c)))"
    using parse_append [of "rest @ c" "[]"] by (metis append_Nil2 append_self_conv fst_conv prod.collapse snd_conv)
  with Cons.IH [OF this] parse_append [of "rest @ c" "concat cs"] show ?case by simp
qed simp

lemma feed_concat: "feed cs ([], []) = parse (concat cs)"
  using feed_from [of "[]" cs "[]"] parse_Nil by simp

end

interpretation frames: incremental_parser frames_of
  by unfold_locales (simp add: frames_of_short, rule frames_of_append)

text \<open>
  The read pump, over the results of the websocket reads; a failed read ends it and closes the
  socket, messages that are not binary are skipped.
\<close>

datatype ws_read = ReadError | ReadOther | ReadBinary bytes

fun readPump :: "ws_read list \<Rightarrow> frame_socket \<Rightarrow> fs_error + frame_socket" where
  "readPump [] fs = Inr fs"
| "readPump (ReadError # reads) fs = fs_Close 0 fs"
| "readPump (ReadOther # reads) fs = readPump reads fs"
| "readPump (ReadBinary d # reads) fs = rbind (processData d fs) (readPump reads)"

fun binary_chunks :: "ws_read list \<Rightarrow> bytes list" where
  "binary_chunks [] = []"
| "binary_chunks (ReadBinary d # reads) = d # binary_chunks reads"
| "binary_chunks (_ # reads) = binary_chunks reads"

lemma readPump_feeds:
  "fs_ok fs \<Longrightarrow> ReadError \<notin> set reads \<Longrightarrow>
   \<exists>f. readPump reads fs = Inr f \<and> fs_ok f \<and>
     (Frames f, pending f) = frames.feed (binary_chunks reads) (Frames fs, pending fs)"
proof (induction reads fs rule: readPump.induct)
  case (4 d reads fs)
  from processData_refines [OF 4(2), of d] obtain f where
    f: "processData d fs = Inr f" "fs_ok f" "(Frames f, pending f) = stream_view d fs" by blast
  from 4(1) [OF f(1,2)] 4(3) f show ?case by (auto simp: stream_view_def)
qed auto

text \<open>
  C8: whatever the cutting of the incoming byte stream into websocket messages, and whatever
  non-binary messages come in between, the reassembly neither panics nor loops, and the frames
  delivered are those of the concatenated stream.
\<close>

theorem readPump_stream:
  assumes "fs_ok fs" and "ReadError \<notin> set reads"
  shows "\<exists>f. readPump reads fs = Inr f \<and> fs_ok f \<and>
    Frames f = Frames fs @ fst (frames_of (pending fs @ concat (binary_chunks reads))) \<and>
    pending f = snd (frames_of (pending fs @ concat (binary_chunks reads)))"
  using readPump_feeds [OF assms] frames.feed_from [OF pending_incomplete [OF assms(1)]] by force

theorem readPump_stream_witness:
  "\<exists>f. readPump [ReadBinary [0, 0], ReadOther, ReadBinary [2, 7], ReadBinary [8, 0]] (NewFrameSocket []) = Inr f \<and>
     Frames f = [[7, 8]] \<and> pending f = [0]"
proof -
  have "frames_of [0, 0, 2, 7, 8, 0] = ([[7, 8]], [0])"
    by (simp add: frames_of.simps frame_length_def)
  moreover have "pending (NewFrameSocket []) = []" "Frames (NewFrameSocket []) = []" "fs_ok (NewFrameSocket [])"
    by (simp_all add: pending_def fs_ok_def NewFrameSocket_def)
  ultimately show ?thesis
    using readPump_stream [of "NewFrameSocket []" "[ReadBinary [0, 0], ReadOther, ReadBinary [2, 7], ReadBinary [8, 0]]"]
    by auto
qed

section \<open>Sent frames are received\<close>

definition send_all :: "bytes list \<Rightarrow> frame_socket \<Rightarrow> frame_socket" where
  "send_all ds fs = fold (\<lambda>d fs. snd (SendFrame True d fs)) ds fs"

lemma send_all_written:
  "fs_conn fs \<Longrightarrow> \<forall>d \<in> set ds. length d < 2 ^ 24 \<Longrightarrow>
   concat (written (send_all ds fs)) = concat (written fs) @
     (if ds = [] then [] else case_option [] id (fs_Header fs)) @ concat (map (\<lambda>d. length_bytes (length d) @ d) ds)"
proof (induction ds arbitrary: fs)
  case (Cons d ds)
  let ?f = "snd (SendFrame True d fs)"
  have "fs_conn ?f" "fs_Header ?f = None" "concat (written ?f) = concat (written fs) @
      case_option [] id (fs_Header fs) @ length_bytes (length d) @ d"
    using Cons.prems by (simp_all add: SendFrame_def Let_def split: option.splits)
  with Cons.IH [of ?f] Cons.prems show ?case by (simp add: send_all_def)
qed (simp add: send_all_def)

lemma frames_of_sent:
  "\<forall>d \<in> set ds. length d < 2 ^ 24 \<Longrightarrow> frames_of (concat (map (\<lambda>d. length_bytes (length d) @ d) ds)) = (ds, [])"
proof (induction ds)
  case Nil
  then show ?case by (simp add: frames_of_short)
next
  case (Cons d ds)
  let ?bs = "length_bytes (length d) @ d @ concat (map (\<lambda>d. length_bytes (length d) @ d) ds)"
  have "frame_length ?bs = length d" using Cons.prems by (simp add: frame_length_length_bytes)
  with frames_of_long [of ?bs] Cons show ?case by simp
qed

text \<open>
  C9: everything sent on a fresh connected socket, with frames below the size limit, is written
  as the connection header once followed by the frames, and a peer that takes the header off and
  receives the rest in any cutting delivers exactly the frames that were sent, in order.
\<close>

theorem frame_transport:
  assumes "\<forall>d \<in> set ds. length d < FrameMaxSize" and "ds \<noteq> []"
    and "concat (written (send_all ds (snd (fs_Connect True (NewFrameSocket header))))) = header @ concat cs"
  shows "\<exists>f. readPump (map ReadBinary cs) (NewFrameSocket header') = Inr f \<and> Frames f = ds \<and> pending f = []"
proof -
  have "concat (written (send_all ds (snd (fs_Connect True (NewFrameSocket header))))) =
      header @ concat (map (\<lambda>d. length_bytes (length d) @ d) ds)"
    using assms(1,2) by (subst send_all_written) (simp_all add: fs_Connect_def NewFrameSocket_def)
  with assms(3) have cs: "concat cs = concat (map (\<lambda>d. length_bytes (length d) @ d) ds)" by simp
  have "binary_chunks (map ReadBinary cs) = cs" by (induction cs) simp_all
  moreover have "pending (NewFrameSocket header') = []" "Frames (NewFrameSocket header') = []"
    "fs_ok (NewFrameSocket header')"
    by (simp_all add: pending_def fs_ok_def NewFrameSocket_def)
  moreover from this(3) have "\<exists>f. readPump (map ReadBinary cs) (NewFrameSocket header') = Inr f \<and> fs_ok f \<and>
      (Frames f, pending f) = frames.feed (binary_chunks (map ReadBinary cs))
        (Frames (NewFrameSocket header'), pending (NewFrameSocket header'))"
    by (rule readPump_feeds) auto
  ultimately show ?thesis
    using frames.feed_concat [of cs] frames_of_sent [of ds] assms(1) cs by auto
qed

theorem frame_transport_witness:
  "\<exists>f. readPump (map ReadBinary [[0, 0, 2], [9, 9, 0, 0], [0]]) (NewFrameSocket [87]) = Inr f \<and>
     Frames f = [[9, 9], []] \<and> pending f = []"
  by (rule frame_transport [where header = "[87, 65]"])
    (simp_all add: send_all_def fs_Connect_def NewFrameSocket_def SendFrame_def length_bytes_def drop_bit_eq_div)

section \<open>Life cycle\<close>

inductive fs_step :: "frame_socket \<Rightarrow> frame_socket \<Rightarrow> bool" where
  connect: "fs_step s (snd (fs_Connect dialed s))"
| close: "fs_Close code s = Inr t \<Longrightarrow> fs_step s t"
| send: "fs_step s (snd (SendFrame write_ok d s))"
| receive: "processData d s = Inr t \<Longrightarrow> fs_step s t"
| handler: "fs_step s (SetOnDisconnect h s)"

definition fs_inv :: "frame_socket \<Rightarrow> bool" where
  "fs_inv s \<longleftrightarrow> fs_ok s \<and> (fs_conn s \<longrightarrow> fs_cancel s)"

lemma processData_step_keeps:
  "processData_step msg fs = Inr (m, f) \<Longrightarrow> fs_conn f = fs_conn fs \<and> fs_cancel f = fs_cancel fs"
  by (auto simp: processData_step_def take_partial_def start_frame_def continue_frame_def frameComplete_def
      Let_def rbind_eq_Inr split: option.splits if_splits)

lemma processData_keeps:
  "processData msg fs = Inr f \<Longrightarrow> fs_conn f = fs_conn fs \<and> fs_cancel f = fs_cancel fs"
proof (induction msg fs rule: processData.induct)
  case (1 msg fs)
  show ?case
  proof (cases "msg = []")
    case True
    with 1(2) show ?thesis by (simp add: processData.simps [of "[]"])
  next
    case False
    with 1(2) obtain m g where step: "processData_step msg fs = Inr (m, g)" and rest: "processData m g = Inr f"
      by (subst (asm) processData.simps) (simp split: sum.splits prod.splits)
    from 1(1) [OF False step refl rest] processData_step_keeps [OF step] show ?thesis by simp
  qed
qed

lemma fs_step_inv: "fs_step s t \<Longrightarrow> fs_inv s \<Longrightarrow> fs_inv t"
proof (induction rule: fs_step.induct)
  case (receive d s t)
  then show ?case using processData_refines [of s d] processData_keeps [of d s t] by (auto simp: fs_inv_def)
qed (auto simp: fs_inv_def fs_ok_def fs_Connect_def fs_Close_def SendFrame_def SetOnDisconnect_def Let_def
      split: if_splits option.splits)

lemma fs_inv_New: "fs_inv (NewFrameSocket header)"
  by (simp add: fs_inv_def fs_ok_def NewFrameSocket_def)

lemma reachable_fs_inv: "fs_step\<^sup>*\<^sup>* (NewFrameSocket header) s \<Longrightarrow> fs_inv s"
  by (induction rule: rtranclp_induct) (blast intro: fs_inv_New fs_step_inv)+

text \<open>
  C10: in every state a socket can reach by connecting, closing, sending, receiving and changing
  its handler, closing it does not call an unset cancel function, receiving does not panic, and a
  closed socket refuses to send.
\<close>

theorem frame_socket_safe:
  assumes "fs_step\<^sup>*\<^sup>* (NewFrameSocket header) s"
  shows "(\<exists>t. fs_Close code s = Inr t \<and> \<not> fs_conn t \<and> SendFrame ok d t = (Some ErrSocketClosed, t)) \<and>
    (\<exists>t. processData d s = Inr t)"
  using reachable_fs_inv [OF assms] processData_refines [of s d]
  by (auto simp: fs_inv_def fs_Close_def SendFrame_def Let_def)

theorem frame_socket_safe_witness:
  "\<exists>t. fs_Close 1000 (snd (fs_Connect True (NewFrameSocket [87]))) = Inr t \<and> \<not> fs_conn t"
proof -
  have "fs_step\<^sup>*\<^sup>* (NewFrameSocket [87]) (snd (fs_Connect True (NewFrameSocket [87])))"
    by (rule r_into_rtranclp) (rule fs_step.connect)
  from frame_socket_safe [OF this, of 1000 True "[]"] show ?thesis by blast
qed

end
