(* ===== verification/Crypto.thy ===== *)
theory Crypto
  imports Prelude
begin

text \<open>
  The cryptographic primitives the program calls (AES and GCM, SHA-2, HMAC, HKDF, Curve25519 and
  its signatures) as the fields of one record, the parameter of every definition that uses them,
  and the documented facts about them that theorems assume by name. On top of them the wrappers
  \<open>src/util/gcmutil/gcm.go\<close>, \<open>src/util/hkdfutil/hkdf.go\<close> and \<open>src/util/keys/keypair.go\<close>.
\<close>

unbundle bit_operations_syntax

section \<open>Primitives\<close>

record crypto =
  aes_encrypt :: "bytes \<Rightarrow> bytes \<Rightarrow> bytes"
  aes_decrypt :: "bytes \<Rightarrow> bytes \<Rightarrow> bytes"
  gcm_seal :: "bytes \<Rightarrow> bytes \<Rightarrow> bytes \<Rightarrow> bytes \<Rightarrow> bytes"
  gcm_open :: "bytes \<Rightarrow> bytes \<Rightarrow> bytes \<Rightarrow> bytes \<Rightarrow> bytes option"
  sha256 :: "bytes \<Rightarrow> bytes"
  hmac_sha256 :: "bytes \<Rightarrow> bytes \<Rightarrow> bytes"
  hmac_sha512 :: "bytes \<Rightarrow> bytes \<Rightarrow> bytes"
  hkdf_sha256 :: "bytes \<Rightarrow> bytes \<Rightarrow> bytes \<Rightarrow> nat \<Rightarrow> bytes"
  x25519 :: "bytes \<Rightarrow> bytes \<Rightarrow> bytes option"
  base_mult :: "bytes \<Rightarrow> bytes"
  sign_djb :: "bytes \<Rightarrow> bytes \<Rightarrow> bytes"
  verify_djb :: "bytes \<Rightarrow> bytes \<Rightarrow> bytes \<Rightarrow> bool"

text \<open>
  \<open>gcm_seal key iv plaintext additional\<close>; \<open>hkdf_sha256 key salt info n\<close> is the first \<open>n\<close> bytes of
  the output stream; \<open>verify_djb public message signature\<close>.
\<close>

definition block_size :: nat where
  "block_size = 16"

definition aes_key :: "bytes \<Rightarrow> bool" where
  "aes_key k \<longleftrightarrow> length k \<in> {16, 24, 32}"

text \<open>AES is a permutation of blocks for every key of a valid size.\<close>

definition aes_correct :: "crypto \<Rightarrow> bool" where
  "aes_correct c \<longleftrightarrow>
     (\<forall>k b. aes_key k \<longrightarrow> length b = block_size \<longrightarrow>
        length (aes_encrypt c k b) = block_size \<and> length (aes_decrypt c k b) = block_size \<and>
        aes_decrypt c k (aes_encrypt c k b) = b)"

text \<open>
  Opening what was sealed with the same key, nonce and additional data gives the plaintext; the
  ciphertext is 16 bytes longer.
\<close>

definition gcm_correct :: "crypto \<Rightarrow> bool" where
  "gcm_correct c \<longleftrightarrow>
     (\<forall>k iv p a. gcm_open c k iv (gcm_seal c k iv p a) a = Some p \<and>
        length (gcm_seal c k iv p a) = length p + 16)"

text \<open>HKDF yields as many bytes as asked for, up to 255 blocks of the hash.\<close>

definition hkdf_correct :: "crypto \<Rightarrow> bool" where
  "hkdf_correct c \<longleftrightarrow> (\<forall>k s i n. n \<le> 255 * 32 \<longrightarrow> length (hkdf_sha256 c k s i n) = n)"

definition sha_correct :: "crypto \<Rightarrow> bool" where
  "sha_correct c \<longleftrightarrow>
     (\<forall>d. length (sha256 c d) = 32) \<and> (\<forall>k d. length (hmac_sha256 c k d) = 32) \<and>
     (\<forall>k d. length (hmac_sha512 c k d) = 64)"

text \<open>Diffie-Hellman: both sides compute the same secret from their private and the other's public key.\<close>

definition dh_agrees :: "crypto \<Rightarrow> bytes \<Rightarrow> bytes \<Rightarrow> bool" where
  "dh_agrees c a b \<longleftrightarrow>
     (\<exists>s. x25519 c a (base_mult c b) = Some s \<and> x25519 c b (base_mult c a) = Some s)"

section \<open>GCM and HKDF wrappers\<close>

datatype crypto_error = KeySizeError nat | OpenFailed | HkdfShort nat nat

text \<open>A \<open>cipher.AEAD\<close> is its key.\<close>

definition Prepare :: "bytes \<Rightarrow> crypto_error + bytes" where
  "Prepare secretKey = (if aes_key secretKey then Inr secretKey else Inl (KeySizeError (length secretKey)))"

definition gcm_Decrypt :: "crypto \<Rightarrow> bytes \<Rightarrow> bytes \<Rightarrow> bytes \<Rightarrow> bytes \<Rightarrow> crypto_error + bytes" where
  "gcm_Decrypt c secretKey iv ciphertext additionalData =
     rbind (Prepare secretKey) (\<lambda>gcm.
       case gcm_open c gcm iv ciphertext additionalData of None \<Rightarrow> Inl OpenFailed | Some p \<Rightarrow> Inr p)"

definition gcm_Encrypt :: "crypto \<Rightarrow> bytes \<Rightarrow> bytes \<Rightarrow> bytes \<Rightarrow> bytes \<Rightarrow> crypto_error + bytes" where
  "gcm_Encrypt c secretKey iv plaintext additionalData =
     rbind (Prepare secretKey) (\<lambda>gcm. Inr (gcm_seal c gcm iv plaintext additionalData))"

definition hkdf_SHA256 :: "crypto \<Rightarrow> bytes \<Rightarrow> bytes \<Rightarrow> bytes \<Rightarrow> byte \<Rightarrow> crypto_error + bytes" where
  "hkdf_SHA256 c key salt info len =
     (let d = hkdf_sha256 c key salt info (unat len) in
      if (word_of_nat (length d) :: byte) \<noteq> len then Inl (HkdfShort (length d) (unat len)) else Inr d)"

lemma gcm_Decrypt_Encrypt:
  "gcm_correct c \<Longrightarrow> gcm_Encrypt c k iv p a = Inr e \<Longrightarrow> gcm_Decrypt c k iv e a = Inr p"
  by (auto simp: gcm_Encrypt_def gcm_Decrypt_def gcm_correct_def rbind_eq_Inr)

lemma hkdf_SHA256_ok:
  assumes "hkdf_correct c"
  shows "hkdf_SHA256 c k s i n = Inr (hkdf_sha256 c k s i (unat n))"
proof -
  have "unat n < 256" using unsigned_less [of n] by simp
  then have "length (hkdf_sha256 c k s i (unat n)) = unat n" using assms by (simp add: hkdf_correct_def)
  then show ?thesis by (simp add: hkdf_SHA256_def)
qed

section \<open>Key pairs\<close>

record KeyPair =
  Pub :: bytes
  Priv :: bytes

definition NewKeyPairFromPrivateKey :: "crypto \<Rightarrow> bytes \<Rightarrow> KeyPair" where
  "NewKeyPairFromPrivateKey c priv = \<lparr>Pub = base_mult c priv, Priv = priv\<rparr>"

text \<open>The clamped private key, from 32 random bytes.\<close>

definition NewKeyPair :: "crypto \<Rightarrow> bytes \<Rightarrow> KeyPair" where
  "NewKeyPair c random =
     (let priv = random[0 := random ! 0 AND 248];
          priv = priv[31 := priv ! 31 AND 127];
          priv = priv[31 := priv ! 31 OR 64]
      in NewKeyPairFromPrivateKey c priv)"

abbreviation (input) DjbType :: byte where
  "DjbType \<equiv> 5"

definition kp_Sign :: "crypto \<Rightarrow> KeyPair \<Rightarrow> KeyPair \<Rightarrow> bytes" where
  "kp_Sign c kp keyToSign = sign_djb c (Priv kp) (DjbType # Pub keyToSign)"

record PreKey = KeyPair +
  pk_KeyID :: "32 word"
  pk_Signature :: "bytes option"

definition NewPreKey :: "crypto \<Rightarrow> bytes \<Rightarrow> 32 word \<Rightarrow> PreKey" where
  "NewPreKey c random keyID =
     KeyPair.extend (NewKeyPair c random) \<lparr>pk_KeyID = keyID, pk_Signature = None\<rparr>"

definition CreateSignedPreKey :: "crypto \<Rightarrow> bytes \<Rightarrow> KeyPair \<Rightarrow> 32 word \<Rightarrow> PreKey" where
  "CreateSignedPreKey c random kp keyID =
     (let newKey = NewPreKey c random keyID
      in newKey\<lparr>pk_Signature := Some (kp_Sign c kp (KeyPair.truncate newKey))\<rparr>)"

text \<open>Clamping makes the private key a multiple of eight with the top bits 01, as the curve requires.\<close>

lemma NewKeyPair_clamped:
  assumes "length random = 32"
  shows "length (Priv (NewKeyPair c random)) = 32" and "Priv (NewKeyPair c random) ! 0 AND 7 = 0"
    and "Priv (NewKeyPair c random) ! 31 AND 192 = 64"
proof -
  have "(x AND 248) AND 7 = 0" for x :: byte by (simp add: and.assoc)
  moreover have "(y AND 127 OR 64) AND 192 = 64" for y :: byte
    by (simp add: and.assoc bit.conj_disj_distrib2)
  ultimately show "length (Priv (NewKeyPair c random)) = 32" "Priv (NewKeyPair c random) ! 0 AND 7 = 0"
    "Priv (NewKeyPair c random) ! 31 AND 192 = 64"
    using assms by (simp_all add: NewKeyPair_def NewKeyPairFromPrivateKey_def Let_def)
qed

section \<open>A concrete instance\<close>

text \<open>
  A record of functions that meets all of the named facts, so that they can hold together. It is
  no cipher.
\<close>

primrec sum_byte :: "bytes \<Rightarrow> byte" where
  "sum_byte [] = 0"
| "sum_byte (b # bs) = b + sum_byte bs"

lemma sum_byte_simps [simp]:
  "sum_byte (xs @ ys) = sum_byte xs + sum_byte ys" "sum_byte (replicate n 0) = 0"
  by (induction xs) (simp_all add: add.assoc, induction n, simp_all)

definition plain_crypto :: crypto where
  "plain_crypto =
     \<lparr>aes_encrypt = (\<lambda>k b. b), aes_decrypt = (\<lambda>k b. b),
      gcm_seal = (\<lambda>k iv p a. replicate 16 (sum_byte (k @ iv @ a)) @ p),
      gcm_open = (\<lambda>k iv e a. if length e \<ge> 16 \<and> take 16 e = replicate 16 (sum_byte (k @ iv @ a))
                            then Some (drop 16 e) else None),
      sha256 = (\<lambda>d. replicate 32 (sum_byte d)), hmac_sha256 = (\<lambda>k d. replicate 32 (sum_byte (k @ d))),
      hmac_sha512 = (\<lambda>k d. replicate 64 (sum_byte (k @ d))),
      hkdf_sha256 = (\<lambda>k s i n. replicate n (sum_byte (k @ s @ i))),
      x25519 = (\<lambda>a b. Some (map2 (+) a b)), base_mult = (\<lambda>a. a),
      sign_djb = (\<lambda>k m. replicate 64 (sum_byte (k @ m))),
      verify_djb = (\<lambda>p m s. s = replicate 64 (sum_byte (p @ m)))\<rparr>"

lemma plain_crypto_correct:
  "aes_correct plain_crypto" "gcm_correct plain_crypto" "hkdf_correct plain_crypto" "sha_correct plain_crypto"
  by (simp_all add: plain_crypto_def aes_correct_def gcm_correct_def hkdf_correct_def sha_correct_def)

lemma plain_gcm:
  "gcm_seal plain_crypto k iv p a = replicate 16 (sum_byte (k @ iv @ a)) @ p"
  "gcm_open plain_crypto k iv e a =
     (if length e \<ge> 16 \<and> take 16 e = replicate 16 (sum_byte (k @ iv @ a)) then Some (drop 16 e) else None)"
  by (simp_all add: plain_crypto_def)

lemma plain_dh: "length a = length b \<Longrightarrow> dh_agrees plain_crypto a b"
  by (simp add: plain_crypto_def dh_agrees_def zip_commute [of a b] comp_def add.commute split_beta)

end
