(* ===== verification/Noise.thy ===== *)
theory Noise
  imports Crypto FrameSocket
begin

text \<open>
  \<open>src/socket/noisehandshake.go\<close> and \<open>src/socket/noisesocket.go\<close>: the symmetric state of the Noise
  handshake and the encrypted socket that results from it. The nonce counters are 32-bit words and
  wrap as in Go. A send whose context is cancelled while the websocket write is still in flight is
  modelled as such: the ciphertext stays in \<open>in_flight\<close> until its goroutine runs.
\<close>

unbundle bit_operations_syntax

section \<open>The handshake state\<close>

record NoiseHandshake =
  nh_hash :: bytes
  nh_salt :: bytes
  nh_key :: "bytes option"
  nh_counter :: "32 word"

datatype noise_error =
    CipherFailed crypto_error
  | NilCipher
  | DecryptFailed
  | X25519Failed

definition NewNoiseHandshake :: NoiseHandshake where
  "NewNoiseHandshake = \<lparr>nh_hash = [], nh_salt = [], nh_key = None, nh_counter = 0\<rparr>"

definition generateIV :: "32 word \<Rightarrow> bytes" where
  "generateIV count =
     replicate 8 0 @ [ucast (drop_bit 24 count), ucast (drop_bit 16 count), ucast (drop_bit 8 count), ucast count]"

definition prepare_key :: "bytes \<Rightarrow> noise_error + bytes" where
  "prepare_key k = (case Prepare k of Inl e \<Rightarrow> Inl (CipherFailed e) | Inr g \<Rightarrow> Inr g)"

definition Authenticate :: "crypto \<Rightarrow> bytes \<Rightarrow> NoiseHandshake \<Rightarrow> NoiseHandshake" where
  "Authenticate c d nh = nh\<lparr>nh_hash := sha256 c (nh_hash nh @ d)\<rparr>"

definition Start :: "crypto \<Rightarrow> string \<Rightarrow> bytes \<Rightarrow> NoiseHandshake \<Rightarrow> noise_error + NoiseHandshake" where
  "Start c pattern header nh =
     (let d = bytes_of_string pattern;
          nh = nh\<lparr>nh_hash := if length d = 32 then d else sha256 c d\<rparr>;
          nh = nh\<lparr>nh_salt := nh_hash nh\<rparr>
      in rbind (prepare_key (nh_hash nh)) (\<lambda>key. Inr (Authenticate c header (nh\<lparr>nh_key := Some key\<rparr>))))"

definition postIncrementCounter :: "NoiseHandshake \<Rightarrow> 32 word \<times> NoiseHandshake" where
  "postIncrementCounter nh = (let count = nh_counter nh + 1 in (count - 1, nh\<lparr>nh_counter := count\<rparr>))"

definition nh_Encrypt :: "crypto \<Rightarrow> bytes \<Rightarrow> NoiseHandshake \<Rightarrow> noise_error + (bytes \<times> NoiseHandshake)" where
  "nh_Encrypt c plaintext nh =
     (case nh_key nh of
        None \<Rightarrow> Inl NilCipher
      | Some key \<Rightarrow>
          (let (count, nh) = postIncrementCounter nh;
               ciphertext = gcm_seal c key (generateIV count) plaintext (nh_hash nh)
           in Inr (ciphertext, Authenticate c ciphertext nh)))"

text \<open>The counter advances whether or not the ciphertext opens; the hash only when it does.\<close>

definition nh_Decrypt :: "crypto \<Rightarrow> bytes \<Rightarrow> NoiseHandshake \<Rightarrow> (noise_error + bytes) \<times> NoiseHandshake" where
  "nh_Decrypt c ciphertext nh =
     (case nh_key nh of
        None \<Rightarrow> (Inl NilCipher, nh)
      | Some key \<Rightarrow>
          (let (count, nh) = postIncrementCounter nh in
           case gcm_open c key (generateIV count) ciphertext (nh_hash nh) of
             None \<Rightarrow> (Inl DecryptFailed, nh)
           | Some plaintext \<Rightarrow> (Inr plaintext, Authenticate c ciphertext nh)))"

definition extractAndExpand :: "crypto \<Rightarrow> bytes \<Rightarrow> bytes \<Rightarrow> bytes \<times> bytes" where
  "extractAndExpand c salt d = (let h = hkdf_sha256 c d salt [] 64 in (take 32 h, drop 32 h))"

definition MixIntoKey :: "crypto \<Rightarrow> bytes \<Rightarrow> NoiseHandshake \<Rightarrow> noise_error + NoiseHandshake" where
  "MixIntoKey c d nh =
     (let nh = nh\<lparr>nh_counter := 0\<rparr>; (wr, rd) = extractAndExpand c (nh_salt nh) d; nh = nh\<lparr>nh_salt := wr\<rparr>
      in rbind (prepare_key rd) (\<lambda>key. Inr (nh\<lparr>nh_key := Some key\<rparr>)))"

definition MixSharedSecretIntoKey :: "crypto \<Rightarrow> bytes \<Rightarrow> bytes \<Rightarrow> NoiseHandshake \<Rightarrow> noise_error + NoiseHandshake" where
  "MixSharedSecretIntoKey c priv pub nh =
     (case x25519 c priv pub of None \<Rightarrow> Inl X25519Failed | Some secret \<Rightarrow> MixIntoKey c secret nh)"

section \<open>The encrypted socket\<close>

record NoiseSocket =
  ns_fs :: frame_socket
  writeKey :: bytes
  readKey :: bytes
  writeCounter :: "32 word"
  readCounter :: "32 word"
  ns_destroyed :: bool
  stopConsumer :: bool
  in_flight :: "bytes list"
  onFrame :: "bytes list"

definition newNoiseSocket :: "frame_socket \<Rightarrow> bytes \<Rightarrow> bytes \<Rightarrow> NoiseSocket" where
  "newNoiseSocket fs wk rk =
     \<lparr>ns_fs = SetOnDisconnect True fs, writeKey = wk, readKey = rk, writeCounter = 0, readCounter = 0,
      ns_destroyed = False, stopConsumer = False, in_flight = [], onFrame = []\<rparr>"

text \<open>With no key material to mix, \<open>Finish\<close> splits the chaining key into the two transport keys.\<close>

definition Finish :: "crypto \<Rightarrow> NoiseHandshake \<Rightarrow> frame_socket \<Rightarrow> noise_error + NoiseSocket" where
  "Finish c nh fs =
     (let (wr, rd) = extractAndExpand c (nh_salt nh) [] in
      rbind (prepare_key wr) (\<lambda>wk. rbind (prepare_key rd) (\<lambda>rk. Inr (newNoiseSocket fs wk rk))))"

abbreviation (input) StatusNormalClosure :: nat where
  "StatusNormalClosure \<equiv> 1000"

definition ns_Stop :: "bool \<Rightarrow> bool \<Rightarrow> NoiseSocket \<Rightarrow> fs_error + NoiseSocket" where
  "ns_Stop disconnect allowOnDisconnect ns =
     (if ns_destroyed ns then Inr ns
      else
        (let ns = ns\<lparr>ns_destroyed := True, stopConsumer := True\<rparr>;
             ns = (if \<not> allowOnDisconnect then ns\<lparr>ns_fs := SetOnDisconnect False (ns_fs ns)\<rparr> else ns)
         in if disconnect
            then rbind (fs_Close StatusNormalClosure (ns_fs ns)) (\<lambda>fs. Inr (ns\<lparr>ns_fs := fs\<rparr>))
            else Inr ns))"

text \<open>
  How the caller's context and the write goroutine interact in one \<open>SendFrame\<close>: the context is done
  before, the write finishes first (with the given outcome), or the context is done while the
  goroutine has not written yet.
\<close>

datatype send_ctx = CtxDoneBefore | WriteFinishes bool | CtxDoneDuring

datatype send_error = CtxErr | FsErr fs_error

definition ns_seal :: "crypto \<Rightarrow> bytes \<Rightarrow> NoiseSocket \<Rightarrow> bytes \<times> NoiseSocket" where
  "ns_seal c plaintext ns =
     (gcm_seal c (writeKey ns) (generateIV (writeCounter ns)) plaintext [], ns\<lparr>writeCounter := writeCounter ns + 1\<rparr>)"

definition ns_SendFrame ::
  "crypto \<Rightarrow> send_ctx \<Rightarrow> bytes \<Rightarrow> NoiseSocket \<Rightarrow> send_error option \<times> NoiseSocket" where
  "ns_SendFrame c ctx plaintext ns =
     (if ctx = CtxDoneBefore then (Some CtxErr, ns)
      else
        (let (ciphertext, ns) = ns_seal c plaintext ns
         in case ctx of
              WriteFinishes ok \<Rightarrow>
                (let (err, fs) = SendFrame ok ciphertext (ns_fs ns)
                 in (map_option FsErr err, ns\<lparr>ns_fs := fs\<rparr>))
            | _ \<Rightarrow> (Some CtxErr, ns\<lparr>in_flight := in_flight ns @ [ciphertext]\<rparr>)))"

text \<open>A goroutine left behind by a cancelled send performs its write.\<close>

definition finish_write :: "nat \<Rightarrow> bool \<Rightarrow> NoiseSocket \<Rightarrow> NoiseSocket" where
  "finish_write i ok ns =
     (if i < length (in_flight ns) then
        (let (err, fs) = SendFrame ok (in_flight ns ! i) (ns_fs ns)
         in ns\<lparr>ns_fs := fs, in_flight := take i (in_flight ns) @ drop (Suc i) (in_flight ns)\<rparr>)
      else ns)"

definition receiveEncryptedFrame :: "crypto \<Rightarrow> bytes \<Rightarrow> NoiseSocket \<Rightarrow> NoiseSocket" where
  "receiveEncryptedFrame c ciphertext ns =
     (let r = gcm_open c (readKey ns) (generateIV (readCounter ns)) ciphertext [];
          ns = ns\<lparr>readCounter := readCounter ns + 1\<rparr>
      in case r of None \<Rightarrow> ns | Some plaintext \<Rightarrow> ns\<lparr>onFrame := onFrame ns @ [plaintext]\<rparr>)"

text \<open>The consumer loop over the events of its \<open>select\<close>.\<close>

datatype consume_event = GotFrame bytes | CtxDone | StopChan

fun consumeFrames :: "crypto \<Rightarrow> consume_event list \<Rightarrow> NoiseSocket \<Rightarrow> NoiseSocket" where
  "consumeFrames c [] ns = ns"
| "consumeFrames c (GotFrame frame # evs) ns = consumeFrames c evs (receiveEncryptedFrame c frame ns)"
| "consumeFrames c (_ # evs) ns = ns"

definition ns_IsConnected :: "NoiseSocket \<Rightarrow> bool" where
  "ns_IsConnected ns = IsConnected (ns_fs ns)"

section \<open>Nonces\<close>

lemma ucast_bits:
  assumes "(ucast (drop_bit k a) :: byte) = ucast (drop_bit k (b :: 32 word))" and "i < 8"
  shows "bit a (k + i) = bit b (k + i)"
proof -
  have "bit (ucast (drop_bit k a) :: byte) i = bit (ucast (drop_bit k b) :: byte) i" using assms(1) by simp
  with assms(2) show ?thesis by (simp add: bit_ucast_iff bit_drop_bit_eq)
qed

lemma generateIV_inj:
  assumes "generateIV a = generateIV b"
  shows "a = b"
proof (rule bit_word_eqI)
  fix n
  assume "n < LENGTH(32)"
  then consider "n < 8" | "8 \<le> n" "n < 16" | "16 \<le> n" "n < 24" | "24 \<le> n" "n < 32" by force
  moreover have "(ucast (drop_bit 24 a) :: byte) = ucast (drop_bit 24 b)"
    "(ucast (drop_bit 16 a) :: byte) = ucast (drop_bit 16 b)"
    "(ucast (drop_bit 8 a) :: byte) = ucast (drop_bit 8 b)"
    "(ucast (drop_bit 0 a) :: byte) = ucast (drop_bit 0 b)"
    using assms by (simp_all add: generateIV_def)
  ultimately show "bit a n = bit b n"
    using ucast_bits [of 24 a b "n - 24"] ucast_bits [of 16 a b "n - 16"] ucast_bits [of 8 a b "n - 8"]
      ucast_bits [of 0 a b n]
    by cases auto
qed

text \<open>The sequence of ciphertexts for a list of plaintexts, from a counter value on.\<close>

fun seal_seq :: "crypto \<Rightarrow> bytes \<Rightarrow> 32 word \<Rightarrow> bytes list \<Rightarrow> bytes list" where
  "seal_seq c k n [] = []"
| "seal_seq c k n (p # ps) = gcm_seal c k (generateIV n) p [] # seal_seq c k (n + 1) ps"

definition send_list :: "crypto \<Rightarrow> bytes list \<Rightarrow> NoiseSocket \<Rightarrow> NoiseSocket" where
  "send_list c ps ns = fold (\<lambda>p ns. snd (ns_SendFrame c (WriteFinishes True) p ns)) ps ns"

lemma send_list_fs:
  "ns_fs (send_list c ps ns) = send_all (seal_seq c (writeKey ns) (writeCounter ns) ps) (ns_fs ns)"
proof (induction ps arbitrary: ns)
  case (Cons p ps)
  let ?ns = "snd (ns_SendFrame c (WriteFinishes True) p ns)"
  have "ns_fs ?ns = snd (SendFrame True (gcm_seal c (writeKey ns) (generateIV (writeCounter ns)) p []) (ns_fs ns))"
    "writeKey ?ns = writeKey ns" "writeCounter ?ns = writeCounter ns + 1"
    by (simp_all add: ns_SendFrame_def ns_seal_def Let_def split_beta)
  with Cons.IH [of ?ns] show ?case by (simp add: send_list_def send_all_def)
qed (simp add: send_list_def send_all_def)

lemma consume_sealed:
  "gcm_correct c \<Longrightarrow>
   onFrame (consumeFrames c (map GotFrame (seal_seq c (readKey ns) (readCounter ns) ps)) ns) = onFrame ns @ ps"
proof (induction ps arbitrary: ns)
  case (Cons p ps)
  let ?ns = "receiveEncryptedFrame c (gcm_seal c (readKey ns) (generateIV (readCounter ns)) p []) ns"
  have "onFrame ?ns = onFrame ns @ [p]" "readKey ?ns = readKey ns" "readCounter ?ns = readCounter ns + 1"
    using Cons.prems by (simp_all add: receiveEncryptedFrame_def gcm_correct_def)
  with Cons.IH [OF Cons.prems, of ?ns] show ?case by simp
qed simp

lemma seal_seq_length:
  "gcm_correct c \<Longrightarrow> \<forall>p \<in> set ps. length p + 16 < m \<Longrightarrow> \<forall>d \<in> set (seal_seq c k n ps). length d < m"
  by (induction ps arbitrary: n) (auto simp: gcm_correct_def)

text \<open>
  C11: plaintexts sent over a new encrypted socket reach the peer's frame handler unchanged and in
  order, whatever the cutting of the byte stream, when the peer reads with the key the sender
  writes with and no send is cancelled in flight. The counters may wrap.
\<close>

theorem noise_transport:
  assumes "gcm_correct c" and "\<forall>p \<in> set ps. length p + 16 < FrameMaxSize"
    and "fs_conn fs" "fs_Header fs = None"
    and "concat (written (ns_fs (send_list c ps (newNoiseSocket fs k r)))) = concat (written fs) @ concat cs"
    and "fs_ok gs" "pending gs = []" "Frames gs = []"
  shows "\<exists>f. readPump (map ReadBinary cs) gs = Inr f \<and>
    onFrame (consumeFrames c (map GotFrame (Frames f)) (newNoiseSocket f r' k)) = ps"
proof -
  let ?ds = "seal_seq c k 0 ps"
  note short = seal_seq_length [OF assms(1,2), of k 0]
  have "ns_fs (send_list c ps (newNoiseSocket fs k r)) = send_all ?ds (SetOnDisconnect True fs)"
    by (simp add: send_list_fs newNoiseSocket_def)
  with send_all_written [of "SetOnDisconnect True fs" ?ds] short assms(3-5)
  have "concat cs = concat (map (\<lambda>d. length_bytes (length d) @ d) ?ds)"
    by (simp add: SetOnDisconnect_def split: if_splits)
  then have cs: "frames_of (concat cs) = (?ds, [])" using frames_of_sent [OF short] by simp
  have bin: "binary_chunks (map ReadBinary cs) = cs" by (induction cs) simp_all
  from readPump_feeds [OF assms(6), of "map ReadBinary cs"] frames.feed_concat [of cs] cs assms(7,8) bin
  obtain f where "readPump (map ReadBinary cs) gs = Inr f" "Frames f = ?ds" by auto
  with consume_sealed [OF assms(1), of "newNoiseSocket f r' k" ps] show ?thesis
    by (simp add: newNoiseSocket_def)
qed

lemma connected_example:
  "fs_conn (snd (SendFrame True [] (snd (fs_Connect True (NewFrameSocket [87])))))"
  "fs_Header (snd (SendFrame True [] (snd (fs_Connect True (NewFrameSocket [87]))))) = None"
  by (simp_all add: SendFrame_def fs_Connect_def NewFrameSocket_def)

theorem noise_transport_witness:
  "\<exists>f. readPump (map ReadBinary [[0, 0], 18 # replicate 16 0 @ [1, 2]]) (NewFrameSocket [87]) = Inr f \<and>
     onFrame (consumeFrames plain_crypto (map GotFrame (Frames f)) (newNoiseSocket f [] [])) = [[1, 2]]"
  by (rule noise_transport [where fs = "snd (SendFrame True [] (snd (fs_Connect True (NewFrameSocket [87]))))"
        and r = "[]"])
    (simp_all add: plain_crypto_correct connected_example send_list_def ns_SendFrame_def ns_seal_def newNoiseSocket_def
      SendFrame_def fs_Connect_def NewFrameSocket_def SetOnDisconnect_def length_bytes_def drop_bit_eq_div
      plain_gcm generateIV_def fs_ok_def pending_def)

text \<open>
  A run of sends with any contexts, interleaved with the writes of goroutines left behind; the
  plaintexts it seals and the ciphertexts it gets for them, in order.
\<close>

datatype noise_act = SendStep send_ctx bytes | WriteStep nat bool

fun noise_step :: "crypto \<Rightarrow> noise_act \<Rightarrow> NoiseSocket \<Rightarrow> NoiseSocket" where
  "noise_step c (SendStep ctx p) ns = snd (ns_SendFrame c ctx p ns)"
| "noise_step c (WriteStep i ok) ns = finish_write i ok ns"

fun seals :: "noise_act \<Rightarrow> bytes list" where
  "seals (SendStep ctx p) = (if ctx = CtxDoneBefore then [] else [p])"
| "seals (WriteStep i ok) = []"

fun sealed_run :: "crypto \<Rightarrow> noise_act list \<Rightarrow> NoiseSocket \<Rightarrow> bytes list" where
  "sealed_run c [] ns = []"
| "sealed_run c (st # steps) ns = map (\<lambda>p. fst (ns_seal c p ns)) (seals st) @ sealed_run c steps (noise_step c st ns)"

definition framed :: "bytes \<Rightarrow> bytes \<Rightarrow> bool" where
  "framed d m \<longleftrightarrow> (\<exists>h. m = h @ length_bytes (length d) @ d)"

lemma SendFrame_written: "m \<in> set (written (snd (SendFrame ok d fs))) \<Longrightarrow> m \<in> set (written fs) \<or> framed d m"
  by (auto simp: SendFrame_def framed_def Let_def split: if_splits option.splits)

lemma noise_step_keeps:
  "writeKey (noise_step c st ns) = writeKey ns"
  "writeCounter (noise_step c st ns) = writeCounter ns + word_of_nat (length (seals st))"
  by (cases st; auto simp: ns_SendFrame_def ns_seal_def finish_write_def Let_def split_beta split: send_ctx.splits)+

lemma noise_step_emits:
  "d \<in> set (in_flight (noise_step c st ns)) \<Longrightarrow> d \<in> set (in_flight ns) \<or> d \<in> set (map (\<lambda>p. fst (ns_seal c p ns)) (seals st))"
  "m \<in> set (written (ns_fs (noise_step c st ns))) \<Longrightarrow> m \<in> set (written (ns_fs ns)) \<or>
     (\<exists>d \<in> set (in_flight ns) \<union> set (map (\<lambda>p. fst (ns_seal c p ns)) (seals st)). framed d m)"
  by (cases st; auto simp: ns_SendFrame_def ns_seal_def finish_write_def Let_def split_beta
      dest!: SendFrame_written dest: in_set_takeD in_set_dropD split: send_ctx.splits if_splits)+

lemma sealed_run_nonces:
  "sealed_run c steps ns =
     map2 (\<lambda>i p. gcm_seal c (writeKey ns) (generateIV (writeCounter ns + word_of_nat i)) p [])
       [0..<length (concat (map seals steps))] (concat (map seals steps))"
proof (induction steps arbitrary: ns)
  case (Cons st steps)
  let ?n = "length (seals st)" and ?ps = "concat (map seals steps)"
  have tail: "map2 (\<lambda>i p. gcm_seal c (writeKey ns) (generateIV (writeCounter ns + word_of_nat i)) p [])
      [?n..<?n + length ?ps] ?ps = sealed_run c steps (noise_step c st ns)"
    unfolding Cons.IH noise_step_keeps
    by (rule nth_equalityI) (simp_all add: add.assoc)
  have head: "map (\<lambda>p. fst (ns_seal c p ns)) (seals st) =
      map2 (\<lambda>i p. gcm_seal c (writeKey ns) (generateIV (writeCounter ns + word_of_nat i)) p []) [0..<?n] (seals st)"
    by (cases st) (simp_all add: ns_seal_def)
  have "[0..<?n + length ?ps] = [0..<?n] @ [?n..<?n + length ?ps]" by (rule upt_add_eq_append) simp
  then show ?case unfolding sealed_run.simps head tail [symmetric] by simp
qed simp

lemma sealed_run_emits:
  assumes "ns' = fold (noise_step c) steps ns"
  shows "set (in_flight ns') \<subseteq> set (in_flight ns) \<union> set (sealed_run c steps ns)"
    and "\<forall>m \<in> set (written (ns_fs ns')). m \<in> set (written (ns_fs ns)) \<or>
      (\<exists>d \<in> set (in_flight ns) \<union> set (sealed_run c steps ns). framed d m)"
proof -
  have "set (in_flight (fold (noise_step c) steps ns)) \<subseteq> set (in_flight ns) \<union> set (sealed_run c steps ns) \<and>
    (\<forall>m \<in> set (written (ns_fs (fold (noise_step c) steps ns))). m \<in> set (written (ns_fs ns)) \<or>
      (\<exists>d \<in> set (in_flight ns) \<union> set (sealed_run c steps ns). framed d m))"
  proof (induction steps arbitrary: ns)
    case (Cons st steps)
    note ih = Cons.IH [of "noise_step c st ns"]
    note one = noise_step_emits [of _ c st ns]
    show ?case
    proof (intro conjI ballI subsetI)
      fix d
      assume "d \<in> set (in_flight (fold (noise_step c) (st # steps) ns))"
      then show "d \<in> set (in_flight ns) \<union> set (sealed_run c (st # steps) ns)" using ih one(1) by fastforce
    next
      fix m
      assume "m \<in> set (written (ns_fs (fold (noise_step c) (st # steps) ns)))"
      then consider "m \<in> set (written (ns_fs (noise_step c st ns)))"
        | d where "d \<in> set (in_flight (noise_step c st ns)) \<union> set (sealed_run c steps (noise_step c st ns))" "framed d m"
        using ih by auto
      then show "m \<in> set (written (ns_fs ns)) \<or>
          (\<exists>d \<in> set (in_flight ns) \<union> set (sealed_run c (st # steps) ns). framed d m)"
      proof cases
        case 1
        then show ?thesis using one(2) [of m] by auto
      next
        case 2
        then have "d \<in> set (in_flight ns) \<union> set (sealed_run c (st # steps) ns)" using one(1) [of d] by auto
        with 2(2) show ?thesis by blast
      qed
    qed
  qed simp
  with assms show "set (in_flight ns') \<subseteq> set (in_flight ns) \<union> set (sealed_run c steps ns)"
    and "\<forall>m \<in> set (written (ns_fs ns')). m \<in> set (written (ns_fs ns)) \<or>
      (\<exists>d \<in> set (in_flight ns) \<union> set (sealed_run c steps ns). framed d m)" by blast+
qed

text \<open>
  C12: no two frames of an encrypted socket are sealed with the same nonce. For every run of sends,
  cancelled, refused and failed ones included, that seals at most \<open>2 ^ 32\<close> plaintexts, there are
  pairwise different nonces, the same for every cipher and key, with which the plaintexts are sealed
  one after the other; and everything the run writes or leaves in flight is one of these ciphertexts.
\<close>

theorem nonces_distinct:
  assumes "length (concat (map seals steps)) \<le> 2 ^ 32"
  shows "\<exists>nonces. distinct nonces \<and> length nonces = length (concat (map seals steps)) \<and>
    (\<forall>c fs k r. let ns = newNoiseSocket fs k r; ns' = fold (noise_step c) steps ns;
        sealed = map2 (\<lambda>n p. gcm_seal c k n p []) nonces (concat (map seals steps))
      in sealed_run c steps ns = sealed \<and> set (in_flight ns') \<subseteq> set sealed \<and>
         (\<forall>m \<in> set (written (ns_fs ns')). m \<in> set (written fs) \<or> (\<exists>d \<in> set sealed. framed d m)))"
proof -
  let ?n = "length (concat (map seals steps))"
  define nonces where "nonces = map (\<lambda>i. generateIV (word_of_nat i)) [0..<?n]"
  have "i = j" if "i < ?n" "j < ?n" "(word_of_nat i :: 32 word) = word_of_nat j" for i j
    using that assms by (simp add: word_unat_eq_iff unsigned_of_nat take_bit_nat_eq_self)
  then have "distinct nonces"
    by (auto simp: nonces_def distinct_map inj_on_def dest!: generateIV_inj)
  moreover have run: "sealed_run c steps (newNoiseSocket fs k r) =
      map2 (\<lambda>n p. gcm_seal c k n p []) nonces (concat (map seals steps))" for c fs k r
    unfolding sealed_run_nonces nonces_def by (rule nth_equalityI) (simp_all add: newNoiseSocket_def)
  moreover have "length nonces = ?n" by (simp add: nonces_def)
  moreover have "set (in_flight (fold (noise_step c) steps (newNoiseSocket fs k r))) \<subseteq>
        set (map2 (\<lambda>n p. gcm_seal c k n p []) nonces (concat (map seals steps)))"
      "\<forall>m \<in> set (written (ns_fs (fold (noise_step c) steps (newNoiseSocket fs k r)))). m \<in> set (written fs) \<or>
        (\<exists>d \<in> set (map2 (\<lambda>n p. gcm_seal c k n p []) nonces (concat (map seals steps))). framed d m)" for c fs k r
    unfolding run [of c fs k r, symmetric] using sealed_run_emits [OF refl, of c steps "newNoiseSocket fs k r"]
    by (simp_all add: newNoiseSocket_def SetOnDisconnect_def)
  ultimately show ?thesis unfolding Let_def by blast
qed

definition cancelled_steps :: "noise_act list" where
  "cancelled_steps = [SendStep CtxDoneDuring [1], SendStep CtxDoneBefore [3], SendStep CtxDoneDuring [2], WriteStep 1 True]"

theorem nonces_distinct_witness:
  "\<exists>nonces. distinct nonces \<and> length nonces = 2 \<and>
     sealed_run plain_crypto cancelled_steps (newNoiseSocket (NewFrameSocket []) [] []) =
       map2 (\<lambda>n p. gcm_seal plain_crypto [] n p []) nonces [[1], [2]]"
proof -
  have "concat (map seals cancelled_steps) = [[1], [2]]" by (simp add: cancelled_steps_def)
  with nonces_distinct [of cancelled_steps] show ?thesis by (auto simp: Let_def)
qed

section \<open>Sends that fail or are cancelled\<close>

text \<open>
  C13: a frame over the size limit is refused with nothing written and the connection kept, but
  the nonce counter has moved on: from then on it is one ahead of the number of frames written.
\<close>

theorem oversized_frame_skips_nonce:
  assumes "gcm_correct c" and "fs_conn (ns_fs ns)" and "length p + 16 \<ge> FrameMaxSize"
  shows "ns_SendFrame c (WriteFinishes ok) p ns =
    (Some (FsErr ErrFrameTooLarge), ns\<lparr>writeCounter := writeCounter ns + 1\<rparr>)"
  using assms by (simp add: ns_SendFrame_def ns_seal_def SendFrame_def Let_def gcm_correct_def)

theorem oversized_frame_skips_nonce_witness:
  "fst (ns_SendFrame plain_crypto (WriteFinishes True) (replicate (2 ^ 24) 0)
     (newNoiseSocket (snd (fs_Connect True (NewFrameSocket []))) [] [])) = Some (FsErr ErrFrameTooLarge)"
  by (subst oversized_frame_skips_nonce)
    (simp_all add: plain_crypto_correct newNoiseSocket_def fs_Connect_def NewFrameSocket_def SetOnDisconnect_def)

text \<open>A send of \<open>p\<close> is cancelled in flight, \<open>q\<close> is sent, and then the first goroutine writes.\<close>

definition overtaken :: "crypto \<Rightarrow> bytes \<Rightarrow> bytes \<Rightarrow> NoiseSocket \<Rightarrow> NoiseSocket" where
  "overtaken c p q ns =
     finish_write 0 True (snd (ns_SendFrame c (WriteFinishes True) q (snd (ns_SendFrame c CtxDoneDuring p ns))))"

text \<open>
  C14: a send cancelled while its write is in flight lets the next send overtake it. On any connected
  socket and for any two plaintexts within the size limit the two frames are written in the wrong
  order. A peer that was in step, and whose cipher opens neither frame with the other's nonce, drops
  both of them although it would have delivered both in the right order, and is in step again after
  that.
\<close>

theorem cancelled_send_reorders:
  assumes "gcm_correct c" and "fs_conn (ns_fs ns)" "fs_Header (ns_fs ns) = None" "in_flight ns = []"
    and "length p + 16 < FrameMaxSize" "length q + 16 < FrameMaxSize"
    and "readKey peer = writeKey ns" "readCounter peer = writeCounter ns"
    and "e = gcm_seal c (writeKey ns) (generateIV (writeCounter ns)) p []"
    and "f = gcm_seal c (writeKey ns) (generateIV (writeCounter ns + 1)) q []"
    and "gcm_open c (writeKey ns) (generateIV (writeCounter ns)) f [] = None"
    and "gcm_open c (writeKey ns) (generateIV (writeCounter ns + 1)) e [] = None"
  shows "written (ns_fs (overtaken c p q ns)) = written (ns_fs ns) @ [length_bytes (length f) @ f, length_bytes (length e) @ e] \<and>
    onFrame (consumeFrames c [GotFrame f, GotFrame e] peer) = onFrame peer \<and>
    onFrame (consumeFrames c [GotFrame e, GotFrame f] peer) = onFrame peer @ [p, q] \<and>
    readCounter (consumeFrames c [GotFrame f, GotFrame e] peer) = writeCounter (overtaken c p q ns)"
  using assms
  by (simp add: overtaken_def finish_write_def ns_SendFrame_def ns_seal_def SendFrame_def receiveEncryptedFrame_def
      gcm_correct_def Let_def)

theorem cancelled_send_reorders_witness:
  "\<exists>ns peer e f. written (ns_fs (overtaken plain_crypto [1] [2] ns)) =
      written (ns_fs ns) @ [length_bytes (length f) @ f, length_bytes (length e) @ e] \<and>
    onFrame (consumeFrames plain_crypto [GotFrame f, GotFrame e] peer) = onFrame peer \<and>
    onFrame (consumeFrames plain_crypto [GotFrame e, GotFrame f] peer) = onFrame peer @ [[1], [2]]"
proof -
  let ?fs = "snd (SendFrame True [] (snd (fs_Connect True (NewFrameSocket [87]))))"
  let ?ns = "newNoiseSocket ?fs [] []"
  have "fs_conn (ns_fs ?ns)" "fs_Header (ns_fs ?ns) = None"
    using connected_example by (simp_all add: newNoiseSocket_def SetOnDisconnect_def)
  with cancelled_send_reorders [of plain_crypto ?ns "[1]" "[2]" "newNoiseSocket ?fs [] []", OF _ _ _ _ _ _ _ _ refl refl]
  show ?thesis
    by (intro exI [of _ ?ns] exI) (auto simp: plain_crypto_correct plain_gcm newNoiseSocket_def generateIV_def)
qed

end
