(* ===== verification/Handshake.thy ===== *)
theory Handshake
  imports Noise
begin

text \<open>
  \<open>src/handshake.go\<close>: the client's side of the Noise XX handshake and the verification of the
  server's certificate chain. The protobuf messages are parameters (\<open>hs_proto\<close>): what matters of them
  is which fields they carry. The server is not part of the program; its side is written here with
  the same handshake state, as the specification the client has to agree with.
\<close>

section \<open>Messages and certificates\<close>

record server_hello =
  sh_Ephemeral :: bytes
  sh_Static :: "bytes option"
  sh_Payload :: "bytes option"

record cert_chain =
  int_Details :: "bytes option"
  int_Signature :: "bytes option"
  leaf_Details :: "bytes option"
  leaf_Signature :: "bytes option"

record cert_details =
  cd_Serial :: "32 word"
  cd_IssuerSerial :: "32 word"
  cd_Key :: bytes
  cd_NotBefore :: "64 word"
  cd_NotAfter :: "64 word"

record hs_proto =
  put_client_hello :: "bytes \<Rightarrow> bytes option"
  get_server_hello :: "bytes \<Rightarrow> server_hello option"
  put_client_finish :: "bytes \<Rightarrow> bytes \<Rightarrow> bytes option"
  get_cert_chain :: "bytes \<Rightarrow> cert_chain option"
  get_cert_details :: "bytes \<Rightarrow> cert_details option"

datatype hs_error =
    MarshalFailed
  | SendFailed fs_error
  | ResponseTimeout
  | UnmarshalFailed
  | MissingParts
  | NoiseFailed noise_error
  | BadStaticLength nat
  | NilClientPayload
  | CertMissingParts
  | CertBadSignatureLength nat
  | CertBadSignature
  | CertBadIssuerSerial
  | CertBadKeyLength nat
  | CertKeyMismatch
  | CertNotYetValid
  | CertExpired

abbreviation (input) WACertIssuerSerial :: "32 word" where
  "WACertIssuerSerial \<equiv> 0"

text \<open>
  Times are nanoseconds since the epoch. \<open>int64(x)\<close> reads the unsigned field as signed, and \<open>time.Unix\<close>
  keeps seconds since the year 1 in an \<open>int64\<close>, so that adding the offset wraps around.
\<close>

definition time_Unix :: "64 word \<Rightarrow> int" where
  "time_Unix sec = (sint (sec + 62135596800) - 62135596800) * 10 ^ 9"

definition checkCertValidity :: "int \<Rightarrow> cert_details \<Rightarrow> hs_error + unit" where
  "checkCertValidity now cert =
     (let notBefore = time_Unix (cd_NotBefore cert); notAfter = time_Unix (cd_NotAfter cert) in
      if now < notBefore then Inl CertNotYetValid
      else if now > notAfter then Inl CertExpired
      else Inr ())"

definition unmarshal :: "'a option \<Rightarrow> hs_error + 'a" where
  "unmarshal r = (case r of None \<Rightarrow> Inl UnmarshalFailed | Some x \<Rightarrow> Inr x)"

definition verifyServerCert ::
  "crypto \<Rightarrow> hs_proto \<Rightarrow> int \<Rightarrow> bytes \<Rightarrow> bytes \<Rightarrow> bytes \<Rightarrow> hs_error + unit" where
  "verifyServerCert c P now certDecrypted staticDecrypted certAuthority =
     rbind (unmarshal (get_cert_chain P certDecrypted)) (\<lambda>certChain.
       case (int_Details certChain, int_Signature certChain, leaf_Details certChain, leaf_Signature certChain) of
         (Some intRaw, Some intSig, Some leafRaw, Some leafSig) \<Rightarrow>
           if length intSig \<noteq> 64 then Inl (CertBadSignatureLength (length intSig))
           else if length leafSig \<noteq> 64 then Inl (CertBadSignatureLength (length leafSig))
           else if \<not> verify_djb c certAuthority intRaw intSig then Inl CertBadSignature
           else rbind (unmarshal (get_cert_details P intRaw)) (\<lambda>intDetails.
             if cd_IssuerSerial intDetails \<noteq> WACertIssuerSerial then Inl CertBadIssuerSerial
             else if length (cd_Key intDetails) \<noteq> 32 then Inl (CertBadKeyLength (length (cd_Key intDetails)))
             else if \<not> verify_djb c (cd_Key intDetails) leafRaw leafSig then Inl CertBadSignature
             else rbind (checkCertValidity now intDetails) (\<lambda>_.
               rbind (unmarshal (get_cert_details P leafRaw)) (\<lambda>leafDetails.
                 if cd_IssuerSerial leafDetails \<noteq> cd_Serial intDetails then Inl CertBadIssuerSerial
                 else if cd_Key leafDetails \<noteq> staticDecrypted then Inl CertKeyMismatch
                 else checkCertValidity now leafDetails)))
       | _ \<Rightarrow> Inl CertMissingParts)"

section \<open>The client's handshake\<close>

definition NoiseStartPattern :: string where
  "NoiseStartPattern = ''Noise_XX_25519_AESGCM_SHA256'' @ replicate 4 (char_of (0 :: nat))"

definition noise :: "noise_error + 'a \<Rightarrow> hs_error + 'a" where
  "noise r = (case r of Inl e \<Rightarrow> Inl (NoiseFailed e) | Inr x \<Rightarrow> Inr x)"

definition hs_decrypt :: "crypto \<Rightarrow> bytes \<Rightarrow> NoiseHandshake \<Rightarrow> hs_error + (bytes \<times> NoiseHandshake)" where
  "hs_decrypt c e nh = (case nh_Decrypt c e nh of (Inl err, nh) \<Rightarrow> Inl (NoiseFailed err) | (Inr p, nh) \<Rightarrow> Inr (p, nh))"

definition hs_send :: "bool \<Rightarrow> bytes option \<Rightarrow> frame_socket \<Rightarrow> hs_error + frame_socket" where
  "hs_send ok d fs =
     (case d of
        None \<Rightarrow> Inl MarshalFailed
      | Some d \<Rightarrow> (case SendFrame ok d fs of (None, fs) \<Rightarrow> Inr fs | (Some e, fs) \<Rightarrow> Inl (SendFailed e)))"

text \<open>
  \<open>resp\<close> is the frame received in reply, or nothing on timeout; \<open>payload\<close> the marshalled client
  payload, or nothing when the client has none; \<open>ok1\<close> and \<open>ok2\<close> the outcomes of the two writes.
\<close>

record hs_env =
  he_ok1 :: bool
  he_ok2 :: bool
  he_resp :: "bytes option"
  he_payload :: "bytes option"
  he_now :: int
  he_authority :: bytes
  he_ephemeral :: KeyPair
  he_noiseKey :: KeyPair

text \<open>The middle part: the server's hello is checked, its static key and certificate are opened.\<close>

definition hs_server_hello ::
  "crypto \<Rightarrow> hs_proto \<Rightarrow> hs_env \<Rightarrow> server_hello \<Rightarrow> NoiseHandshake \<Rightarrow> hs_error + NoiseHandshake" where
  "hs_server_hello c P env hello nh =
     (case (sh_Static hello, sh_Payload hello) of
        (Some serverStaticCiphertext, Some certificateCiphertext) \<Rightarrow>
          if length (sh_Ephemeral hello) \<noteq> 32 then Inl MissingParts
          else
            (let nh = Authenticate c (sh_Ephemeral hello) nh in
             rbind (noise (MixSharedSecretIntoKey c (Priv (he_ephemeral env)) (sh_Ephemeral hello) nh)) (\<lambda>nh.
             rbind (hs_decrypt c serverStaticCiphertext nh) (\<lambda>(staticDecrypted, nh).
             if length staticDecrypted \<noteq> 32 then Inl (BadStaticLength (length staticDecrypted))
             else
               rbind (noise (MixSharedSecretIntoKey c (Priv (he_ephemeral env)) staticDecrypted nh)) (\<lambda>nh.
               rbind (hs_decrypt c certificateCiphertext nh) (\<lambda>(certDecrypted, nh).
               rbind (verifyServerCert c P (he_now env) certDecrypted staticDecrypted (he_authority env)) (\<lambda>_.
               Inr nh))))))
      | _ \<Rightarrow> Inl MissingParts)"

text \<open>The last part: the client's static key and payload are sealed and sent, the keys are split.\<close>

definition hs_client_finish ::
  "crypto \<Rightarrow> hs_proto \<Rightarrow> hs_env \<Rightarrow> bytes \<Rightarrow> NoiseHandshake \<Rightarrow> frame_socket \<Rightarrow> hs_error + NoiseSocket" where
  "hs_client_finish c P env serverEphemeral nh fs =
     rbind (noise (nh_Encrypt c (Pub (he_noiseKey env)) nh)) (\<lambda>(encryptedPubkey, nh).
     rbind (noise (MixSharedSecretIntoKey c (Priv (he_noiseKey env)) serverEphemeral nh)) (\<lambda>nh.
     case he_payload env of
       None \<Rightarrow> Inl NilClientPayload
     | Some clientFinishPayloadBytes \<Rightarrow>
         rbind (noise (nh_Encrypt c clientFinishPayloadBytes nh)) (\<lambda>(encryptedClientFinishPayload, nh).
         rbind (hs_send (he_ok2 env) (put_client_finish P encryptedPubkey encryptedClientFinishPayload) fs) (\<lambda>fs.
         noise (Finish c nh fs)))))"

definition doHandshake :: "crypto \<Rightarrow> hs_proto \<Rightarrow> hs_env \<Rightarrow> frame_socket \<Rightarrow> hs_error + NoiseSocket" where
  "doHandshake c P env fs =
     rbind (noise (Start c NoiseStartPattern (case_option [] id (fs_Header fs)) NewNoiseHandshake)) (\<lambda>nh.
     let nh = Authenticate c (Pub (he_ephemeral env)) nh in
     rbind (hs_send (he_ok1 env) (put_client_hello P (Pub (he_ephemeral env))) fs) (\<lambda>fs.
     case he_resp env of
       None \<Rightarrow> Inl ResponseTimeout
     | Some resp \<Rightarrow>
         rbind (unmarshal (get_server_hello P resp)) (\<lambda>hello.
         rbind (hs_server_hello c P env hello nh) (\<lambda>nh.
         hs_client_finish c P env (sh_Ephemeral hello) nh fs))))"

section \<open>The server is authenticated\<close>

text \<open>What the certificate check guarantees, stated over the chain itself.\<close>

definition cert_in_force :: "int \<Rightarrow> cert_details \<Rightarrow> bool" where
  "cert_in_force now d \<longleftrightarrow> time_Unix (cd_NotBefore d) \<le> now \<and> now \<le> time_Unix (cd_NotAfter d)"

definition static_key_certified ::
  "crypto \<Rightarrow> hs_proto \<Rightarrow> int \<Rightarrow> bytes \<Rightarrow> bytes \<Rightarrow> bytes \<Rightarrow> bool" where
  "static_key_certified c P now authority cert static \<longleftrightarrow>
     (\<exists>chain ir is lr ls id ld.
        get_cert_chain P cert = Some chain \<and>
        int_Details chain = Some ir \<and> int_Signature chain = Some is \<and>
        leaf_Details chain = Some lr \<and> leaf_Signature chain = Some ls \<and>
        get_cert_details P ir = Some id \<and> get_cert_details P lr = Some ld \<and>
        length is = 64 \<and> length ls = 64 \<and> verify_djb c authority ir is \<and> verify_djb c (cd_Key id) lr ls \<and>
        cd_IssuerSerial id = WACertIssuerSerial \<and> cd_IssuerSerial ld = cd_Serial id \<and>
        length (cd_Key id) = 32 \<and> cd_Key ld = static \<and> cert_in_force now id \<and> cert_in_force now ld)"

lemma checkCertValidity_iff: "checkCertValidity now d = Inr u \<longleftrightarrow> cert_in_force now d"
  by (auto simp: checkCertValidity_def cert_in_force_def Let_def)

lemma unmarshal_eq_Inr [simp]: "unmarshal r = Inr x \<longleftrightarrow> r = Some x"
  by (auto simp: unmarshal_def split: option.splits)

lemma guard_eq_Inr:
  "(if b then Inl e else r) = Inr x \<longleftrightarrow> \<not> b \<and> r = Inr x"
  by simp

lemma four_parts:
  "(case (a, b, d, g) of (Some w, Some x, Some y, Some z) \<Rightarrow> f w x y z | _ \<Rightarrow> Inl e) = Inr u \<longleftrightarrow>
     (\<exists>w x y z. a = Some w \<and> b = Some x \<and> d = Some y \<and> g = Some z \<and> f w x y z = Inr u)"
  by (cases a; cases b; cases d; cases g) simp_all

lemma verifyServerCert_iff:
  "verifyServerCert c P now cert static authority = Inr () \<longleftrightarrow> static_key_certified c P now authority cert static"
  unfolding verifyServerCert_def static_key_certified_def rbind_eq_Inr four_parts guard_eq_Inr unmarshal_eq_Inr
    checkCertValidity_iff
  by blast

lemma noise_eq_Inr [simp]: "noise r = Inr x \<longleftrightarrow> r = Inr x"
  by (auto simp: noise_def split: sum.splits)

lemma hs_decrypt_eq_Inr: "hs_decrypt c e nh = Inr (p, nh') \<longleftrightarrow> nh_Decrypt c e nh = (Inr p, nh')"
  by (auto simp: hs_decrypt_def split: prod.splits sum.splits)

lemma two_parts:
  "(case (a, b) of (Some w, Some x) \<Rightarrow> f w x | _ \<Rightarrow> Inl e) = Inr u \<longleftrightarrow>
     (\<exists>w x. a = Some w \<and> b = Some x \<and> f w x = Inr u)"
  by (cases a; cases b) simp_all

lemma hs_server_hello_certified:
  assumes "hs_server_hello c P env hello nh = Inr nh'"
  shows "\<exists>e d nh1 static nh2 nh3 cert. sh_Static hello = Some e \<and> sh_Payload hello = Some d \<and>
    MixSharedSecretIntoKey c (Priv (he_ephemeral env)) (sh_Ephemeral hello) (Authenticate c (sh_Ephemeral hello) nh) = Inr nh1 \<and>
    nh_Decrypt c e nh1 = (Inr static, nh2) \<and> length static = 32 \<and>
    MixSharedSecretIntoKey c (Priv (he_ephemeral env)) static nh2 = Inr nh3 \<and> nh_Decrypt c d nh3 = (Inr cert, nh') \<and>
    static_key_certified c P (he_now env) (he_authority env) cert static"
  using assms unfolding hs_server_hello_def two_parts verifyServerCert_iff [symmetric]
  by (auto simp: rbind_eq_Inr guard_eq_Inr Let_def hs_decrypt_eq_Inr split: prod.splits if_splits)

section \<open>Both sides agree\<close>

text \<open>The server's two moves, over the same handshake state.\<close>

definition respond ::
  "crypto \<Rightarrow> bytes \<Rightarrow> bytes \<Rightarrow> KeyPair \<Rightarrow> KeyPair \<Rightarrow> bytes \<Rightarrow> noise_error + (server_hello \<times> NoiseHandshake)" where
  "respond c header clientEph e s cert =
     rbind (Start c NoiseStartPattern header NewNoiseHandshake) (\<lambda>nh.
     rbind (MixSharedSecretIntoKey c (Priv e) clientEph (Authenticate c (Pub e) (Authenticate c clientEph nh))) (\<lambda>nh.
     rbind (nh_Encrypt c (Pub s) nh) (\<lambda>(es, nh).
     rbind (MixSharedSecretIntoKey c (Priv s) clientEph nh) (\<lambda>nh.
     rbind (nh_Encrypt c cert nh) (\<lambda>(ec, nh).
       Inr (\<lparr>sh_Ephemeral = Pub e, sh_Static = Some es, sh_Payload = Some ec\<rparr>, nh))))))"

definition respond_finish ::
  "crypto \<Rightarrow> KeyPair \<Rightarrow> bytes \<Rightarrow> bytes \<Rightarrow> NoiseHandshake \<Rightarrow> hs_error + (bytes \<times> bytes \<times> bytes \<times> bytes)" where
  "respond_finish c e ek ep nh =
     rbind (hs_decrypt c ek nh) (\<lambda>(clientStatic, nh).
     rbind (noise (MixSharedSecretIntoKey c (Priv e) clientStatic nh)) (\<lambda>nh.
     rbind (hs_decrypt c ep nh) (\<lambda>(payload, nh).
       let (first, second) = extractAndExpand c (nh_salt nh) [] in Inr (clientStatic, payload, first, second))))"

lemma Decrypt_Encrypt:
  "gcm_correct c \<Longrightarrow> nh_Encrypt c p nh = Inr (e, nh') \<Longrightarrow> nh_Decrypt c e nh = (Inr p, nh')"
  by (auto simp: nh_Encrypt_def nh_Decrypt_def gcm_correct_def Let_def split: option.splits prod.splits)

lemma hs_decrypt_Encrypt:
  "gcm_correct c \<Longrightarrow> nh_Encrypt c p nh = Inr (e, nh') \<Longrightarrow> hs_decrypt c e nh = Inr (p, nh')"
  by (simp add: hs_decrypt_eq_Inr Decrypt_Encrypt)

lemma Mix_agrees:
  "dh_agrees c (Priv a) (Priv b) \<Longrightarrow> Pub a = base_mult c (Priv a) \<Longrightarrow> Pub b = base_mult c (Priv b) \<Longrightarrow>
   MixSharedSecretIntoKey c (Priv a) (Pub b) nh = MixSharedSecretIntoKey c (Priv b) (Pub a) nh"
  by (auto simp: dh_agrees_def MixSharedSecretIntoKey_def)

lemma Mix_total:
  assumes "hkdf_correct c" "dh_agrees c (Priv a) (Priv b)" "Pub b = base_mult c (Priv b)"
  shows "\<exists>nh' k. MixSharedSecretIntoKey c (Priv a) (Pub b) nh = Inr nh' \<and> nh_key nh' = Some k"
  using assms
  by (auto simp: dh_agrees_def hkdf_correct_def MixSharedSecretIntoKey_def MixIntoKey_def extractAndExpand_def
      prepare_key_def Prepare_def aes_key_def Let_def)

lemma Finish_total:
  assumes "hkdf_correct c"
  shows "\<exists>ns. Finish c nh fs = Inr ns \<and> (writeKey ns, readKey ns) = extractAndExpand c (nh_salt nh) [] \<and>
    ns_fs ns = SetOnDisconnect True fs"
  using assms
  by (auto simp: hkdf_correct_def Finish_def extractAndExpand_def prepare_key_def Prepare_def aes_key_def
      newNoiseSocket_def Let_def)

lemma Encrypt_total: "nh_key nh = Some k \<Longrightarrow> \<exists>e nh'. nh_Encrypt c p nh = Inr (e, nh') \<and> nh_key nh' = Some k"
  by (auto simp: nh_Encrypt_def postIncrementCounter_def Authenticate_def Let_def)

lemma Encrypt_length: "gcm_correct c \<Longrightarrow> nh_Encrypt c p nh = Inr (e, nh') \<Longrightarrow> length e = length p + 16"
  by (auto simp: nh_Encrypt_def gcm_correct_def Let_def split: option.splits prod.splits)

text \<open>A pair of a private key and its public key.\<close>

definition key_pair_ok :: "crypto \<Rightarrow> KeyPair \<Rightarrow> bool" where
  "key_pair_ok c k \<longleftrightarrow> Pub k = base_mult c (Priv k) \<and> length (Pub k) = 32"

lemma hs_server_hello_accepts:
  assumes c: "gcm_correct c" and e: "key_pair_ok c e" and s: "key_pair_ok c s" and eph: "key_pair_ok c (he_ephemeral env)"
    and dh: "dh_agrees c (Priv (he_ephemeral env)) (Priv e)" "dh_agrees c (Priv (he_ephemeral env)) (Priv s)"
    and resp: "respond c header (Pub (he_ephemeral env)) e s cert = Inr (hello, nhS)"
    and start: "Start c NoiseStartPattern header NewNoiseHandshake = Inr nh"
    and cert: "static_key_certified c P (he_now env) (he_authority env) cert (Pub s)"
  shows "hs_server_hello c P env hello (Authenticate c (Pub (he_ephemeral env)) nh) = Inr nhS"
    and "sh_Ephemeral hello = Pub e"
proof -
  note k = e [unfolded key_pair_ok_def] s [unfolded key_pair_ok_def] eph [unfolded key_pair_ok_def]
  obtain n1 es n2 n3 ec where
    m1: "MixSharedSecretIntoKey c (Priv e) (Pub (he_ephemeral env))
      (Authenticate c (Pub e) (Authenticate c (Pub (he_ephemeral env)) nh)) = Inr n1"
    and e1: "nh_Encrypt c (Pub s) n1 = Inr (es, n2)"
    and m2: "MixSharedSecretIntoKey c (Priv s) (Pub (he_ephemeral env)) n2 = Inr n3"
    and e2: "nh_Encrypt c cert n3 = Inr (ec, nhS)"
    and hello: "hello = \<lparr>sh_Ephemeral = Pub e, sh_Static = Some es, sh_Payload = Some ec\<rparr>"
    using resp by (auto simp: respond_def start rbind_eq_Inr)
  have m1': "MixSharedSecretIntoKey c (Priv (he_ephemeral env)) (Pub e)
      (Authenticate c (Pub e) (Authenticate c (Pub (he_ephemeral env)) nh)) = Inr n1"
    using m1 Mix_agrees [OF dh(1)] k by simp
  have m2': "MixSharedSecretIntoKey c (Priv (he_ephemeral env)) (Pub s) n2 = Inr n3"
    using m2 Mix_agrees [OF dh(2)] k by simp
  show "hs_server_hello c P env hello (Authenticate c (Pub (he_ephemeral env)) nh) = Inr nhS"
    using k(1,2) [THEN conjunct2] cert [folded verifyServerCert_iff]
    by (simp add: hs_server_hello_def hello m1' m2' hs_decrypt_Encrypt [OF c e1]
        hs_decrypt_Encrypt [OF c e2] noise_def)
  show "sh_Ephemeral hello = Pub e" by (simp add: hello)
qed

lemma hs_send_ok:
  "fs_conn fs \<Longrightarrow> length d < FrameMaxSize \<Longrightarrow>
   \<exists>fs'. hs_send True (Some d) fs = Inr fs' \<and> fs_conn fs' \<and> fs_Header fs' = None \<and>
     written fs' = written fs @ [case_option [] id (fs_Header fs) @ length_bytes (length d) @ d]"
  by (auto simp: hs_send_def SendFrame_def Let_def split: option.splits)

text \<open>The client's last move, when it can send: the server opens what it sealed and derives the same keys.\<close>

lemma hs_client_finish_agrees:
  assumes c: "gcm_correct c" "hkdf_correct c" and e: "key_pair_ok c e" and nk: "key_pair_ok c (he_noiseKey env)"
    and dh: "dh_agrees c (Priv (he_noiseKey env)) (Priv e)" and key: "nh_key nh = Some k"
    and env: "he_payload env = Some payload" "he_ok2 env"
    and put: "\<forall>a b. length a = 48 \<and> length b = length payload + 16 \<longrightarrow> (\<exists>m. put_client_finish P a b = Some m \<and> length m < FrameMaxSize)"
    and fs: "fs_conn fs" "fs_Header fs = None"
  shows "\<exists>ns a b m. hs_client_finish c P env (Pub e) nh fs = Inr ns \<and> put_client_finish P a b = Some m \<and>
    written (ns_fs ns) = written fs @ [length_bytes (length m) @ m] \<and>
    respond_finish c e a b nh = Inr (Pub (he_noiseKey env), payload, writeKey ns, readKey ns)"
proof -
  note kp = e [unfolded key_pair_ok_def] nk [unfolded key_pair_ok_def]
  obtain a n1 where e1: "nh_Encrypt c (Pub (he_noiseKey env)) nh = Inr (a, n1)" "nh_key n1 = Some k"
    using Encrypt_total [OF key] by blast
  obtain n2 k2 where m: "MixSharedSecretIntoKey c (Priv (he_noiseKey env)) (Pub e) n1 = Inr n2" "nh_key n2 = Some k2"
    using Mix_total [OF c(2) dh] kp by blast
  obtain b n3 where e2: "nh_Encrypt c payload n2 = Inr (b, n3)" using Encrypt_total [OF m(2)] by blast
  have "length a = 48" "length b = length payload + 16"
    using Encrypt_length [OF c(1) e1(1)] Encrypt_length [OF c(1) e2] kp(2) [THEN conjunct2] by simp_all
  then obtain d where d: "put_client_finish P a b = Some d" "length d < FrameMaxSize" using put by blast
  obtain fs' where fs': "hs_send True (Some d) fs = Inr fs'" "written fs' = written fs @ [length_bytes (length d) @ d]"
    using hs_send_ok [OF fs(1) d(2)] fs(2) by auto
  obtain ns where ns: "Finish c n3 fs' = Inr ns" "(writeKey ns, readKey ns) = extractAndExpand c (nh_salt n3) []"
    "ns_fs ns = SetOnDisconnect True fs'"
    using Finish_total [OF c(2)] by blast
  have "hs_client_finish c P env (Pub e) nh fs = Inr ns"
    using env by (simp add: hs_client_finish_def e1(1) m(1) e2 d(1) fs'(1) ns(1) noise_def)
  moreover have "respond_finish c e a b nh = Inr (Pub (he_noiseKey env), payload, writeKey ns, readKey ns)"
    using Mix_agrees [OF dh, of n1] kp m(1) ns(2) [symmetric]
    by (simp add: respond_finish_def hs_decrypt_Encrypt [OF c(1) e1(1)] hs_decrypt_Encrypt [OF c(1) e2] noise_def)
  ultimately show ?thesis using d(1) fs'(2) ns(3) by (auto simp: SetOnDisconnect_def)
qed

lemma respond_key:
  assumes "respond c header x e s cert = Inr (hello, nhS)"
  shows "\<exists>k. nh_key nhS = Some k"
  using assms
  by (auto simp: respond_def rbind_eq_Inr nh_Encrypt_def postIncrementCounter_def Authenticate_def Let_def
      split: option.splits)

lemma handshake_completes:
  assumes "gcm_correct c" "hkdf_correct c"
    and "key_pair_ok c e" "key_pair_ok c s" "key_pair_ok c (he_ephemeral env)" "key_pair_ok c (he_noiseKey env)"
    and "dh_agrees c (Priv (he_ephemeral env)) (Priv e)" "dh_agrees c (Priv (he_ephemeral env)) (Priv s)"
      "dh_agrees c (Priv (he_noiseKey env)) (Priv e)"
    and "respond c header (Pub (he_ephemeral env)) e s cert = Inr (hello, nhS)"
    and "static_key_certified c P (he_now env) (he_authority env) cert (Pub s)"
    and "he_resp env = Some resp" "get_server_hello P resp = Some hello"
    and "he_payload env = Some payload" "he_ok1 env" "he_ok2 env"
    and "put_client_hello P (Pub (he_ephemeral env)) = Some m1" "length m1 < FrameMaxSize"
    and "\<forall>a b. length a = 48 \<and> length b = length payload + 16 \<longrightarrow> (\<exists>m. put_client_finish P a b = Some m \<and> length m < FrameMaxSize)"
    and "fs_conn fs" "fs_Header fs = Some header"
  shows "\<exists>ns a b m. doHandshake c P env fs = Inr ns \<and> put_client_finish P a b = Some m \<and>
    written (ns_fs ns) = written fs @ [header @ length_bytes (length m1) @ m1, length_bytes (length m) @ m] \<and>
    respond_finish c e a b nhS = Inr (Pub (he_noiseKey env), payload, writeKey ns, readKey ns)"
proof -
  obtain nh where start: "Start c NoiseStartPattern header NewNoiseHandshake = Inr nh"
    using assms(10) by (auto simp: respond_def rbind_eq_Inr)
  note srv = hs_server_hello_accepts [OF assms(1,3-5,7,8,10) start assms(11)]
  obtain fs' where fs': "hs_send True (Some m1) fs = Inr fs'" "fs_conn fs'" "fs_Header fs' = None"
    "written fs' = written fs @ [header @ length_bytes (length m1) @ m1]"
    using hs_send_ok [OF assms(20,18)] assms(21) by auto
  obtain k where "nh_key nhS = Some k" using respond_key [OF assms(10)] by blast
  from hs_client_finish_agrees [OF assms(1-3,6,9) this assms(14,16,19) fs'(2,3)]
  obtain ns a b m where "hs_client_finish c P env (Pub e) nhS fs' = Inr ns" "put_client_finish P a b = Some m"
    "written (ns_fs ns) = written fs' @ [length_bytes (length m) @ m]"
    "respond_finish c e a b nhS = Inr (Pub (he_noiseKey env), payload, writeKey ns, readKey ns)" by blast
  moreover from this(1) have "doHandshake c P env fs = Inr ns"
    using assms(12,13,15,17,21) by (simp add: doHandshake_def start noise_def fs'(1) srv unmarshal_def)
  ultimately show ?thesis using fs'(4) by auto
qed

section \<open>A concrete run\<close>

lemma respond_total:
  assumes "hkdf_correct c" "key_pair_ok c k" "dh_agrees c (Priv k) (Priv e)" "dh_agrees c (Priv k) (Priv s)"
  shows "\<exists>hello nhS. respond c header (Pub k) e s cert = Inr (hello, nhS)"
proof -
  have len: "length (bytes_of_string NoiseStartPattern) = 32" by (simp add: NoiseStartPattern_def)
  have dh: "dh_agrees c (Priv e) (Priv k)" "dh_agrees c (Priv s) (Priv k)"
    using assms(3,4) by (auto simp: dh_agrees_def)
  have pub: "Pub k = base_mult c (Priv k)" using assms(2) by (simp add: key_pair_ok_def)
  obtain nh where nh: "Start c NoiseStartPattern header NewNoiseHandshake = Inr nh"
    using len by (auto simp: Start_def prepare_key_def Prepare_def aes_key_def Let_def)
  obtain n1 k1 where m1: "MixSharedSecretIntoKey c (Priv e) (Pub k)
      (Authenticate c (Pub e) (Authenticate c (Pub k) nh)) = Inr n1" "nh_key n1 = Some k1"
    using Mix_total [OF assms(1) dh(1) pub] by blast
  obtain es n2 where e1: "nh_Encrypt c (Pub s) n1 = Inr (es, n2)" using Encrypt_total [OF m1(2)] by blast
  obtain n3 k3 where m2: "MixSharedSecretIntoKey c (Priv s) (Pub k) n2 = Inr n3" "nh_key n3 = Some k3"
    using Mix_total [OF assms(1) dh(2) pub] by blast
  obtain ec n4 where e2: "nh_Encrypt c cert n3 = Inr (ec, n4)" using Encrypt_total [OF m2(2)] by blast
  show ?thesis by (simp add: respond_def nh m1 e1 m2 e2)
qed

definition example_key :: "byte \<Rightarrow> KeyPair" where
  "example_key b = NewKeyPairFromPrivateKey plain_crypto (replicate 32 b)"

definition example_hello :: bytes where
  "example_hello = 10 # replicate 32 3"

definition example_proto :: "server_hello \<Rightarrow> hs_proto" where
  "example_proto hello =
     \<lparr>put_client_hello = (\<lambda>e. Some (10 # e)), get_server_hello = (\<lambda>_. Some hello), put_client_finish = (\<lambda>a b. Some (length_bytes (length a) @ a @ b)),
      get_cert_chain = (\<lambda>_. Some \<lparr>int_Details = Some [1], int_Signature = Some (replicate 64 (9 + 1)),
        leaf_Details = Some [2], leaf_Signature = Some (replicate 64 (sum_byte (replicate 32 5) + 2))\<rparr>),
      get_cert_details = (\<lambda>r. Some (if r = [1]
        then \<lparr>cd_Serial = 7, cd_IssuerSerial = 0, cd_Key = replicate 32 5, cd_NotBefore = 0, cd_NotAfter = 100\<rparr>
        else \<lparr>cd_Serial = 8, cd_IssuerSerial = 7, cd_Key = replicate 32 2, cd_NotBefore = 0, cd_NotAfter = 100\<rparr>))\<rparr>"

definition example_hs :: hs_env where
  "example_hs = \<lparr>he_ok1 = True, he_ok2 = True, he_resp = Some [], he_payload = Some [42], he_now = 5,
     he_authority = [9], he_ephemeral = example_key 3, he_noiseKey = example_key 4\<rparr>"

lemma example_keys:
  "key_pair_ok plain_crypto (example_key b)" "dh_agrees plain_crypto (Priv (example_key a)) (Priv (example_key b))"
  "Pub (example_key b) = replicate 32 b"
  by (simp_all add: key_pair_ok_def example_key_def NewKeyPairFromPrivateKey_def plain_dh)
    (simp_all add: plain_crypto_def)

lemma example_times: "time_Unix 0 = 0" "time_Unix 100 = 100000000000"
  by code_simp+

lemma example_certified: "static_key_certified plain_crypto (example_proto hello) 5 [9] [] (replicate 32 2)"
  by (simp add: static_key_certified_def example_proto_def plain_crypto_def cert_in_force_def example_times)

definition example_fs :: frame_socket where
  "example_fs = snd (fs_Connect True (NewFrameSocket [87]))"

lemma example_fs_simps [simp]: "fs_conn example_fs" "fs_Header example_fs = Some [87]" "written example_fs = []"
  by (simp_all add: example_fs_def fs_Connect_def NewFrameSocket_def)

lemma example_response:
  "\<exists>hello nhS. respond plain_crypto [87] (Pub (example_key 3)) (example_key 1) (example_key 2) [] = Inr (hello, nhS)"
  by (rule respond_total) (simp_all add: plain_crypto_correct example_keys)

lemma example_run: "\<exists>hello ns. doHandshake plain_crypto (example_proto hello) example_hs example_fs = Inr ns"
proof -
  obtain hello nhS where
    r: "respond plain_crypto [87] (Pub (example_key 3)) (example_key 1) (example_key 2) [] = Inr (hello, nhS)"
    using example_response by blast
  have "\<exists>ns a b m. doHandshake plain_crypto (example_proto hello) example_hs example_fs = Inr ns \<and>
    put_client_finish (example_proto hello) a b = Some m \<and>
    written (ns_fs ns) = written example_fs @ [[87] @ length_bytes (length example_hello) @ example_hello, length_bytes (length m) @ m] \<and>
    respond_finish plain_crypto (example_key 1) a b nhS =
      Inr (Pub (he_noiseKey example_hs), [42], writeKey ns, readKey ns)"
    by (rule handshake_completes [where s = "example_key 2" and cert = "[]" and resp = "[]" and header = "[87]" and hello = hello])
      (use r in \<open>simp_all add: plain_crypto_correct example_keys example_certified example_hs_def\<close>,
       simp_all add: example_proto_def example_keys example_hello_def length_bytes_def)
  then show ?thesis by blast
qed

text \<open>
  C15: when the client's handshake succeeds, the server's hello carried a static key and a certificate
  chain, encrypted with the keys of the handshake so far; the static key is the key of a leaf
  certificate that is in force, signed by an intermediate certificate that is in force and that the
  configured authority signed, and it is the key mixed into the keys that follow.
\<close>

theorem handshake_authenticates:
  assumes "doHandshake c P env fs = Inr ns"
  shows "\<exists>resp hello nh0 e d nh1 static nh2 nh3 cert nh4. he_resp env = Some resp \<and> get_server_hello P resp = Some hello \<and>
    sh_Static hello = Some e \<and> sh_Payload hello = Some d \<and>
    Start c NoiseStartPattern (case_option [] id (fs_Header fs)) NewNoiseHandshake = Inr nh0 \<and>
    MixSharedSecretIntoKey c (Priv (he_ephemeral env)) (sh_Ephemeral hello)
      (Authenticate c (sh_Ephemeral hello) (Authenticate c (Pub (he_ephemeral env)) nh0)) = Inr nh1 \<and>
    nh_Decrypt c e nh1 = (Inr static, nh2) \<and> length static = 32 \<and>
    MixSharedSecretIntoKey c (Priv (he_ephemeral env)) static nh2 = Inr nh3 \<and> nh_Decrypt c d nh3 = (Inr cert, nh4) \<and>
    static_key_certified c P (he_now env) (he_authority env) cert static"
proof -
  obtain resp hello nh0 nh4 where "he_resp env = Some resp" "get_server_hello P resp = Some hello"
    "Start c NoiseStartPattern (case_option [] id (fs_Header fs)) NewNoiseHandshake = Inr nh0"
    "hs_server_hello c P env hello (Authenticate c (Pub (he_ephemeral env)) nh0) = Inr nh4"
    using assms by (auto simp: doHandshake_def rbind_eq_Inr Let_def split: option.splits)
  with hs_server_hello_certified [OF this(4)] show ?thesis by blast
qed

theorem handshake_authenticates_witness:
  "\<exists>hello resp hello' e nh1 static nh2 cert. he_resp example_hs = Some resp \<and>
    get_server_hello (example_proto hello) resp = Some hello' \<and> sh_Static hello' = Some e \<and>
    nh_Decrypt plain_crypto e nh1 = (Inr static, nh2) \<and> length static = 32 \<and>
    static_key_certified plain_crypto (example_proto hello) (he_now example_hs) (he_authority example_hs) cert static"
proof -
  obtain hello ns where run: "doHandshake plain_crypto (example_proto hello) example_hs example_fs = Inr ns"
    using example_run by blast
  show ?thesis using handshake_authenticates [OF run] by blast
qed

text \<open>
  C16: against a server that follows the protocol and has a certified static key, over a working
  socket, and when the encoding of the finish message for its two ciphertexts (48 bytes, and the
  payload with 16 more) fits into a frame, the client's handshake succeeds; the server opens the
  client's static key and payload from the finish message, and its reading and writing keys are the
  client's writing and reading keys.
\<close>

theorem handshake_agrees:
  assumes "gcm_correct c" "hkdf_correct c"
    and "key_pair_ok c e" "key_pair_ok c s" "key_pair_ok c (he_ephemeral env)" "key_pair_ok c (he_noiseKey env)"
    and "dh_agrees c (Priv (he_ephemeral env)) (Priv e)" "dh_agrees c (Priv (he_ephemeral env)) (Priv s)"
      "dh_agrees c (Priv (he_noiseKey env)) (Priv e)"
    and "respond c header (Pub (he_ephemeral env)) e s cert = Inr (hello, nhS)"
    and "static_key_certified c P (he_now env) (he_authority env) cert (Pub s)"
    and "he_resp env = Some resp" "get_server_hello P resp = Some hello"
    and "he_payload env = Some payload" "he_ok1 env" "he_ok2 env"
    and "put_client_hello P (Pub (he_ephemeral env)) = Some m1" "length m1 < FrameMaxSize"
    and "\<forall>a b. length a = 48 \<and> length b = length payload + 16 \<longrightarrow> (\<exists>m. put_client_finish P a b = Some m \<and> length m < FrameMaxSize)"
    and "fs_conn fs" "fs_Header fs = Some header"
  shows "\<exists>ns a b m. doHandshake c P env fs = Inr ns \<and> put_client_finish P a b = Some m \<and>
    written (ns_fs ns) = written fs @ [header @ length_bytes (length m1) @ m1, length_bytes (length m) @ m] \<and>
    respond_finish c e a b nhS = Inr (Pub (he_noiseKey env), payload, writeKey ns, readKey ns)"
  using assms by (rule handshake_completes)

theorem handshake_agrees_witness:
  "\<exists>hello nhS ns a b. doHandshake plain_crypto (example_proto hello) example_hs example_fs = Inr ns \<and>
     respond plain_crypto [87] (Pub (example_key 3)) (example_key 1) (example_key 2) [] = Inr (hello, nhS) \<and>
     respond_finish plain_crypto (example_key 1) a b nhS = Inr (Pub (example_key 4), [42], writeKey ns, readKey ns)"
proof -
  obtain hello nhS where
    r: "respond plain_crypto [87] (Pub (example_key 3)) (example_key 1) (example_key 2) [] = Inr (hello, nhS)"
    using example_response by blast
  have "\<exists>ns a b m. doHandshake plain_crypto (example_proto hello) example_hs example_fs = Inr ns \<and>
    put_client_finish (example_proto hello) a b = Some m \<and>
    written (ns_fs ns) = written example_fs @ [[87] @ length_bytes (length example_hello) @ example_hello, length_bytes (length m) @ m] \<and>
    respond_finish plain_crypto (example_key 1) a b nhS =
      Inr (Pub (he_noiseKey example_hs), [42], writeKey ns, readKey ns)"
    by (rule handshake_agrees [where s = "example_key 2" and cert = "[]" and resp = "[]" and header = "[87]" and hello = hello])
      (use r in \<open>simp_all add: plain_crypto_correct example_keys example_certified example_hs_def\<close>,
       simp_all add: example_proto_def example_keys example_hello_def length_bytes_def)
  with r show ?thesis by (auto simp: example_hs_def)
qed

end
