(* ===== verification/Cbc.thy ===== *)
theory Cbc
  imports Crypto
begin

text \<open>
  \<open>src/util/cbcutil/cbc.go\<close>: AES-CBC with PKCS7 padding, in one piece, over a file in place, and as a
  stream with hashes and a truncated MAC. The block mode object is its chaining value. Files and
  sinks are records with the places where the operating system may fail. Shown: decryption undoes
  encryption, the streaming encryption computes what the one-piece one does, whatever the sizes of
  the partial writes, and the in-place file decryption agrees with the one-piece one.
\<close>

unbundle bit_operations_syntax

section \<open>The block mode\<close>

datatype cbc_error =
    BadKey nat
  | BadIVPanic nat
  | NotMultipleOfBlock nat
  | BadPlaintextSize nat
  | BadLastBlock nat
  | NoRandom
  | PaddingTooLong nat nat
  | StatFailed
  | ReadFailed
  | WriteFailed
  | ShortWrite
  | TruncateFailed

definition xor_bytes :: "bytes \<Rightarrow> bytes \<Rightarrow> bytes" where
  "xor_bytes a b = map2 (XOR) a b"

function cbc_enc :: "crypto \<Rightarrow> bytes \<Rightarrow> bytes \<Rightarrow> bytes \<Rightarrow> bytes \<times> bytes" where
  "cbc_enc c k iv src =
     (if length src < 16 then ([], iv)
      else
        (let b = aes_encrypt c k (xor_bytes (take 16 src) iv); (rest, iv') = cbc_enc c k b (drop 16 src)
         in (b @ rest, iv')))"
  by auto
termination by (relation "measure (\<lambda>(c, k, iv, src). length src)") auto

function cbc_dec :: "crypto \<Rightarrow> bytes \<Rightarrow> bytes \<Rightarrow> bytes \<Rightarrow> bytes \<times> bytes" where
  "cbc_dec c k iv src =
     (if length src < 16 then ([], iv)
      else
        (let b = xor_bytes (aes_decrypt c k (take 16 src)) iv; (rest, iv') = cbc_dec c k (take 16 src) (drop 16 src)
         in (b @ rest, iv')))"
  by auto
termination by (relation "measure (\<lambda>(c, k, iv, src). length src)") auto

declare cbc_enc.simps [simp del] cbc_dec.simps [simp del]

definition new_cbc :: "bytes \<Rightarrow> bytes \<Rightarrow> cbc_error + unit" where
  "new_cbc key iv =
     (if \<not> aes_key key then Inl (BadKey (length key))
      else if length iv \<noteq> block_size then Inl (BadIVPanic (length iv))
      else Inr ())"

section \<open>One piece\<close>

definition unpad :: "bytes \<Rightarrow> cbc_error + bytes" where
  "unpad src =
     (let len = length src; padLen = unat (last src) in
      if padLen > len then Inl (PaddingTooLong padLen len) else Inr (take (len - padLen) src))"

definition cbc_Decrypt :: "crypto \<Rightarrow> bytes \<Rightarrow> bytes \<Rightarrow> bytes \<Rightarrow> cbc_error + bytes" where
  "cbc_Decrypt c key iv ciphertext =
     (if \<not> aes_key key then Inl (BadKey (length key))
      else if length ciphertext = 0 \<or> length ciphertext mod block_size \<noteq> 0 then Inl (NotMultipleOfBlock (length ciphertext))
      else rbind (new_cbc key iv) (\<lambda>_. unpad (fst (cbc_dec c key iv ciphertext))))"

text \<open>
  Without an initialization vector, \<open>rnd\<close> is what the random source yields; it is put before the
  ciphertext.
\<close>

definition cbc_Encrypt ::
  "crypto \<Rightarrow> bytes option \<Rightarrow> bytes \<Rightarrow> bytes option \<Rightarrow> bytes \<Rightarrow> cbc_error + bytes" where
  "cbc_Encrypt c rnd key iv plaintext =
     (let sizeOfLastBlock = length plaintext mod block_size;
          paddingLen = block_size - sizeOfLastBlock;
          plaintextStart = take (length plaintext - sizeOfLastBlock) plaintext;
          lastBlock = drop (length plaintext - sizeOfLastBlock) plaintext @ replicate paddingLen (word_of_nat paddingLen)
      in if length plaintextStart mod block_size \<noteq> 0 then Inl (BadPlaintextSize (length plaintextStart))
         else if length lastBlock \<noteq> block_size then Inl (BadLastBlock (length lastBlock))
         else if \<not> aes_key key then Inl (BadKey (length key))
         else
           (case iv of
              None \<Rightarrow>
                (case rnd of
                   None \<Rightarrow> Inl NoRandom
                 | Some iv \<Rightarrow>
                     rbind (new_cbc key iv) (\<lambda>_.
                       let (out1, iv1) = cbc_enc c key iv plaintextStart; (out2, iv2) = cbc_enc c key iv1 lastBlock
                       in Inr (iv @ out1 @ out2)))
            | Some iv \<Rightarrow>
                rbind (new_cbc key iv) (\<lambda>_.
                  let (out1, iv1) = cbc_enc c key iv plaintextStart; (out2, iv2) = cbc_enc c key iv1 lastBlock
                  in Inr (out1 @ out2))))"

section \<open>Files in place\<close>

record cbc_file =
  cf_data :: bytes
  cf_stat_ok :: bool
  cf_readable :: nat
  cf_writable :: nat
  cf_truncate_ok :: bool

text \<open>Reads and writes succeed below the positions \<open>cf_readable\<close> and \<open>cf_writable\<close>.\<close>

definition write_at :: "bytes \<Rightarrow> nat \<Rightarrow> bytes \<Rightarrow> bytes" where
  "write_at old off d = take off old @ replicate (off - length old) 0 @ d @ drop (off + length d) old"

function DecryptFile_loop ::
  "crypto \<Rightarrow> bytes \<Rightarrow> nat \<Rightarrow> nat \<Rightarrow> nat \<Rightarrow> bytes \<Rightarrow> byte \<Rightarrow> cbc_file \<Rightarrow> cbc_error + (byte \<times> cbc_file)" where
  "DecryptFile_loop c key bufSize fileSize writePtr iv lastByte file =
     (if bufSize = 0 \<or> writePtr \<ge> fileSize then Inr (lastByte, file)
      else
        (let n = (if writePtr + bufSize > fileSize then fileSize - writePtr else bufSize);
             buf = take n (drop writePtr (cf_data file))
         in if writePtr + n > cf_readable file \<or> length buf \<noteq> n then Inl ReadFailed
            else
              (let (out, iv') = cbc_dec c key iv buf in
               if writePtr + n > cf_writable file then Inl WriteFailed
               else DecryptFile_loop c key n fileSize (writePtr + n) iv' (last out)
                 (file\<lparr>cf_data := write_at (cf_data file) writePtr out\<rparr>))))"
  by auto
termination
  by (relation "measure (\<lambda>(c, key, bufSize, fileSize, writePtr, iv, lastByte, file). fileSize - writePtr)") auto

declare DecryptFile_loop.simps [simp del]

definition DecryptFile :: "crypto \<Rightarrow> bytes \<Rightarrow> bytes \<Rightarrow> cbc_file \<Rightarrow> cbc_error + cbc_file" where
  "DecryptFile c key iv file =
     rbind (new_cbc key iv) (\<lambda>_.
       if \<not> cf_stat_ok file then Inl StatFailed
       else
         (let fileSize = length (cf_data file) in
          if fileSize mod block_size \<noteq> 0 then Inl (NotMultipleOfBlock fileSize)
          else
            rbind (DecryptFile_loop c key (min (32 * 1024) fileSize) fileSize 0 iv 0 file) (\<lambda>(lastByte, file).
              if unat lastByte > fileSize then Inl (PaddingTooLong (unat lastByte) fileSize)
              else if \<not> cf_truncate_ok file then Inl TruncateFailed
              else Inr (file\<lparr>cf_data := take (fileSize - unat lastByte) (cf_data file)\<rparr>))))"

section \<open>Streams\<close>

text \<open>
  A sink is a random access writer or a plain one. A call of a plain one accepts at most as many bytes
  as \<open>sk_chunk\<close> says for the bytes accepted so far, so the sizes of partial writes are arbitrary; both
  fail beyond \<open>sk_limit\<close> bytes. A source is the bytes left to read, and whether reading
  fails after them.
\<close>

record sink =
  sk_at :: bool
  sk_out :: bytes
  sk_limit :: nat
  sk_chunk :: "nat \<Rightarrow> nat"

record source =
  so_bytes :: bytes
  so_fails :: bool

datatype read_end = FullRead | EndOfFile | ReadErr

definition ReadFull :: "nat \<Rightarrow> source \<Rightarrow> bytes \<times> read_end \<times> source" where
  "ReadFull n src =
     (if length (so_bytes src) \<ge> n then (take n (so_bytes src), FullRead, src\<lparr>so_bytes := drop n (so_bytes src)\<rparr>)
      else (so_bytes src, if so_fails src then ReadErr else EndOfFile, src\<lparr>so_bytes := []\<rparr>))"

function writeAll :: "bytes \<Rightarrow> sink \<Rightarrow> (cbc_error + unit) \<times> sink" where
  "writeAll d sk =
     (if length d = 0 then (Inr (), sk)
      else
        (let n = min (sk_chunk sk (length (sk_out sk))) (length d) in
         if length (sk_out sk) + n > sk_limit sk then (Inl WriteFailed, sk)
         else if n = 0 then (Inl ShortWrite, sk)
         else writeAll (drop n d) (sk\<lparr>sk_out := sk_out sk @ take n d\<rparr>)))"
  by auto
termination by (relation "measure (\<lambda>(d, sk). length d)") auto

declare writeAll.simps [simp del]

definition sink_write :: "nat \<Rightarrow> bytes \<Rightarrow> sink \<Rightarrow> (cbc_error + unit) \<times> sink" where
  "sink_write writePtr d sk =
     (if sk_at sk then
        (if writePtr + length d > sk_limit sk then (Inl WriteFailed, sk)
         else (Inr (), sk\<lparr>sk_out := write_at (sk_out sk) writePtr d\<rparr>))
      else writeAll d sk)"

record stream_state =
  st_plain :: bytes
  st_cipher :: bytes
  st_size :: nat
  st_extra :: nat
  st_ptr :: nat

abbreviation (input) stream_buf :: nat where
  "stream_buf \<equiv> 32 * 1024"

text \<open>
  The hashers and the MAC are the bytes written to them so far (the MAC starts with the
  initialization vector).
\<close>

function EncryptStream_loop ::
  "crypto \<Rightarrow> bytes \<Rightarrow> bytes \<Rightarrow> source \<Rightarrow> stream_state \<Rightarrow> sink \<Rightarrow> cbc_error + (stream_state \<times> sink)" where
  "EncryptStream_loop c key iv src st sk =
     (let (buf, end, src') = ReadFull stream_buf src;
          st = st\<lparr>st_plain := st_plain st @ buf, st_size := st_size st + length buf\<rparr>
      in if end = ReadErr then Inl ReadFailed
         else
           (let padding = block_size - st_size st mod block_size;
                hasMore = (end = FullRead);
                buf = (if hasMore then buf else buf @ replicate padding (word_of_nat padding));
                st = (if hasMore then st else st\<lparr>st_extra := padding\<rparr>);
                (out, iv') = cbc_enc c key iv buf;
                st = st\<lparr>st_cipher := st_cipher st @ out\<rparr>
            in case sink_write (st_ptr st) out sk of
                 (Inl e, sk) \<Rightarrow> Inl e
               | (Inr _, sk) \<Rightarrow>
                   (let st = st\<lparr>st_ptr := st_ptr st + length out\<rparr>
                    in if hasMore then EncryptStream_loop c key iv' src' st sk else Inr (st, sk))))"
  by auto
termination
  by (relation "measure (\<lambda>(c, key, iv, src, st, sk). length (so_bytes src))")
    (auto simp: ReadFull_def Let_def split: if_splits)

declare EncryptStream_loop.simps [simp del]

definition EncryptStream ::
  "crypto \<Rightarrow> bytes \<Rightarrow> bytes \<Rightarrow> bytes \<Rightarrow> source \<Rightarrow> sink \<Rightarrow> cbc_error + ((bytes \<times> bytes \<times> nat \<times> nat) \<times> sink)" where
  "EncryptStream c key iv macKey src sk =
     rbind (new_cbc key iv) (\<lambda>_.
     rbind (EncryptStream_loop c key iv src
         \<lparr>st_plain = [], st_cipher = [], st_size = 0, st_extra = 0, st_ptr = 0\<rparr> sk) (\<lambda>(st, sk).
       let mac = take 10 (hmac_sha256 c macKey (iv @ st_cipher st)) in
       case sink_write (st_ptr st) mac sk of
         (Inl e, sk) \<Rightarrow> Inl e
       | (Inr _, sk) \<Rightarrow>
           Inr ((sha256 c (st_plain st), sha256 c (st_cipher st @ mac), st_size st, st_size st + st_extra st + 10), sk)))"

section \<open>The block mode is invertible and incremental\<close>

lemma cbc_enc_simps:
  "length src < 16 \<Longrightarrow> cbc_enc c k iv src = ([], iv)"
  "16 \<le> length src \<Longrightarrow> cbc_enc c k iv src =
     (aes_encrypt c k (xor_bytes (take 16 src) iv) @ fst (cbc_enc c k (aes_encrypt c k (xor_bytes (take 16 src) iv)) (drop 16 src)),
      snd (cbc_enc c k (aes_encrypt c k (xor_bytes (take 16 src) iv)) (drop 16 src)))"
  by (subst cbc_enc.simps, simp add: Let_def split_beta)+

lemma cbc_dec_simps:
  "length src < 16 \<Longrightarrow> cbc_dec c k iv src = ([], iv)"
  "16 \<le> length src \<Longrightarrow> cbc_dec c k iv src =
     (xor_bytes (aes_decrypt c k (take 16 src)) iv @ fst (cbc_dec c k (take 16 src) (drop 16 src)),
      snd (cbc_dec c k (take 16 src) (drop 16 src)))"
  by (subst cbc_dec.simps, simp add: Let_def split_beta)+

lemma xor_bytes_length [simp]: "length (xor_bytes a b) = min (length a) (length b)"
  by (simp add: xor_bytes_def)

lemma xor_bytes_twice: "length a = length b \<Longrightarrow> xor_bytes (xor_bytes a b) b = a"
  by (rule nth_equalityI) (simp_all add: xor_bytes_def xor.assoc)

text \<open>Induction over the blocks of a text.\<close>

lemma blocks_induct [consumes 1, case_names Nil Block]:
  assumes "16 dvd length src" and "P []"
    and "\<And>b src. length b = 16 \<Longrightarrow> 16 dvd length src \<Longrightarrow> P src \<Longrightarrow> P (b @ src)"
  shows "P src"
  using assms(1)
proof (induction "length src" arbitrary: src rule: less_induct)
  case less
  show ?case
  proof (cases "src = []")
    case False
    then have len: "16 \<le> length src" using less.prems dvd_imp_le [of 16 "length src"] by simp
    then have "16 dvd length (drop 16 src)" using less.prems by (simp add: dvd_diff_nat)
    moreover from this have "P (drop 16 src)" using less.hyps [of "drop 16 src"] len by simp
    ultimately show ?thesis using assms(3) [of "take 16 src" "drop 16 src"] len by simp
  qed (simp add: assms(2))
qed

lemma cbc_enc_block: "length b = 16 \<Longrightarrow> cbc_enc c k iv (b @ src) =
     (aes_encrypt c k (xor_bytes b iv) @ fst (cbc_enc c k (aes_encrypt c k (xor_bytes b iv)) src),
      snd (cbc_enc c k (aes_encrypt c k (xor_bytes b iv)) src))"
  by (simp add: cbc_enc_simps(2))

lemma cbc_dec_block: "length b = 16 \<Longrightarrow> cbc_dec c k iv (b @ src) =
     (xor_bytes (aes_decrypt c k b) iv @ fst (cbc_dec c k b src), snd (cbc_dec c k b src))"
  by (simp add: cbc_dec_simps(2))

lemma cbc_enc_append:
  assumes "16 dvd length a"
  shows "cbc_enc c k iv (a @ b) =
     (fst (cbc_enc c k iv a) @ fst (cbc_enc c k (snd (cbc_enc c k iv a)) b), snd (cbc_enc c k (snd (cbc_enc c k iv a)) b))"
  using assms by (induction a arbitrary: iv rule: blocks_induct) (simp_all add: cbc_enc_simps(1) cbc_enc_block)

lemma cbc_dec_append:
  assumes "16 dvd length a"
  shows "cbc_dec c k iv (a @ b) =
     (fst (cbc_dec c k iv a) @ fst (cbc_dec c k (snd (cbc_dec c k iv a)) b), snd (cbc_dec c k (snd (cbc_dec c k iv a)) b))"
  using assms by (induction a arbitrary: iv rule: blocks_induct) (simp_all add: cbc_dec_simps(1) cbc_dec_block)

lemma cbc_enc_length:
  assumes "16 dvd length src" "aes_correct c" "aes_key k"
  shows "length iv = 16 \<Longrightarrow>
    length (fst (cbc_enc c k iv src)) = length src \<and> length (snd (cbc_enc c k iv src)) = 16"
  using assms(1) by (induction src arbitrary: iv rule: blocks_induct)
    (use assms(2-) in \<open>simp_all add: cbc_enc_simps(1) cbc_enc_block aes_correct_def block_size_def\<close>)

lemma cbc_dec_enc:
  assumes "16 dvd length src" "aes_correct c" "aes_key k"
  shows "length iv = 16 \<Longrightarrow> fst (cbc_dec c k iv (fst (cbc_enc c k iv src))) = src"
  using assms(1) by (induction src arbitrary: iv rule: blocks_induct)
    (use assms(2-) in \<open>simp_all add: cbc_enc_simps(1) cbc_dec_simps(1) cbc_enc_block cbc_dec_block aes_correct_def
      block_size_def xor_bytes_twice\<close>)

lemma cbc_dec_length:
  assumes "16 dvd length src" "aes_correct c" "aes_key k"
  shows "length iv = 16 \<Longrightarrow>
    length (fst (cbc_dec c k iv src)) = length src \<and> length (snd (cbc_dec c k iv src)) = 16"
  using assms(1) by (induction src arbitrary: iv rule: blocks_induct)
    (use assms(2-) in \<open>simp_all add: cbc_dec_simps(1) cbc_dec_block aes_correct_def block_size_def\<close>)

section \<open>Padding\<close>

definition padding_of :: "nat \<Rightarrow> bytes" where
  "padding_of n = replicate (16 - n mod 16) (word_of_nat (16 - n mod 16))"

lemma length_padding_of: "length (padding_of n) = 16 - n mod 16"
  by (simp add: padding_of_def)

lemma padded_blocks: "16 dvd n + length (padding_of n)"
proof -
  have "n + (16 - n mod 16) = n div 16 * 16 + 16" using div_mult_mod_eq [of n 16] mod_less_divisor [of 16 n] by linarith
  then show ?thesis by (simp add: length_padding_of)
qed

lemma unpad_padding: "unpad (p @ padding_of (length p)) = Inr p"
proof -
  let ?n = "16 - length p mod 16"
  have "0 < ?n" "?n < 256" by simp_all
  then have "last (padding_of (length p)) = word_of_nat ?n" "unat (word_of_nat ?n :: byte) = ?n"
    by (simp_all add: padding_of_def last_replicate unsigned_of_nat take_bit_nat_eq_self del: of_nat_diff)
  moreover have "padding_of (length p) \<noteq> []" by (simp add: padding_of_def)
  ultimately show ?thesis by (simp add: unpad_def Let_def length_padding_of)
qed

lemma cbc_Encrypt_eq:
  assumes "aes_key k" "length iv = 16"
  shows "cbc_Encrypt c rnd k (Some iv) p = Inr (fst (cbc_enc c k iv (p @ padding_of (length p))))"
proof -
  let ?r = "length p mod 16" and ?m = "length p - length p mod 16"
  have m: "16 dvd ?m" by (simp add: minus_mod_eq_mult_div)
  have r: "?r < 16" by simp
  have split: "p @ padding_of (length p) = take ?m p @ drop ?m p @ padding_of (length p)" by simp
  have "?m \<le> length p" by simp
  with m r show ?thesis
    using assms by (subst split, subst cbc_enc_append)
      (simp_all add: cbc_Encrypt_def Let_def block_size_def new_cbc_def padding_of_def split_beta)
qed

lemma cbc_decrypts:
  assumes "aes_correct c" and "cbc_Encrypt c rnd k (Some iv) p = Inr e"
  shows "cbc_Decrypt c k iv e = Inr p"
proof -
  let ?p = "p @ padding_of (length p)"
  have ki: "aes_key k" "length iv = 16" using assms(2)
    by (auto simp: cbc_Encrypt_def Let_def rbind_eq_Inr new_cbc_def block_size_def split: if_splits)
  have b: "16 dvd length ?p" using padded_blocks [of "length p"] by simp
  have e: "e = fst (cbc_enc c k iv ?p)" using assms(2) cbc_Encrypt_eq [OF ki] by simp
  have "length e = length ?p" using cbc_enc_length [OF b assms(1) ki] e by simp
  moreover have "0 < length ?p" by (simp add: length_padding_of)
  ultimately show ?thesis
    using ki b cbc_dec_enc [OF b assms(1) ki] unpad_padding [of p]
    by (auto simp: cbc_Decrypt_def new_cbc_def block_size_def e dvd_eq_mod_eq_0)
qed

text \<open>With a random initialization vector, it comes before the ciphertext.\<close>

lemma cbc_Encrypt_random:
  assumes "cbc_Encrypt c rnd k None p = Inr e"
  obtains iv e' where "rnd = Some iv" and "length iv = 16" and "e = iv @ e'"
    and "cbc_Encrypt c rnd k (Some iv) p = Inr e'"
  using assms
  by (fastforce simp: cbc_Encrypt_def Let_def rbind_eq_Inr new_cbc_def block_size_def split: if_splits option.splits prod.splits)

lemma cbc_decrypts_random:
  assumes "aes_correct c" and "cbc_Encrypt c rnd k None p = Inr e"
  shows "16 \<le> length e" and "cbc_Decrypt c k (take 16 e) (drop 16 e) = Inr p"
proof -
  obtain iv e' where "length iv = 16" "e = iv @ e'" "cbc_Encrypt c rnd k (Some iv) p = Inr e'"
    using cbc_Encrypt_random [OF assms(2)] by blast
  with cbc_decrypts [OF assms(1)] show "16 \<le> length e" "cbc_Decrypt c k (take 16 e) (drop 16 e) = Inr p" by simp_all
qed

text \<open>
  C17: CBC decryption undoes CBC encryption for every plaintext, with the initialization vector the
  caller gave, or with the random one that was put before the ciphertext.
\<close>

theorem cbc_roundtrip:
  assumes "aes_correct c" and "cbc_Encrypt c rnd k iv p = Inr e"
  shows "(case iv of Some iv \<Rightarrow> cbc_Decrypt c k iv e | None \<Rightarrow> cbc_Decrypt c k (take 16 e) (drop 16 e)) = Inr p"
  using assms cbc_decrypts cbc_decrypts_random(2) by (cases iv) auto

theorem cbc_roundtrip_witness:
  "\<exists>e. cbc_Encrypt plain_crypto None (replicate 16 0) (Some (replicate 16 7)) [1, 2, 3] = Inr e \<and>
     cbc_Decrypt plain_crypto (replicate 16 0) (replicate 16 7) e = Inr [1, 2, 3]"
proof -
  have "aes_key (replicate 16 0)" by (simp add: aes_key_def)
  from cbc_Encrypt_eq [OF this, of "replicate 16 7" plain_crypto None "[1, 2, 3]"] obtain e where
    e: "cbc_Encrypt plain_crypto None (replicate 16 0) (Some (replicate 16 7)) [1, 2, 3] = Inr e" by auto
  from cbc_roundtrip [OF plain_crypto_correct(1) e] show ?thesis using e by simp
qed

section \<open>The streaming encryption\<close>

lemma writeAll_ok:
  "(\<And>i. 0 < sk_chunk sk i) \<Longrightarrow> length (sk_out sk) + length d \<le> sk_limit sk \<Longrightarrow>
   writeAll d sk = (Inr (), sk\<lparr>sk_out := sk_out sk @ d\<rparr>)"
proof (induction d sk rule: writeAll.induct)
  case (1 d sk)
  show ?case
  proof (cases "d = []")
    case True
    then show ?thesis by (subst writeAll.simps) simp
  next
    case False
    let ?n = "min (sk_chunk sk (length (sk_out sk))) (length d)"
    have "0 < ?n" "length (sk_out sk) + ?n \<le> sk_limit sk" using 1(2,3) False by auto
    with 1(1) [of ?n] 1(2,3) False show ?thesis
      by (subst writeAll.simps) (simp add: Let_def min_def not_less split: if_splits)
  qed
qed

text \<open>A sink that takes everything, holding what was there before (nothing, if it is written by position).\<close>

definition sink_at :: "nat \<Rightarrow> bytes \<Rightarrow> bytes \<Rightarrow> sink \<Rightarrow> bool" where
  "sink_at limit base out sk \<longleftrightarrow>
     sk_out sk = base @ out \<and> sk_limit sk = limit \<and> (\<forall>i. 0 < sk_chunk sk i) \<and> (sk_at sk \<longrightarrow> base = [])"

lemma sink_write_ok:
  assumes "sink_at limit base out sk" "length base + length out + length d \<le> limit"
  shows "\<exists>sk'. sink_write (length out) d sk = (Inr (), sk') \<and> sink_at limit base (out @ d) sk'"
  using assms
  by (auto simp: sink_write_def sink_at_def write_at_def writeAll_ok)

lemma stream_last:
  assumes "ReadFull stream_buf src = (buf, EndOfFile, src')"
    and "out = fst (cbc_enc c k iv (buf @ replicate pad (word_of_nat pad)))"
    and "pad = 16 - (st_size st + length buf) mod 16"
    and "sink_write (st_ptr st) out sk = (Inr (), sk')"
  shows "EncryptStream_loop c k iv src st sk =
    Inr (st\<lparr>st_plain := st_plain st @ buf, st_size := st_size st + length buf, st_extra := pad,
      st_cipher := st_cipher st @ out, st_ptr := st_ptr st + length out\<rparr>, sk')"
  using assms by (subst EncryptStream_loop.simps) (simp only: Let_def split_beta, simp add: block_size_def)

lemma stream_more:
  assumes "ReadFull stream_buf src = (buf, FullRead, src')"
    and "(out, iv') = cbc_enc c k iv buf"
    and "sink_write (st_ptr st) out sk = (Inr (), sk')"
  shows "EncryptStream_loop c k iv src st sk =
    EncryptStream_loop c k iv' src' (st\<lparr>st_plain := st_plain st @ buf, st_size := st_size st + length buf,
      st_cipher := st_cipher st @ out, st_ptr := st_ptr st + length out\<rparr>) sk'"
  using assms(1,3) assms(2) [symmetric]
  by (subst EncryptStream_loop.simps) (simp only: Let_def split_beta, simp add: block_size_def)

lemma padding_of_mod: "m mod 16 = n mod 16 \<Longrightarrow> padding_of m = padding_of n"
  by (simp add: padding_of_def)

definition stream_out :: "crypto \<Rightarrow> bytes \<Rightarrow> bytes \<Rightarrow> bytes \<Rightarrow> bytes" where
  "stream_out c k iv d = fst (cbc_enc c k iv (d @ padding_of (length d)))"

lemma stream_out_length:
  assumes "aes_correct c" "aes_key k" "length iv = 16"
  shows "length (stream_out c k iv d) = length d + length (padding_of (length d))"
  using cbc_enc_length [OF _ assms] padded_blocks [of "length d"] by (simp add: stream_out_def)

lemma stream_out_split:
  assumes "n \<le> length d" "16 dvd n"
  shows "stream_out c k iv d =
    fst (cbc_enc c k iv (take n d)) @ stream_out c k (snd (cbc_enc c k iv (take n d))) (drop n d)"
proof -
  have "(length d - n) mod 16 = length d mod 16" using assms by (metis dvd_imp_mod_0 le_add_diff_inverse mod_add_left_eq add_0)
  then have "padding_of (length (drop n d)) = padding_of (length d)" by (intro padding_of_mod) simp
  then show ?thesis
    using cbc_enc_append [of "take n d" c k iv "drop n d @ padding_of (length d)"] assms
    by (simp add: stream_out_def flip: append_assoc)
qed

lemma EncryptStream_loop_ok:
  assumes "aes_correct c" "aes_key k"
  shows "length iv = 16 \<Longrightarrow> \<not> so_fails src \<Longrightarrow> 16 dvd st_size st \<Longrightarrow> st_ptr st = length (st_cipher st) \<Longrightarrow>
    sink_at limit base (st_cipher st) sk \<Longrightarrow>
    length base + length (st_cipher st) + length (so_bytes src) + 16 \<le> limit \<Longrightarrow>
    \<exists>sk'. EncryptStream_loop c k iv src st sk =
      Inr (st\<lparr>st_plain := st_plain st @ so_bytes src, st_size := st_size st + length (so_bytes src),
        st_extra := 16 - length (so_bytes src) mod 16, st_cipher := st_cipher st @ stream_out c k iv (so_bytes src),
        st_ptr := length (st_cipher st @ stream_out c k iv (so_bytes src))\<rparr>, sk') \<and>
      sink_at limit base (st_cipher st @ stream_out c k iv (so_bytes src)) sk'"
proof (induction "length (so_bytes src)" arbitrary: iv src st sk rule: less_induct)
  case less
  let ?d = "so_bytes src"
  note iv = less.prems(1)
  show ?case
  proof (cases "length ?d \<ge> stream_buf")
    case False
    then have rd: "ReadFull stream_buf src = (?d, EndOfFile, src\<lparr>so_bytes := []\<rparr>)"
      using less.prems(2) by (simp add: ReadFull_def)
    have m: "16 - (st_size st + length ?d) mod 16 = 16 - length ?d mod 16"
      using less.prems(3) by (auto elim!: dvdE)
    have out: "stream_out c k iv ?d = fst (cbc_enc c k iv (?d @ replicate (16 - length ?d mod 16) (word_of_nat (16 - length ?d mod 16))))"
      by (simp add: stream_out_def padding_of_def)
    have "length (stream_out c k iv ?d) \<le> length ?d + 16"
      by (simp add: stream_out_length [OF assms iv] length_padding_of)
    with less.prems(6) have "length base + length (st_cipher st) + length (stream_out c k iv ?d) \<le> limit" by simp
    from sink_write_ok [OF less.prems(5) this] obtain sk' where
      w: "sink_write (length (st_cipher st)) (stream_out c k iv ?d) sk = (Inr (), sk')"
      "sink_at limit base (st_cipher st @ stream_out c k iv ?d) sk'" by blast
    from stream_last [OF rd out m [symmetric], where sk = sk and sk' = sk'] w less.prems(4) show ?thesis
      by (intro exI [of _ sk']) simp
  next
    case True
    let ?n = "stream_buf" and ?src = "src\<lparr>so_bytes := drop stream_buf ?d\<rparr>"
    obtain out iv' where enc: "(out, iv') = cbc_enc c k iv (take ?n ?d)" by (cases "cbc_enc c k iv (take ?n ?d)") simp
    have b: "16 dvd length (take ?n ?d)" using True by simp
    have rd: "ReadFull ?n src = (take ?n ?d, FullRead, ?src)" using True by (simp add: ReadFull_def)
    have len: "length out = ?n" "length iv' = 16"
      using cbc_enc_length [OF b assms iv] True enc [symmetric] by simp_all
    then have "length base + length (st_cipher st) + length out \<le> limit" using less.prems(6) True by simp
    from sink_write_ok [OF less.prems(5) this] obtain sk1 where
      w: "sink_write (length (st_cipher st)) out sk = (Inr (), sk1)" "sink_at limit base (st_cipher st @ out) sk1" by blast
    have split: "stream_out c k iv ?d = out @ stream_out c k iv' (drop ?n ?d)"
      using stream_out_split [of ?n ?d c k iv] True enc [symmetric] by simp
    have m: "length (drop ?n ?d) mod 16 = length ?d mod 16"
    proof -
      have "length ?d = length (drop ?n ?d) + 16 * 2048" using True by simp
      then show ?thesis by (metis mod_mult_self2)
    qed
    let ?st = "st\<lparr>st_plain := st_plain st @ take ?n ?d, st_size := st_size st + length (take ?n ?d),
      st_cipher := st_cipher st @ out, st_ptr := st_ptr st + length out\<rparr>"
    have "\<exists>sk'. EncryptStream_loop c k iv' ?src ?st sk1 =
      Inr (?st\<lparr>st_plain := st_plain ?st @ so_bytes ?src, st_size := st_size ?st + length (so_bytes ?src),
        st_extra := 16 - length (so_bytes ?src) mod 16, st_cipher := st_cipher ?st @ stream_out c k iv' (so_bytes ?src),
        st_ptr := length (st_cipher ?st @ stream_out c k iv' (so_bytes ?src))\<rparr>, sk') \<and>
      sink_at limit base (st_cipher ?st @ stream_out c k iv' (so_bytes ?src)) sk'"
      using less.prems True len w(2) by (intro less.hyps) (auto simp: dvd_add)
    with stream_more [OF rd enc, of st sk sk1] w(1) less.prems(4) split m True show ?thesis by simp
  qed
qed

text \<open>
  C18: the streaming encryption writes what the one-piece encryption returns, followed by the first
  ten bytes of the MAC over the initialization vector and the ciphertext, and returns the hashes
  and sizes of what went in and out; for any input size, and for sinks that take writes by
  position or in pieces of any sizes.
\<close>

theorem EncryptStream_correct:
  assumes "aes_correct c" "sha_correct c" "aes_key k" "length iv = 16"
    and "\<not> so_fails src" "sink_at limit base [] sk" "length base + length (so_bytes src) + 26 \<le> limit"
  shows "\<exists>e mac sk'. cbc_Encrypt c rnd k (Some iv) (so_bytes src) = Inr e \<and>
    mac = take 10 (hmac_sha256 c macKey (iv @ e)) \<and>
    EncryptStream c k iv macKey src sk =
      Inr ((sha256 c (so_bytes src), sha256 c (e @ mac), length (so_bytes src), length (e @ mac)), sk') \<and>
    sk_out sk' = base @ e @ mac"
proof -
  let ?d = "so_bytes src" and ?e = "stream_out c k iv (so_bytes src)"
  let ?mac = "take 10 (hmac_sha256 c macKey (iv @ ?e))"
  let ?st = "\<lparr>st_plain = [], st_cipher = [], st_size = 0, st_extra = 0, st_ptr = 0\<rparr>"
  have len: "length ?e = length ?d + (16 - length ?d mod 16)"
    by (simp add: stream_out_length [OF assms(1,3,4)] length_padding_of)
  have mac: "length ?mac = 10" using assms(2) by (simp add: sha_correct_def)
  obtain sk1 where loop: "EncryptStream_loop c k iv src ?st sk =
      Inr (\<lparr>st_plain = ?d, st_cipher = ?e, st_size = length ?d, st_extra = 16 - length ?d mod 16, st_ptr = length ?e\<rparr>, sk1)"
    "sink_at limit base ?e sk1"
    using EncryptStream_loop_ok [OF assms(1,3,4,5), of ?st limit base sk] assms(6,7) by auto
  have "length base + length ?e + length ?mac \<le> limit" using len mac assms(7) by linarith
  from sink_write_ok [OF loop(2) this] obtain sk2 where
    w: "sink_write (length ?e) ?mac sk1 = (Inr (), sk2)" "sink_at limit base (?e @ ?mac) sk2" by blast
  have "EncryptStream c k iv macKey src sk = Inr ((sha256 c ?d, sha256 c (?e @ ?mac), length ?d, length (?e @ ?mac)), sk2)"
    using assms(3,4) len mac loop(1) w(1) by (simp add: EncryptStream_def new_cbc_def block_size_def)
  moreover have "cbc_Encrypt c rnd k (Some iv) ?d = Inr ?e"
    by (simp add: cbc_Encrypt_eq [OF assms(3,4)] stream_out_def)
  moreover have "sk_out sk2 = base @ ?e @ ?mac" using w(2) by (simp add: sink_at_def)
  ultimately show ?thesis by blast
qed

theorem EncryptStream_correct_witness:
  "\<exists>e mac sk'. cbc_Encrypt plain_crypto None (replicate 32 1) (Some (replicate 16 7)) [1, 2, 3] = Inr e \<and>
    mac = take 10 (hmac_sha256 plain_crypto [5] (replicate 16 7 @ e)) \<and>
    EncryptStream plain_crypto (replicate 32 1) (replicate 16 7) [5] \<lparr>so_bytes = [1, 2, 3], so_fails = False\<rparr>
        \<lparr>sk_at = False, sk_out = [9], sk_limit = 1000, sk_chunk = (\<lambda>i. Suc (i mod 5))\<rparr> =
      Inr ((sha256 plain_crypto [1, 2, 3], sha256 plain_crypto (e @ mac), 3, length (e @ mac)), sk') \<and>
    sk_out sk' = [9] @ e @ mac"
  using EncryptStream_correct [OF plain_crypto_correct(1,4), of "replicate 32 1" "replicate 16 7"
      "\<lparr>so_bytes = [1, 2, 3], so_fails = False\<rparr>" 1000 "[9]" "\<lparr>sk_at = False, sk_out = [9], sk_limit = 1000, sk_chunk = (\<lambda>i. Suc (i mod 5))\<rparr>"
      None "[5]"]
  by (simp add: aes_key_def sink_at_def numeral_3_eq_3)

section \<open>The in-place decryption\<close>

lemma write_at_inside: "off + length d \<le> length old \<Longrightarrow> write_at old off d = take off old @ d @ drop (off + length d) old"
  by (simp add: write_at_def)

lemma DecryptFile_loop_step:
  assumes "0 < bufSize" "writePtr < fileSize"
    and "n = min bufSize (fileSize - writePtr)" "buf = take n (drop writePtr (cf_data fl))" "length buf = n"
    and "writePtr + n \<le> cf_readable fl" "writePtr + n \<le> cf_writable fl" "(out, iv') = cbc_dec c k iv buf"
  shows "DecryptFile_loop c k bufSize fileSize writePtr iv l fl =
    DecryptFile_loop c k n fileSize (writePtr + n) iv' (last out) (fl\<lparr>cf_data := write_at (cf_data fl) writePtr out\<rparr>)"
proof -
  have n: "(if fileSize < writePtr + bufSize then fileSize - writePtr else bufSize) = n" using assms(3) by auto
  show ?thesis
    by (subst DecryptFile_loop.simps)
      (use assms(1,2,4-7) assms(8) [symmetric] in \<open>simp only: Let_def n, simp\<close>)
qed

lemma DecryptFile_loop_ok:
  assumes "aes_correct c" "aes_key k"
  shows "length iv = 16 \<Longrightarrow> 0 < B \<Longrightarrow> 16 dvd B \<Longrightarrow> 16 dvd length R \<Longrightarrow> cf_data fl = P @ R \<Longrightarrow>
    length P + length R \<le> cf_readable fl \<Longrightarrow> length P + length R \<le> cf_writable fl \<Longrightarrow>
    DecryptFile_loop c k B (length P + length R) (length P) iv l fl =
      Inr (if R = [] then l else last (fst (cbc_dec c k iv R)), fl\<lparr>cf_data := P @ fst (cbc_dec c k iv R)\<rparr>)"
proof (induction "length R" arbitrary: iv B P R fl l rule: less_induct)
  case less
  show ?case
  proof (cases "R = []")
    case True
    then show ?thesis using less.prems(5) by (subst DecryptFile_loop.simps) (simp add: cbc_dec_simps(1))
  next
    case False
    define n where "n = min B (length R)"
    have n: "16 dvd n" "0 < n" "n \<le> length R" using less.prems False by (auto simp: n_def min_def)
    obtain out iv' where dec: "(out, iv') = cbc_dec c k iv (take n R)" by (cases "cbc_dec c k iv (take n R)") simp
    have len: "length out = n" "length iv' = 16"
      using cbc_dec_length [OF _ assms less.prems(1), of "take n R"] n dec [symmetric] by simp_all
    let ?file = "fl\<lparr>cf_data := (P @ out) @ drop n R\<rparr>"
    have "write_at (cf_data fl) (length P) out = (P @ out) @ drop n R"
      using len n less.prems(5) by (simp add: write_at_inside)
    with DecryptFile_loop_step [OF less.prems(2), of "length P" "length P + length R" n "take n R" fl out iv' c k iv l]
      less.prems n dec False
    have step: "DecryptFile_loop c k B (length P + length R) (length P) iv l fl =
        DecryptFile_loop c k n (length (P @ out) + length (drop n R)) (length (P @ out)) iv' (last out) ?file"
      by (simp add: n_def len)
    have R: "fst (cbc_dec c k iv R) = out @ fst (cbc_dec c k iv' (drop n R))"
      using cbc_dec_append [of "take n R" c k iv "drop n R"] n dec [symmetric] by simp
    have b: "16 dvd length (drop n R)" using less.prems(4) n by (simp add: dvd_diff_nat)
    have "DecryptFile_loop c k n (length (P @ out) + length (drop n R)) (length (P @ out)) iv' (last out) ?file =
      Inr (if drop n R = [] then last out else last (fst (cbc_dec c k iv' (drop n R))),
        ?file\<lparr>cf_data := (P @ out) @ fst (cbc_dec c k iv' (drop n R))\<rparr>)"
      using less.prems n len b by (intro less.hyps) auto
    moreover have "length (fst (cbc_dec c k iv' (drop n R))) = length (drop n R)"
      using cbc_dec_length [OF b assms len(2)] by simp
    then have "drop n R \<noteq> [] \<Longrightarrow> fst (cbc_dec c k iv' (drop n R)) \<noteq> []" by auto
    ultimately show ?thesis unfolding step R using False by (auto simp: cbc_dec_simps(1))
  qed
qed

text \<open>
  C19: decrypting a file in place leaves what decrypting its contents in one piece returns, and
  fails with the same error; except that an empty file is accepted and left as it is.
\<close>

theorem DecryptFile_agrees:
  assumes "aes_correct c" "length iv = 16" and "cf_stat_ok fl" "cf_truncate_ok fl"
    "length (cf_data fl) \<le> cf_readable fl" "length (cf_data fl) \<le> cf_writable fl"
  shows "DecryptFile c k iv fl =
    (if cf_data fl = [] then (if aes_key k then Inr fl else Inl (BadKey (length k)))
     else map_sum id (\<lambda>p. fl\<lparr>cf_data := p\<rparr>) (cbc_Decrypt c k iv (cf_data fl)))"
proof (cases "aes_key k \<and> 16 dvd length (cf_data fl)")
  case True
  let ?d = "cf_data fl" and ?p = "fst (cbc_dec c k iv (cf_data fl))"
  have ok: "aes_key k" "16 dvd length ?d" using True by simp_all
  show ?thesis
  proof (cases "?d = []")
    case True
    then show ?thesis using ok assms
      by (simp add: DecryptFile_def new_cbc_def block_size_def DecryptFile_loop.simps [of _ _ 0])
  next
    case False
    have "0 < min (32 * 1024) (length ?d)" "16 dvd min (32 * 1024) (length ?d)"
      using False ok by (auto simp: min_def)
    from DecryptFile_loop_ok [OF assms(1) ok(1) assms(2) this ok(2), of fl "[]" 0] assms(5,6) False
    have "DecryptFile_loop c k (min (32 * 1024) (length ?d)) (length ?d) 0 iv 0 fl = Inr (last ?p, fl\<lparr>cf_data := ?p\<rparr>)"
      by simp
    with cbc_dec_length [OF ok(2) assms(1) ok(1) assms(2)] ok assms(2-4) False show ?thesis
      by (simp add: DecryptFile_def new_cbc_def block_size_def cbc_Decrypt_def unpad_def Let_def dvd_eq_mod_eq_0)
  qed
qed (use assms in \<open>auto simp: DecryptFile_def new_cbc_def block_size_def cbc_Decrypt_def dvd_eq_mod_eq_0\<close>)

theorem DecryptFile_agrees_witness:
  "DecryptFile plain_crypto (replicate 16 0) (replicate 16 0)
     \<lparr>cf_data = replicate 15 3 @ [1], cf_stat_ok = True, cf_readable = 16, cf_writable = 16, cf_truncate_ok = True\<rparr> =
   Inr \<lparr>cf_data = replicate 15 3, cf_stat_ok = True, cf_readable = 16, cf_writable = 16, cf_truncate_ok = True\<rparr>"
proof -
  let ?f = "\<lparr>cf_data = replicate 15 3 @ [1], cf_stat_ok = True, cf_readable = 16, cf_writable = 16, cf_truncate_ok = True\<rparr>"
  have "map2 (XOR) (replicate 15 3 @ [1 :: byte]) (replicate 16 0) = replicate 15 3 @ [1]"
    by (rule nth_equalityI) (simp_all add: nth_append)
  then have "cbc_Decrypt plain_crypto (replicate 16 0) (replicate 16 0) (cf_data ?f) = Inr (replicate 15 3)"
    by (simp add: cbc_Decrypt_def new_cbc_def aes_key_def block_size_def cbc_dec_simps unpad_def plain_crypto_def
        xor_bytes_def)
  with DecryptFile_agrees [OF plain_crypto_correct(1), of "replicate 16 0" ?f "replicate 16 0"] show ?thesis by simp
qed

end
