(* ===== verification/StateResult.thy ===== *)
theory StateResult
  imports Prelude
begin

text \<open>
  Operations that change a state and may fail: a function from the state to a result of type
  \<open>'e + 'a\<close> and the new state. An error keeps the changes made before it, as in the source.
\<close>

type_synonym ('s, 'e, 'a) sr = "'s \<Rightarrow> ('e + 'a) \<times> 's"

definition sret :: "'a \<Rightarrow> ('s, 'e, 'a) sr" where
  "sret x s = (Inr x, s)"

definition serr :: "'e \<Rightarrow> ('s, 'e, 'a) sr" where
  "serr e s = (Inl e, s)"

definition sbind :: "('s, 'e, 'a) sr \<Rightarrow> ('a \<Rightarrow> ('s, 'e, 'b) sr) \<Rightarrow> ('s, 'e, 'b) sr" where
  "sbind m f s = (case m s of (Inl e, s') \<Rightarrow> (Inl e, s') | (Inr x, s') \<Rightarrow> f x s')"

text \<open>A pure result, and a result whose error is wrapped by the caller (\<open>fmt.Errorf\<close> with \<open>%w\<close>).\<close>

definition slift :: "'e + 'a \<Rightarrow> ('s, 'e, 'a) sr" where
  "slift r s = (r, s)"

definition swrap :: "('e \<Rightarrow> 'f) \<Rightarrow> ('s, 'e, 'a) sr \<Rightarrow> ('s, 'f, 'a) sr" where
  "swrap g m s = (case m s of (Inl e, s') \<Rightarrow> (Inl (g e), s') | (Inr x, s') \<Rightarrow> (Inr x, s'))"

definition rwrap :: "('e \<Rightarrow> 'f) \<Rightarrow> 'e + 'a \<Rightarrow> 'f + 'a" where
  "rwrap g r = (case r of Inl e \<Rightarrow> Inl (g e) | Inr x \<Rightarrow> Inr x)"

lemma rwrap_simps [simp]: "rwrap g (Inl e) = Inl (g e)" "rwrap g (Inr x) = Inr x"
  by (simp_all add: rwrap_def)

lemma rwrap_eq_Inr [simp]: "rwrap g r = Inr x \<longleftrightarrow> r = Inr x"
  by (cases r) auto

lemma sret_app [simp]: "sret x s = (Inr x, s)"
  by (simp add: sret_def)

lemma serr_app [simp]: "serr e s = (Inl e, s)"
  by (simp add: serr_def)

lemma slift_app [simp]: "slift r s = (r, s)"
  by (simp add: slift_def)

lemma sbind_app [simp]:
  "m s = (Inl e, s') \<Longrightarrow> sbind m f s = (Inl e, s')"
  "m s = (Inr x, s') \<Longrightarrow> sbind m f s = f x s'"
  by (simp_all add: sbind_def)

lemma sbind_sret [simp]: "sbind (sret x) f = f x" "sbind (serr e) f = serr e"
  by (rule ext, simp add: sbind_def serr_def sret_def)+

lemma sbind_eq_Inr:
  "sbind m f s = (Inr y, t) \<longleftrightarrow> (\<exists>x u. m s = (Inr x, u) \<and> f x u = (Inr y, t))"
  by (auto simp: sbind_def split: prod.splits sum.splits)

lemma swrap_app [simp]:
  "m s = (Inl e, s') \<Longrightarrow> swrap g m s = (Inl (g e), s')"
  "m s = (Inr x, s') \<Longrightarrow> swrap g m s = (Inr x, s')"
  by (simp_all add: swrap_def)

lemma swrap_eq_Inr [simp]: "swrap g m s = (Inr y, t) \<longleftrightarrow> m s = (Inr y, t)"
  by (auto simp: swrap_def split: prod.splits sum.splits)

lemma sbind_cong [fundef_cong]:
  assumes "m s = m' s'" and "\<And>x u. m' s' = (Inr x, u) \<Longrightarrow> f x u = f' x u"
  shows "sbind m f s = sbind m' f' s'"
  using assms by (auto simp: sbind_def split: prod.splits sum.splits)

text \<open>A loop over a list that stops at the first error, with the results collected.\<close>

fun smapM :: "('a \<Rightarrow> ('s, 'e, 'b) sr) \<Rightarrow> 'a list \<Rightarrow> ('s, 'e, 'b list) sr" where
  "smapM f [] = sret []"
| "smapM f (x # xs) = sbind (f x) (\<lambda>y. sbind (smapM f xs) (\<lambda>ys. sret (y # ys)))"

fun sseq :: "('a \<Rightarrow> ('s, 'e, unit) sr) \<Rightarrow> 'a list \<Rightarrow> ('s, 'e, unit) sr" where
  "sseq f [] = sret ()"
| "sseq f (x # xs) = sbind (f x) (\<lambda>_. sseq f xs)"

lemma smapM_length: "smapM f xs s = (Inr ys, t) \<Longrightarrow> length ys = length xs"
  by (induction xs arbitrary: ys s t) (auto simp: sbind_eq_Inr)

end
