(* ===== verification/Sql.thy ===== *)
theory Sql
  imports StateResult
begin

text \<open>
  What the stores of \<open>src/store/sqlstore\<close> share: statements on the tables of a database, queries,
  transactions (\<open>DoTxn\<close>) and batching. A statement has the meaning SQL gives it and may also fail
  for outside reasons, as \<open>db_fails\<close> says for its number in the sequence; a failed statement changes
  nothing. The tables themselves are added to the record by the theory of each store.
\<close>

record sql_db =
  db_fails :: "nat \<Rightarrow> bool"
  db_clock :: nat

datatype db_error =
    DbFailed | UniqueViolation | CheckViolation | ForeignKeyViolation | CardinalityViolation
  | ErrNoRows | ErrInvalidLength | SavedVersionZero string

definition tick :: "'z sql_db_scheme \<Rightarrow> 'z sql_db_scheme" where
  "tick db = db\<lparr>db_clock := Suc (db_clock db)\<rparr>"

definition sql_exec :: "('z sql_db_scheme \<Rightarrow> db_error + 'z sql_db_scheme) \<Rightarrow> ('z sql_db_scheme, db_error, unit) sr" where
  "sql_exec stmt db =
     (if db_fails db (db_clock db) then (Inl DbFailed, tick db)
      else case stmt db of Inl e \<Rightarrow> (Inl e, tick db) | Inr db' \<Rightarrow> (Inr (), tick db'))"

definition sql_query :: "('z sql_db_scheme \<Rightarrow> 'a) \<Rightarrow> ('z sql_db_scheme, db_error, 'a) sr" where
  "sql_query q db = (if db_fails db (db_clock db) then Inl DbFailed else Inr (q db), tick db)"

text \<open>A transaction: when its body or the commit fails, the tables are what they were.\<close>

definition rolled_back :: "'z sql_db_scheme \<Rightarrow> 'z sql_db_scheme \<Rightarrow> 'z sql_db_scheme" where
  "rolled_back old new = old\<lparr>db_clock := db_clock new\<rparr>"

definition DoTxn :: "('z sql_db_scheme, db_error, unit) sr \<Rightarrow> ('z sql_db_scheme, db_error, unit) sr" where
  "DoTxn body db =
     (case sql_exec Inr db of
        (Inl e, db0) \<Rightarrow> (Inl e, db0)
      | (Inr _, db0) \<Rightarrow>
          (case sbind body (\<lambda>_. sql_exec Inr) db0 of
             (Inl e, db1) \<Rightarrow> (Inl e, rolled_back db db1)
           | (Inr _, db1) \<Rightarrow> (Inr (), db1)))"

section \<open>How statements act\<close>

lemma tick_simps [simp]: "db_fails (tick db) = db_fails db" "db_clock (tick db) = Suc (db_clock db)"
  by (simp_all add: tick_def)

lemma rolled_back_simps [simp]:
  "db_fails (rolled_back a b) = db_fails a" "db_clock (rolled_back a b) = db_clock b"
  by (simp_all add: rolled_back_def)

lemma sql_exec_Inr:
  "sql_exec st db = (Inr u, db') \<longleftrightarrow> \<not> db_fails db (db_clock db) \<and> (\<exists>d. st db = Inr d \<and> db' = tick d)"
  by (auto simp: sql_exec_def split: sum.splits)

lemma sql_exec_Inl: "sql_exec st db = (Inl e, db') \<Longrightarrow> db' = tick db"
  by (auto simp: sql_exec_def split: sum.splits if_splits)

lemma sql_query_Inr:
  "sql_query q db = (Inr x, db') \<longleftrightarrow> \<not> db_fails db (db_clock db) \<and> x = q db \<and> db' = tick db"
  by (auto simp: sql_query_def)

lemma sql_query_state: "snd (sql_query q db) = tick db"
  by (simp add: sql_query_def)

lemma DoTxn_Inr:
  assumes "DoTxn body db = (Inr u, db')"
  obtains db1 where "body (tick db) = (Inr (), db1)" and "db' = tick db1"
  using assms
  by (auto simp: DoTxn_def sql_exec_Inr sbind_eq_Inr split: prod.splits sum.splits dest: sql_exec_Inl)

section \<open>Batches\<close>

function chunks :: "nat \<Rightarrow> 'a list \<Rightarrow> 'a list list" where
  "chunks n xs = (if n = 0 \<or> xs = [] then [] else take n xs # chunks n (drop n xs))"
  by auto
termination by (relation "measure (\<lambda>(n, xs). length xs)") auto

declare chunks.simps [simp del]

lemma concat_chunks: "0 < n \<Longrightarrow> concat (chunks n xs) = xs"
proof (induction n xs rule: chunks.induct)
  case (1 n xs)
  then show ?case by (subst chunks.simps) auto
qed

lemma chunks_Nil_iff: "0 < n \<Longrightarrow> chunks n xs = [] \<longleftrightarrow> xs = []"
  by (subst chunks.simps) simp

end
