(* ===== verification/LtHash.thy ===== *)
theory LtHash
  imports Crypto "HOL-Library.Multiset"
begin

text \<open>
  \<open>src/appstate/lthash/lthash.go\<close>: a summation hash. Sixteen-bit little-endian lanes are added and
  subtracted with wrap-around. The contract of such a hash is the locale \<open>multiset_hash\<close>: after any
  series of updates the value is the digest of the multiset that was put in and not taken out. Its
  client is a table whose entries are replaced and removed; the locale shows that the hash of the
  table is kept by updates that take the replaced entries out.
\<close>

unbundle bit_operations_syntax

section \<open>The hash\<close>

record LTHash =
  HKDFInfo :: bytes
  HKDFSize :: byte

definition WAPatchIntegrity :: LTHash where
  "WAPatchIntegrity = \<lparr>HKDFInfo = bytes_of_string ''WhatsApp Patch Integrity'', HKDFSize = 128\<rparr>"

datatype lt_error = LaneOutOfRange | HkdfPanic crypto_error

definition LE_Uint16 :: "byte \<Rightarrow> byte \<Rightarrow> 16 word" where
  "LE_Uint16 b0 b1 = ucast b0 OR push_bit 8 (ucast b1)"

definition LE_PutUint16 :: "16 word \<Rightarrow> bytes" where
  "LE_PutUint16 v = [ucast v, ucast (drop_bit 8 v)]"

fun performPointwiseWithOverflow :: "bytes \<Rightarrow> bytes \<Rightarrow> bool \<Rightarrow> lt_error + bytes" where
  "performPointwiseWithOverflow [] input subtract = Inr []"
| "performPointwiseWithOverflow (b0 # b1 # base) (i0 # i1 # input) subtract =
     (let x = LE_Uint16 b0 b1; y = LE_Uint16 i0 i1; r = (if subtract then x - y else x + y) in
      rbind (performPointwiseWithOverflow base input subtract) (\<lambda>rest. Inr (LE_PutUint16 r @ rest)))"
| "performPointwiseWithOverflow base input subtract = Inl LaneOutOfRange"

fun multipleOp :: "crypto \<Rightarrow> LTHash \<Rightarrow> bytes \<Rightarrow> bytes list \<Rightarrow> bool \<Rightarrow> lt_error + bytes" where
  "multipleOp c lth base [] subtract = Inr base"
| "multipleOp c lth base (item # input) subtract =
     (case hkdf_SHA256 c item [] (HKDFInfo lth) (HKDFSize lth) of
        Inl e \<Rightarrow> Inl (HkdfPanic e)
      | Inr h \<Rightarrow> rbind (performPointwiseWithOverflow base h subtract) (\<lambda>base. multipleOp c lth base input subtract))"

definition SubtractThenAddInPlace ::
  "crypto \<Rightarrow> LTHash \<Rightarrow> bytes \<Rightarrow> bytes list \<Rightarrow> bytes list \<Rightarrow> lt_error + bytes" where
  "SubtractThenAddInPlace c lth base subtract add =
     rbind (multipleOp c lth base subtract True) (\<lambda>base. multipleOp c lth base add False)"

definition SubtractThenAdd ::
  "crypto \<Rightarrow> LTHash \<Rightarrow> bytes \<Rightarrow> bytes list \<Rightarrow> bytes list \<Rightarrow> lt_error + bytes" where
  "SubtractThenAdd c lth base subtract add =
     (let output = base in SubtractThenAddInPlace c lth output subtract add)"

section \<open>Lanes\<close>

definition lane :: "nat \<Rightarrow> bytes \<Rightarrow> 16 word" where
  "lane j b = LE_Uint16 (b ! (2 * j)) (b ! (2 * j + 1))"

lemma LE_Put_Uint16: "LE_Uint16 (ucast v) (ucast (drop_bit 8 v)) = v" for v :: "16 word"
  by (rule bit_word_eqI) (auto simp: LE_Uint16_def bit_simps)

lemma bit_byte_bound: "bit (b :: byte) n \<Longrightarrow> n < 8"
  using bit_imp_le_length [of b n] by simp

lemma LE_Uint16_bytes: "ucast (LE_Uint16 a b) = a" "ucast (drop_bit 8 (LE_Uint16 a b)) = b"
  by (rule bit_word_eqI, auto simp: LE_Uint16_def bit_simps dest: bit_byte_bound)+

lemma LE_Uint16_inj: "LE_Uint16 a b = LE_Uint16 a' b' \<longleftrightarrow> a = a' \<and> b = b'"
  by (metis LE_Uint16_bytes)

lemma lane_simps [simp]:
  "lane 0 (x # y # b) = LE_Uint16 x y" "lane (Suc j) (x # y # b) = lane j b"
  by (simp_all add: lane_def)

lemma lanes_eqI:
  "length a = length b \<Longrightarrow> even (length a) \<Longrightarrow> (\<And>j. j < length a div 2 \<Longrightarrow> lane j a = lane j b) \<Longrightarrow> a = b"
proof (induction a arbitrary: b rule: induct_list012)
  case (3 x y a)
  from "3.prems"(1) obtain x' y' b' where b: "b = x' # y' # b'" "length a = length b'"
    by (metis Suc_length_conv length_Cons)
  have "lane 0 (x # y # a) = lane 0 b" by (rule "3.prems"(3)) simp
  then have xy: "x = x'" "y = y'" by (simp_all add: b LE_Uint16_inj)
  have "lane j a = lane j b'" if "j < length a div 2" for j
    using "3.prems"(3) [of "Suc j"] that by (simp add: b)
  then have "a = b'" using "3.IH"(1) [OF b(2)] "3.prems"(2) by simp
  then show ?case by (simp add: b xy)
qed auto

lemma pointwise_lanes:
  "even (length base) \<Longrightarrow> length base \<le> length input \<Longrightarrow>
   \<exists>r. performPointwiseWithOverflow base input sub = Inr r \<and> length r = length base \<and>
       (\<forall>j < length base div 2. lane j r = (if sub then lane j base - lane j input else lane j base + lane j input))"
proof (induction base input sub rule: performPointwiseWithOverflow.induct)
  case (2 b0 b1 base i0 i1 input sub)
  then obtain r where r: "performPointwiseWithOverflow base input sub = Inr r" "length r = length base"
    "\<forall>j < length base div 2. lane j r = (if sub then lane j base - lane j input else lane j base + lane j input)"
    by (metis (no_types, lifting) "2.IH" "2.prems" Suc_le_mono even_Suc_Suc_iff length_Cons)
  define v where "v = (if sub then LE_Uint16 b0 b1 - LE_Uint16 i0 i1 else LE_Uint16 b0 b1 + LE_Uint16 i0 i1)"
  have "lane j (LE_PutUint16 v @ r) =
      (if sub then lane j (b0 # b1 # base) - lane j (i0 # i1 # input) else lane j (b0 # b1 # base) + lane j (i0 # i1 # input))"
    if "j < length (b0 # b1 # base) div 2" for j
    using that r(3) by (cases j) (simp_all add: LE_PutUint16_def LE_Put_Uint16 v_def)
  then show ?case using r(1, 2)
    by (intro exI [of _ "LE_PutUint16 v @ r"]) (simp add: v_def [symmetric] LE_PutUint16_def)
qed auto

section \<open>Sums of lanes\<close>

definition item_hash :: "crypto \<Rightarrow> LTHash \<Rightarrow> bytes \<Rightarrow> bytes" where
  "item_hash c lth item = hkdf_sha256 c item [] (HKDFInfo lth) (unat (HKDFSize lth))"

definition lane_sum :: "crypto \<Rightarrow> LTHash \<Rightarrow> nat \<Rightarrow> bytes multiset \<Rightarrow> 16 word" where
  "lane_sum c lth j M = (\<Sum>item \<in># M. lane j (item_hash c lth item))"

lemma lane_sum_simps [simp]:
  "lane_sum c lth j {#} = 0" "lane_sum c lth j (add_mset x M) = lane j (item_hash c lth x) + lane_sum c lth j M"
  "lane_sum c lth j (M + N) = lane_sum c lth j M + lane_sum c lth j N"
  by (simp_all add: lane_sum_def)

lemma lane_sum_diff: "N \<subseteq># M \<Longrightarrow> lane_sum c lth j (M - N) = lane_sum c lth j M - lane_sum c lth j N"
  by (metis add_diff_cancel_right' lane_sum_simps(3) subset_mset.diff_add)

definition lt_base :: "LTHash \<Rightarrow> bytes \<Rightarrow> bool" where
  "lt_base lth base \<longleftrightarrow> length base = unat (HKDFSize lth) \<and> even (unat (HKDFSize lth))"

lemma multipleOp_lanes:
  assumes "hkdf_correct c"
  shows "lt_base lth base \<Longrightarrow>
     \<exists>r. multipleOp c lth base items sub = Inr r \<and> lt_base lth r \<and>
         (\<forall>j < length base div 2. lane j r =
            (if sub then lane j base - lane_sum c lth j (mset items) else lane j base + lane_sum c lth j (mset items)))"
proof (induction items arbitrary: base)
  case (Cons item items)
  have h: "hkdf_SHA256 c item [] (HKDFInfo lth) (HKDFSize lth) = Inr (item_hash c lth item)"
    by (simp add: hkdf_SHA256_ok [OF assms] item_hash_def)
  have "length (item_hash c lth item) = unat (HKDFSize lth)"
    using assms unsigned_less [of "HKDFSize lth", where 'a = nat] by (simp add: hkdf_correct_def item_hash_def)
  with Cons.prems have ev: "even (length base)" "length base \<le> length (item_hash c lth item)"
    unfolding lt_base_def by auto
  obtain b where b: "performPointwiseWithOverflow base (item_hash c lth item) sub = Inr b"
    "length b = length base" "\<forall>j < length base div 2. lane j b =
       (if sub then lane j base - lane j (item_hash c lth item) else lane j base + lane j (item_hash c lth item))"
    using pointwise_lanes [OF ev] by blast
  with Cons.prems have "lt_base lth b" by (simp add: lt_base_def)
  with Cons.IH obtain r where "multipleOp c lth b items sub = Inr r" "lt_base lth r"
    "\<forall>j < length b div 2. lane j r =
       (if sub then lane j b - lane_sum c lth j (mset items) else lane j b + lane_sum c lth j (mset items))"
    by blast
  with b h show ?case by (auto simp: algebra_simps)
qed auto

lemma SubtractThenAdd_lanes:
  assumes "hkdf_correct c" and "lt_base lth base"
  shows "\<exists>r. SubtractThenAddInPlace c lth base sub ad = Inr r \<and> lt_base lth r \<and>
     (\<forall>j < length base div 2. lane j r =
        lane j base - lane_sum c lth j (mset sub) + lane_sum c lth j (mset ad))"
proof -
  obtain b where b: "multipleOp c lth base sub True = Inr b" "lt_base lth b"
    "\<forall>j < length base div 2. lane j b = lane j base - lane_sum c lth j (mset sub)"
    using multipleOp_lanes [OF assms, of sub True] by auto
  moreover obtain r where "multipleOp c lth b ad False = Inr r" "lt_base lth r"
    "\<forall>j < length b div 2. lane j r = lane j b + lane_sum c lth j (mset ad)"
    using multipleOp_lanes [OF assms(1) b(2), of ad False] by auto
  moreover have "length b = length base" using b(2) assms(2) by (simp add: lt_base_def)
  ultimately show ?thesis by (simp add: SubtractThenAddInPlace_def)
qed

section \<open>Series of updates\<close>

text \<open>A series of updates, each taking some items out and putting some in.\<close>

fun lt_series :: "crypto \<Rightarrow> LTHash \<Rightarrow> bytes \<Rightarrow> (bytes list \<times> bytes list) list \<Rightarrow> lt_error + bytes" where
  "lt_series c lth base [] = Inr base"
| "lt_series c lth base ((sub, ad) # us) =
     rbind (SubtractThenAdd c lth base sub ad) (\<lambda>base. lt_series c lth base us)"

definition series_out :: "(bytes list \<times> bytes list) list \<Rightarrow> bytes multiset" where
  "series_out us = (\<Sum>u \<leftarrow> us. mset (fst u))"

definition series_in :: "(bytes list \<times> bytes list) list \<Rightarrow> bytes multiset" where
  "series_in us = (\<Sum>u \<leftarrow> us. mset (snd u))"

lemma lt_series_lanes:
  assumes "hkdf_correct c"
  shows "lt_base lth base \<Longrightarrow>
     \<exists>r. lt_series c lth base us = Inr r \<and> lt_base lth r \<and>
       (\<forall>j < length base div 2. lane j r =
          lane j base - lane_sum c lth j (series_out us) + lane_sum c lth j (series_in us))"
proof (induction us arbitrary: base)
  case Nil
  then show ?case by (simp add: series_out_def series_in_def)
next
  case (Cons u us)
  obtain sub ad where u: "u = (sub, ad)" by (cases u)
  obtain b where b: "SubtractThenAddInPlace c lth base sub ad = Inr b" "lt_base lth b"
    "\<forall>j < length base div 2. lane j b = lane j base - lane_sum c lth j (mset sub) + lane_sum c lth j (mset ad)"
    using SubtractThenAdd_lanes [OF assms Cons.prems] by blast
  obtain r where r: "lt_series c lth b us = Inr r" "lt_base lth r"
    "\<forall>j < length b div 2. lane j r = lane j b - lane_sum c lth j (series_out us) + lane_sum c lth j (series_in us)"
    using Cons.IH [OF b(2)] by blast
  have "length b = length base" using b(2) Cons.prems by (simp add: lt_base_def)
  with b(3) r(3) have "\<forall>j < length base div 2. lane j r =
      lane j base - lane_sum c lth j (series_out (u # us)) + lane_sum c lth j (series_in (u # us))"
    by (simp add: u series_out_def series_in_def)
  with b(1) r(1, 2) show ?case by (simp add: u SubtractThenAdd_def)
qed

text \<open>
  C39: two series of updates after which the same items are in (what the first puts in and the second
  takes out is what the second puts in and the first takes out) give the same hash, whatever the
  order and the grouping of the updates, and no update fails.
\<close>

theorem lthash_series:
  assumes "hkdf_correct c" and "length base = 128"
    and "series_in us + series_out vs = series_in vs + series_out us"
  shows "\<exists>h. lt_series c WAPatchIntegrity base us = Inr h \<and> lt_series c WAPatchIntegrity base vs = Inr h \<and>
           length h = 128"
proof -
  have base: "lt_base WAPatchIntegrity base" using assms(2) by (simp add: lt_base_def WAPatchIntegrity_def)
  obtain h where h: "lt_series c WAPatchIntegrity base us = Inr h" "lt_base WAPatchIntegrity h"
    "\<forall>j < length base div 2. lane j h = lane j base - lane_sum c WAPatchIntegrity j (series_out us) +
        lane_sum c WAPatchIntegrity j (series_in us)"
    using lt_series_lanes [OF assms(1) base] by blast
  obtain k where k: "lt_series c WAPatchIntegrity base vs = Inr k" "lt_base WAPatchIntegrity k"
    "\<forall>j < length base div 2. lane j k = lane j base - lane_sum c WAPatchIntegrity j (series_out vs) +
        lane_sum c WAPatchIntegrity j (series_in vs)"
    using lt_series_lanes [OF assms(1) base] by blast
  have len: "length h = 128" "length k = 128" using h(2) k(2) by (simp_all add: lt_base_def WAPatchIntegrity_def)
  have "lane_sum c WAPatchIntegrity j (series_in us) + lane_sum c WAPatchIntegrity j (series_out vs) =
      lane_sum c WAPatchIntegrity j (series_in vs) + lane_sum c WAPatchIntegrity j (series_out us)" for j
    by (metis assms(3) lane_sum_simps(3))
  then have "lane_sum c WAPatchIntegrity j (series_in us) - lane_sum c WAPatchIntegrity j (series_out us) =
      lane_sum c WAPatchIntegrity j (series_in vs) - lane_sum c WAPatchIntegrity j (series_out vs)" for j
    by (simp add: diff_eq_eq add_diff_eq [symmetric] diff_add_eq eq_diff_eq)
  then have "lane j h = lane j k" if "j < 64" for j
    using that h(3) k(3) assms(2) by (simp add: add_diff_eq [symmetric] diff_add_eq)
  then have "h = k" by (intro lanes_eqI) (simp_all add: len)
  with h(1) k(1) len show ?thesis by blast
qed

theorem lthash_series_witness:
  "\<exists>h. lt_series plain_crypto WAPatchIntegrity (replicate 128 0) [([], [[1], [2]]), ([[1]], [[3]])] = Inr h \<and>
     lt_series plain_crypto WAPatchIntegrity (replicate 128 0) [([], [[3], [2]])] = Inr h \<and> length h = 128"
  by (rule lthash_series) (simp_all add: plain_crypto_correct series_in_def series_out_def add_mset_commute)

section \<open>The contract, and the hash of a table\<close>

text \<open>
  What the client relies on: the value is the digest of a multiset, and an update that takes out no
  more than there is gives the digest of the multiset after it. \<open>usable\<close> is what the provider needs
  of its own primitives.
\<close>

locale multiset_hash =
  fixes upd :: "'h \<Rightarrow> 'v list \<Rightarrow> 'v list \<Rightarrow> 'e + 'h" and digest :: "'v multiset \<Rightarrow> 'h" and usable :: bool
  assumes upd_digest:
    "usable \<Longrightarrow> mset sub \<subseteq># M + mset ad \<Longrightarrow> upd (digest M) sub ad = Inr (digest (M + mset ad - mset sub))"

text \<open>
  A table of entries, changed by a list of operations: an entry is set, or removed. \<open>replaced\<close>
  lists the entries that were there before, in the order they are met.
\<close>

fun tab_apply :: "('k \<rightharpoonup> 'v) \<Rightarrow> ('k \<times> 'v option) list \<Rightarrow> ('k \<rightharpoonup> 'v)" where
  "tab_apply t [] = t"
| "tab_apply t ((k, v) # ops) = tab_apply (t(k := v)) ops"

fun replaced :: "('k \<rightharpoonup> 'v) \<Rightarrow> ('k \<times> 'v option) list \<Rightarrow> 'v list" where
  "replaced t [] = []"
| "replaced t ((k, v) # ops) = (case t k of None \<Rightarrow> [] | Some w \<Rightarrow> [w]) @ replaced (t(k := v)) ops"

fun inserted :: "('k \<times> 'v option) list \<Rightarrow> 'v list" where
  "inserted [] = []"
| "inserted ((k, v) # ops) = (case v of None \<Rightarrow> [] | Some w \<Rightarrow> [w]) @ inserted ops"

definition entries :: "('k \<rightharpoonup> 'v) \<Rightarrow> 'v multiset" where
  "entries t = image_mset (\<lambda>k. the (t k)) (mset_set (dom t))"

lemma tab_apply_append: "tab_apply t (xs @ ys) = tab_apply (tab_apply t xs) ys"
  by (induction xs arbitrary: t) auto

lemma replaced_append: "replaced t (xs @ ys) = replaced t xs @ replaced (tab_apply t xs) ys"
  by (induction xs arbitrary: t) auto

lemma inserted_append: "inserted (xs @ ys) = inserted xs @ inserted ys"
  by (induction xs rule: inserted.induct) simp_all

lemma entries_empty [simp]: "entries Map.empty = {#}"
  by (simp add: entries_def)

lemma entries_upd_fresh: "finite (dom t) \<Longrightarrow> t k = None \<Longrightarrow> entries (t(k \<mapsto> v)) = add_mset v (entries t)"
proof -
  assume fin: "finite (dom t)" and fresh: "t k = None"
  have "image_mset (\<lambda>k'. the ((t(k \<mapsto> v)) k')) (mset_set (dom t)) = image_mset (\<lambda>k'. the (t k')) (mset_set (dom t))"
    using fresh fin by (intro image_mset_cong) auto
  then show ?thesis using fin fresh by (simp add: entries_def domIff)
qed

lemma entries_delete: "finite (dom t) \<Longrightarrow> t k = Some w \<Longrightarrow> add_mset w (entries (t(k := None))) = entries t"
  using entries_upd_fresh [of "t(k := None)" k w] by (simp add: fun_upd_idem)

lemma entries_step:
  assumes "finite (dom t)"
  shows "entries (t(k := v)) + mset (case t k of None \<Rightarrow> [] | Some w \<Rightarrow> [w]) =
         entries t + mset (case v of None \<Rightarrow> [] | Some w \<Rightarrow> [w])"
proof -
  have del: "entries (t(k := None)) + mset (case t k of None \<Rightarrow> [] | Some w \<Rightarrow> [w]) = entries t"
    using assms entries_delete [of t k] by (cases "t k") (auto simp: fun_upd_idem)
  show ?thesis
  proof (cases v)
    case (Some w)
    have "entries (t(k \<mapsto> w)) = add_mset w (entries (t(k := None)))"
      using entries_upd_fresh [of "t(k := None)" k w] assms by simp
    with Some del show ?thesis by simp
  qed (use del in simp)
qed

lemma finite_tab_upd: "finite (dom t) \<Longrightarrow> finite (dom (t(k := v)))"
  by (rule finite_subset [of _ "insert k (dom t)"]) (auto split: if_splits)

lemma finite_tab_apply: "finite (dom t) \<Longrightarrow> finite (dom (tab_apply t ops))"
  by (induction t ops rule: tab_apply.induct) (simp_all add: finite_tab_upd del: dom_fun_upd)

lemma balance_trans:
  fixes e0 e1 e2 :: "'a multiset"
  assumes "e1 + r1 = e0 + i1" and "e2 + r2 = e1 + i2"
  shows "e2 + (r1 + r2) = e0 + (i1 + i2)"
proof -
  have "e2 + (r1 + r2) = (e2 + r2) + r1" by (simp add: ac_simps)
  also have "\<dots> = (e1 + r1) + i2" by (simp add: assms(2) ac_simps)
  also have "\<dots> = e0 + (i1 + i2)" by (simp add: assms(1) ac_simps)
  finally show ?thesis .
qed

lemma entries_tab_apply:
  "finite (dom t) \<Longrightarrow> entries (tab_apply t ops) + mset (replaced t ops) = entries t + mset (inserted ops)"
proof (induction t ops rule: tab_apply.induct)
  case (2 t k v ops)
  let ?t = "t(k := v)"
  have "entries (tab_apply ?t ops) + mset (replaced ?t ops) = entries ?t + mset (inserted ops)"
    by (rule "2.IH" [OF finite_tab_upd [OF "2.prems"]])
  from balance_trans [OF entries_step [OF "2.prems", of k v] this] show ?case by simp
qed simp

context multiset_hash
begin

lemma upd_table:
  assumes "usable" and "finite (dom t)"
  shows "upd (digest (entries t)) (replaced t ops) (inserted ops) = Inr (digest (entries (tab_apply t ops)))"
proof -
  have eq: "entries (tab_apply t ops) + mset (replaced t ops) = entries t + mset (inserted ops)"
    by (rule entries_tab_apply [OF assms(2)])
  then have "mset (replaced t ops) \<subseteq># entries t + mset (inserted ops)"
    by (metis mset_subset_eq_add_right)
  then show ?thesis using upd_digest [OF assms(1)] eq by (metis add_diff_cancel_right')
qed

lemma upd_fill: "usable \<Longrightarrow> upd (digest {#}) [] vs = Inr (digest (mset vs))"
  using upd_digest [of "[]" "{#}" vs] by simp

end

text \<open>The digest of the app state hash: the sum of the item hashes, lane by lane.\<close>

definition lt_digest :: "crypto \<Rightarrow> bytes multiset \<Rightarrow> bytes" where
  "lt_digest c M = concat (map (\<lambda>j. LE_PutUint16 (lane_sum c WAPatchIntegrity j M)) [0..<64])"

lemma lane_concat:
  "j < length ws \<Longrightarrow> lane j (concat (map LE_PutUint16 ws)) = ws ! j"
proof (induction ws arbitrary: j)
  case (Cons w ws)
  then show ?case by (cases j) (simp_all add: LE_PutUint16_def LE_Put_Uint16)
qed simp

lemma length_concat_Put: "length (concat (map LE_PutUint16 ws)) = 2 * length ws"
  by (induction ws) (simp_all add: LE_PutUint16_def)

lemma lt_digest_lane:
  "length (lt_digest c M) = 128" "j < 64 \<Longrightarrow> lane j (lt_digest c M) = lane_sum c WAPatchIntegrity j M"
  using lane_concat [of j "map (\<lambda>j. lane_sum c WAPatchIntegrity j M) [0..<64]"]
    length_concat_Put [of "map (\<lambda>j. lane_sum c WAPatchIntegrity j M) [0..<64]"]
  by (simp_all add: lt_digest_def comp_def)

lemma lt_digest_empty: "lt_digest c {#} = replicate 128 0"
proof (rule lanes_eqI)
  fix j assume "j < length (lt_digest c {#}) div 2"
  then show "lane j (lt_digest c {#}) = lane j (replicate 128 0)"
    using lt_digest_lane(2) [of j c "{#}"] by (simp add: lt_digest_lane(1)) (simp add: lane_def LE_Uint16_def)
qed (simp_all add: lt_digest_lane)

text \<open>The hash of the source meets the contract, for any HKDF that yields the bytes asked for.\<close>

lemma SubtractThenAdd_digest:
  assumes hk: "hkdf_correct c" and sub: "mset sub \<subseteq># M + mset ad"
  shows "SubtractThenAddInPlace c WAPatchIntegrity (lt_digest c M) sub ad = Inr (lt_digest c (M + mset ad - mset sub))"
proof -
  have base: "lt_base WAPatchIntegrity (lt_digest c M)"
    by (simp add: lt_base_def lt_digest_lane WAPatchIntegrity_def)
  obtain r where r: "SubtractThenAddInPlace c WAPatchIntegrity (lt_digest c M) sub ad = Inr r"
    "lt_base WAPatchIntegrity r"
    "\<forall>j < length (lt_digest c M) div 2. lane j r = lane j (lt_digest c M)
        - lane_sum c WAPatchIntegrity j (mset sub) + lane_sum c WAPatchIntegrity j (mset ad)"
    using SubtractThenAdd_lanes [OF hk base] by blast
  have len: "length r = 128" using r(2) by (simp add: lt_base_def WAPatchIntegrity_def)
  have "r = lt_digest c (M + mset ad - mset sub)"
  proof (rule lanes_eqI)
    fix j assume "j < length r div 2"
    then show "lane j r = lane j (lt_digest c (M + mset ad - mset sub))"
      using r(3) sub by (simp add: len lt_digest_lane lane_sum_diff)
  qed (simp_all add: len lt_digest_lane)
  with r(1) show ?thesis by simp
qed

interpretation lthash: multiset_hash "SubtractThenAddInPlace c WAPatchIntegrity" "lt_digest c" "hkdf_correct c"
  for c
  by unfold_locales (rule SubtractThenAdd_digest)

end
