(* ===== verification/AppStore.thy ===== *)
theory AppStore
  imports Sql LtHash
begin

text \<open>
  The app state tables of \<open>src/store/sqlstore/store.go\<close> with the constraints of the schema
  (\<open>src/store/sqlstore/upgrades/00-latest-schema.sql\<close>), for the device the store belongs to: sync
  keys, collection versions and mutation MACs. A statement of the source is a function on the tables
  with the meaning SQL gives it; any statement may also fail for outside reasons, as \<open>db_fails\<close> says
  for its number in the sequence. The locale \<open>mac_store\<close> is what the app state processor relies on.
\<close>

section \<open>Tables\<close>

record AppStateSyncKey =
  sk_Data :: bytes
  sk_Fingerprint :: bytes
  sk_Timestamp :: int

record AppStateMutationMAC =
  mm_IndexMAC :: bytes
  mm_ValueMAC :: bytes

record mac_row =
  mr_name :: string
  mr_version :: "64 word"
  mr_index :: bytes
  mr_value :: bytes

record app_db = sql_db +
  sync_keys :: "(bytes \<times> AppStateSyncKey) list"
  state_version :: "string \<rightharpoonup> 64 word \<times> bytes"
  mutation_macs :: "mac_row list"

type_synonym 'a db_op = "(app_db, db_error, 'a) sr"

section \<open>Sync keys\<close>

text \<open>The conflict clause replaces a key only by one with a later timestamp.\<close>

definition PutAppStateSyncKey :: "bytes \<Rightarrow> AppStateSyncKey \<Rightarrow> unit db_op" where
  "PutAppStateSyncKey keyid key = sql_exec (\<lambda>db.
     case map_of (sync_keys db) keyid of
       None \<Rightarrow> Inr (db\<lparr>sync_keys := aset keyid key (sync_keys db)\<rparr>)
     | Some old \<Rightarrow>
         if sk_Timestamp key > sk_Timestamp old then Inr (db\<lparr>sync_keys := aset keyid key (sync_keys db)\<rparr>) else Inr db)"

definition GetAllAppStateSyncKeys :: "AppStateSyncKey list db_op" where
  "GetAllAppStateSyncKeys = sql_query (\<lambda>db. sort_key (\<lambda>k. - sk_Timestamp k) (map snd (sync_keys db)))"

definition GetAppStateSyncKey :: "bytes \<Rightarrow> AppStateSyncKey option db_op" where
  "GetAppStateSyncKey keyid = sql_query (\<lambda>db. map_of (sync_keys db) keyid)"

definition GetLatestAppStateSyncKeyID :: "bytes option db_op" where
  "GetLatestAppStateSyncKeyID = sql_query (\<lambda>db.
     case sort_key (\<lambda>(keyid, k). - sk_Timestamp k) (sync_keys db) of [] \<Rightarrow> None | (keyid, k) # _ \<Rightarrow> Some keyid)"

section \<open>Versions\<close>

definition PutAppStateVersion :: "string \<Rightarrow> 64 word \<Rightarrow> bytes \<Rightarrow> unit db_op" where
  "PutAppStateVersion name version hash = sql_exec (\<lambda>db.
     if length hash \<noteq> 128 then Inl CheckViolation
     else Inr (db\<lparr>state_version := (state_version db)(name \<mapsto> (version, hash))\<rparr>))"

definition GetAppStateVersion :: "string \<Rightarrow> (64 word \<times> bytes) db_op" where
  "GetAppStateVersion name = sbind (sql_query (\<lambda>db. state_version db name)) (\<lambda>r.
     case r of
       None \<Rightarrow> sret (0, replicate 128 0)
     | Some (version, uncheckedHash) \<Rightarrow>
         if length uncheckedHash \<noteq> 128 then serr ErrInvalidLength
         else if version = 0 then serr (SavedVersionZero name)
         else sret (version, uncheckedHash))"

text \<open>Deleting a version row deletes the MAC rows that refer to it.\<close>

definition DeleteAppStateVersion :: "string \<Rightarrow> unit db_op" where
  "DeleteAppStateVersion name = sql_exec (\<lambda>db.
     Inr (db\<lparr>state_version := (state_version db)(name := None),
             mutation_macs := filter (\<lambda>r. mr_name r \<noteq> name) (mutation_macs db)\<rparr>))"

section \<open>Mutation MACs\<close>

definition row_key :: "mac_row \<Rightarrow> string \<times> 64 word \<times> bytes" where
  "row_key r = (mr_name r, mr_version r, mr_index r)"

definition unique_rows :: "mac_row list \<Rightarrow> bool" where
  "unique_rows rs \<longleftrightarrow> distinct (map row_key rs)"

definition mac_rows :: "string \<Rightarrow> 64 word \<Rightarrow> AppStateMutationMAC list \<Rightarrow> mac_row list" where
  "mac_rows name version mutations =
     map (\<lambda>m. \<lparr>mr_name = name, mr_version = version, mr_index = mm_IndexMAC m, mr_value = mm_ValueMAC m\<rparr>) mutations"

definition putAppStateMutationMACs :: "string \<Rightarrow> 64 word \<Rightarrow> AppStateMutationMAC list \<Rightarrow> unit db_op" where
  "putAppStateMutationMACs name version mutations = sql_exec (\<lambda>db.
     let rows = mac_rows name version mutations in
     if list_ex (\<lambda>r. length (mr_index r) \<noteq> 32 \<or> length (mr_value r) \<noteq> 32) rows then Inl CheckViolation
     else if \<not> unique_rows (mutation_macs db @ rows) then Inl UniqueViolation
     else if state_version db name = None then Inl ForeignKeyViolation
     else Inr (db\<lparr>mutation_macs := mutation_macs db @ rows\<rparr>))"

abbreviation (input) mutationBatchSize :: nat where
  "mutationBatchSize \<equiv> 400"

definition PutAppStateMutationMACs :: "string \<Rightarrow> 64 word \<Rightarrow> AppStateMutationMAC list \<Rightarrow> unit db_op" where
  "PutAppStateMutationMACs name version mutations =
     (if mutations = [] then sret ()
      else DoTxn (sseq (putAppStateMutationMACs name version) (chunks mutationBatchSize mutations)))"

definition DeleteAppStateMutationMACs :: "string \<Rightarrow> bytes list \<Rightarrow> unit db_op" where
  "DeleteAppStateMutationMACs name indexMACs =
     (if indexMACs = [] then sret ()
      else sql_exec (\<lambda>db.
        Inr (db\<lparr>mutation_macs := filter (\<lambda>r. \<not> (mr_name r = name \<and> mr_index r \<in> set indexMACs)) (mutation_macs db)\<rparr>)))"

text \<open>The value of the row with the highest version.\<close>

fun newest :: "mac_row list \<Rightarrow> mac_row option" where
  "newest [] = None"
| "newest (r # rs) =
     (case newest rs of None \<Rightarrow> Some r | Some s \<Rightarrow> Some (if mr_version r < mr_version s then s else r))"

definition current_mac :: "app_db \<Rightarrow> string \<Rightarrow> bytes \<rightharpoonup> bytes" where
  "current_mac db name indexMAC =
     map_option mr_value (newest (filter (\<lambda>r. mr_name r = name \<and> mr_index r = indexMAC) (mutation_macs db)))"

definition GetAppStateMutationMAC :: "string \<Rightarrow> bytes \<Rightarrow> bytes option db_op" where
  "GetAppStateMutationMAC name indexMAC = sql_query (\<lambda>db. current_mac db name indexMAC)"

section \<open>How the statements act\<close>

lemma tick_tables [simp]:
  "sync_keys (tick db) = sync_keys db" "state_version (tick db) = state_version db"
  "mutation_macs (tick db) = mutation_macs db"
  by (simp_all add: tick_def)

lemma rolled_back_tables [simp]:
  "sync_keys (rolled_back a b) = sync_keys a" "state_version (rolled_back a b) = state_version a"
  "mutation_macs (rolled_back a b) = mutation_macs a"
  by (simp_all add: rolled_back_def)

lemma current_mac_tick [simp]: "current_mac (tick db) = current_mac db"
  by (intro ext) (simp add: current_mac_def)

lemma DoTxn_Inl:
  assumes "DoTxn body db = (Inl e, db')"
  shows "mutation_macs db' = mutation_macs db" and "state_version db' = state_version db"
    and "sync_keys db' = sync_keys db"
  using assms by (auto simp: DoTxn_def split: prod.splits sum.splits dest: sql_exec_Inl)

lemma put_batch_Inr:
  "putAppStateMutationMACs name v ms db = (Inr u, db') \<longleftrightarrow>
     \<not> db_fails db (db_clock db) \<and>
     (\<forall>r \<in> set (mac_rows name v ms). length (mr_index r) = 32 \<and> length (mr_value r) = 32) \<and>
     unique_rows (mutation_macs db @ mac_rows name v ms) \<and> state_version db name \<noteq> None \<and>
     db' = tick (db\<lparr>mutation_macs := mutation_macs db @ mac_rows name v ms\<rparr>)"
  by (auto simp: putAppStateMutationMACs_def sql_exec_Inr Let_def list_ex_iff)

lemma mac_rows_append [simp]: "mac_rows name v (xs @ ys) = mac_rows name v xs @ mac_rows name v ys"
  by (simp add: mac_rows_def)

lemma put_batches_Inr:
  "sseq (putAppStateMutationMACs name v) css db = (Inr u, db') \<Longrightarrow>
   unique_rows (mutation_macs db) \<Longrightarrow>
   mutation_macs db' = mutation_macs db @ mac_rows name v (concat css) \<and>
   unique_rows (mutation_macs db') \<and>
   state_version db' = state_version db \<and> sync_keys db' = sync_keys db \<and> db_fails db' = db_fails db \<and>
   (\<forall>r \<in> set (mac_rows name v (concat css)). length (mr_index r) = 32 \<and> length (mr_value r) = 32) \<and>
   (css \<noteq> [] \<longrightarrow> state_version db name \<noteq> None)"
proof (induction css arbitrary: db)
  case Nil
  then show ?case by (simp add: mac_rows_def)
next
  case (Cons cs css)
  from Cons.prems(1) obtain db1 where
    b: "putAppStateMutationMACs name v cs db = (Inr (), db1)"
    and r: "sseq (putAppStateMutationMACs name v) css db1 = (Inr u, db')"
    by (auto simp: sbind_eq_Inr)
  have eq: "mutation_macs db1 = mutation_macs db @ mac_rows name v cs" "state_version db1 = state_version db"
    "sync_keys db1 = sync_keys db" "db_fails db1 = db_fails db" "state_version db name \<noteq> None"
    and d: "unique_rows (mutation_macs db1)"
    and l: "\<forall>r \<in> set (mac_rows name v cs). length (mr_index r) = 32 \<and> length (mr_value r) = 32"
    using b by (auto simp: put_batch_Inr)
  from Cons.IH [OF r d] eq l show ?case by auto
qed

lemma PutMACs_Inr:
  assumes "PutAppStateMutationMACs name v ms db = (Inr u, db')" and "unique_rows (mutation_macs db)"
  shows "mutation_macs db' = mutation_macs db @ mac_rows name v ms"
    and "unique_rows (mutation_macs db')"
    and "state_version db' = state_version db" and "sync_keys db' = sync_keys db" and "db_fails db' = db_fails db"
    and "\<forall>r \<in> set (mac_rows name v ms). length (mr_index r) = 32 \<and> length (mr_value r) = 32"
    and "ms \<noteq> [] \<longrightarrow> state_version db name \<noteq> None"
proof -
  have "mutation_macs db' = mutation_macs db @ mac_rows name v ms \<and> unique_rows (mutation_macs db') \<and>
    state_version db' = state_version db \<and> sync_keys db' = sync_keys db \<and> db_fails db' = db_fails db \<and>
    (\<forall>r \<in> set (mac_rows name v ms). length (mr_index r) = 32 \<and> length (mr_value r) = 32) \<and>
    (ms \<noteq> [] \<longrightarrow> state_version db name \<noteq> None)"
  proof (cases "ms = []")
    case True
    with assms show ?thesis by (simp add: PutAppStateMutationMACs_def mac_rows_def)
  next
    case False
    with assms(1) obtain db1 where
      "sseq (putAppStateMutationMACs name v) (chunks mutationBatchSize ms) (tick db) = (Inr (), db1)" "db' = tick db1"
      by (auto simp: PutAppStateMutationMACs_def elim: DoTxn_Inr)
    with put_batches_Inr [OF this(1)] assms(2) False show ?thesis by (auto simp: concat_chunks chunks_Nil_iff)
  qed
  then show "mutation_macs db' = mutation_macs db @ mac_rows name v ms"
    "unique_rows (mutation_macs db')"
    "state_version db' = state_version db" "sync_keys db' = sync_keys db" "db_fails db' = db_fails db"
    "\<forall>r \<in> set (mac_rows name v ms). length (mr_index r) = 32 \<and> length (mr_value r) = 32"
    "ms \<noteq> [] \<longrightarrow> state_version db name \<noteq> None" by blast+
qed

lemma PutMACs_Inl:
  assumes "PutAppStateMutationMACs name v ms db = (Inl e, db')"
  shows "mutation_macs db' = mutation_macs db" and "state_version db' = state_version db"
    and "sync_keys db' = sync_keys db"
  using assms DoTxn_Inl by (auto simp: PutAppStateMutationMACs_def split: if_splits)

section \<open>The constraints of the schema\<close>

definition db_ok :: "app_db \<Rightarrow> bool" where
  "db_ok db \<longleftrightarrow>
     amap (sync_keys db) \<and> unique_rows (mutation_macs db) \<and>
     (\<forall>r \<in> set (mutation_macs db).
        length (mr_index r) = 32 \<and> length (mr_value r) = 32 \<and> state_version db (mr_name r) \<noteq> None) \<and>
     (\<forall>n v h. state_version db n = Some (v, h) \<longrightarrow> length h = 128)"

definition empty_app_db :: "(nat \<Rightarrow> bool) \<Rightarrow> app_db" where
  "empty_app_db fails =
     \<lparr>db_fails = fails, db_clock = 0, sync_keys = [], state_version = Map.empty, mutation_macs = []\<rparr>"

lemma db_ok_tick [simp]: "db_ok (tick db) = db_ok db"
  by (simp add: db_ok_def)

lemma db_ok_exec:
  assumes "db_ok db" and "\<And>d. st db = Inr d \<Longrightarrow> db_ok d"
  shows "db_ok (snd (sql_exec st db))"
  using assms by (auto simp: sql_exec_def split: sum.splits)

lemma db_ok_query: "db_ok db \<Longrightarrow> db_ok (snd (sql_query q db))"
  by (simp add: sql_query_state)

lemma GetAppStateVersion_state: "snd (GetAppStateVersion n db) = tick db"
  by (auto simp: GetAppStateVersion_def sbind_def sql_query_def split: option.splits)

lemma unique_rows_filter: "unique_rows rs \<Longrightarrow> unique_rows (filter P rs)"
  by (auto simp: unique_rows_def distinct_map intro: inj_on_subset)

lemma db_ok_filter:
  assumes "db_ok db"
  shows "db_ok (db\<lparr>mutation_macs := filter P (mutation_macs db)\<rparr>)"
  using assms by (auto simp: db_ok_def unique_rows_filter)

lemma db_ok_put_macs:
  assumes "db_ok db"
  shows "db_ok (snd (PutAppStateMutationMACs n v ms db))"
proof (cases "PutAppStateMutationMACs n v ms db")
  case (Pair r db')
  have d: "unique_rows (mutation_macs db)" using assms by (simp add: db_ok_def)
  show ?thesis
  proof (cases r)
    case (Inl e)
    with Pair PutMACs_Inl [of n v ms db e db'] assms show ?thesis by (simp add: db_ok_def)
  next
    case (Inr u)
    note put = PutMACs_Inr [OF Pair [unfolded Inr] d]
    have "state_version db' (mr_name r) \<noteq> None" if "r \<in> set (mac_rows n v ms)" for r
      using that put(3, 7) by (cases ms) (auto simp: mac_rows_def)
    with put assms Pair show ?thesis by (auto simp: db_ok_def)
  qed
qed

lemma db_ok_put_key: "db_ok db \<Longrightarrow> db_ok (snd (PutAppStateSyncKey i k db))"
  unfolding PutAppStateSyncKey_def
  by (rule db_ok_exec) (auto simp: db_ok_def split: option.splits if_splits)

section \<open>The current MACs\<close>

definition mac_map :: "AppStateMutationMAC list \<Rightarrow> bytes \<rightharpoonup> bytes" where
  "mac_map ms = map_of (map (\<lambda>m. (mm_IndexMAC m, mm_ValueMAC m)) ms)"

definition below :: "app_db \<Rightarrow> string \<Rightarrow> 64 word \<Rightarrow> bool" where
  "below db name v \<longleftrightarrow> (\<forall>r \<in> set (mutation_macs db). mr_name r = name \<longrightarrow> mr_version r < v)"

lemma below_tick [simp]: "below (tick db) = below db"
  by (intro ext) (simp add: below_def)

lemma newest_in: "newest rs = Some r \<Longrightarrow> r \<in> set rs"
  by (induction rs arbitrary: r) (auto split: option.splits if_splits)

lemma newest_Nil: "newest rs = None \<longleftrightarrow> rs = []"
  by (cases rs) (auto split: option.splits)

lemma newest_snoc: "\<forall>r \<in> set rs. mr_version r < mr_version y \<Longrightarrow> newest (rs @ [y]) = Some y"
  by (induction rs) auto

lemma current_mac_None: "current_mac db name i = None \<longleftrightarrow> (\<forall>r \<in> set (mutation_macs db). mr_name r = name \<longrightarrow> mr_index r \<noteq> i)"
  by (auto simp: current_mac_def newest_Nil filter_empty_conv)

lemma finite_current_mac: "finite (dom (current_mac db name))"
proof (rule finite_subset)
  show "dom (current_mac db name) \<subseteq> mr_index ` set (mutation_macs db)"
    by (auto simp: dom_def current_mac_def dest!: newest_in)
qed simp

lemma filter_index_distinct:
  "distinct (map mm_IndexMAC ms) \<Longrightarrow>
   filter (\<lambda>m. mm_IndexMAC m = i) ms =
     (case mac_map ms i of None \<Rightarrow> [] | Some v \<Rightarrow> [\<lparr>mm_IndexMAC = i, mm_ValueMAC = v\<rparr>])"
proof (induction ms)
  case (Cons m ms)
  show ?case
  proof (cases "mm_IndexMAC m = i")
    case True
    then have "i \<notin> set (map mm_IndexMAC ms)" using Cons.prems by simp
    then have "filter (\<lambda>m. mm_IndexMAC m = i) ms = []" by (induction ms) auto
    with True show ?thesis by (cases m) (simp add: mac_map_def)
  qed (use Cons in \<open>simp add: mac_map_def\<close>)
qed (simp add: mac_map_def)

lemma filter_mac_rows:
  "filter (\<lambda>r. mr_name r = n \<and> mr_index r = i) (mac_rows name v ms) =
     (if n = name then mac_rows name v (filter (\<lambda>m. mm_IndexMAC m = i) ms) else [])"
  by (auto simp: mac_rows_def filter_map comp_def)

lemma mac_rows_simps [simp]:
  "mac_rows name v [] = []"
  "mac_rows name v [\<lparr>mm_IndexMAC = i, mm_ValueMAC = w\<rparr>] = [\<lparr>mr_name = name, mr_version = v, mr_index = i, mr_value = w\<rparr>]"
  by (simp_all add: mac_rows_def)

lemma unique_rows_index:
  assumes "mutation_macs db' = mutation_macs db @ mac_rows name v ms" and "unique_rows (mutation_macs db')"
  shows "distinct (map mm_IndexMAC ms)"
  using assms by (auto simp: unique_rows_def mac_rows_def row_key_def comp_def distinct_map inj_on_def)

lemma current_mac_put:
  assumes "mutation_macs db' = mutation_macs db @ mac_rows name v ms" and "unique_rows (mutation_macs db')"
    and "below db name v"
  shows "current_mac db' name = current_mac db name ++ mac_map ms"
    and "n \<noteq> name \<Longrightarrow> current_mac db' n = current_mac db n"
proof -
  note d = unique_rows_index [OF assms(1, 2)]
  show "current_mac db' name = current_mac db name ++ mac_map ms"
  proof
    fix i
    let ?old = "filter (\<lambda>r. mr_name r = name \<and> mr_index r = i) (mutation_macs db)"
    show "current_mac db' name i = (current_mac db name ++ mac_map ms) i"
    proof (cases "mac_map ms i")
      case None
      then show ?thesis
        by (simp add: current_mac_def assms(1) filter_mac_rows filter_index_distinct [OF d] map_add_def)
    next
      case (Some w)
      have "\<forall>r \<in> set ?old. mr_version r < v" using assms(3) by (auto simp: below_def)
      then have "newest (?old @ [\<lparr>mr_name = name, mr_version = v, mr_index = i, mr_value = w\<rparr>]) =
          Some \<lparr>mr_name = name, mr_version = v, mr_index = i, mr_value = w\<rparr>"
        by (intro newest_snoc) simp
      with Some show ?thesis
        by (simp add: current_mac_def assms(1) filter_mac_rows filter_index_distinct [OF d])
    qed
  qed
  show "n \<noteq> name \<Longrightarrow> current_mac db' n = current_mac db n"
    by (rule ext) (simp add: current_mac_def assms(1) filter_mac_rows)
qed

lemma current_mac_delete:
  assumes "mutation_macs db' = filter (\<lambda>r. \<not> (mr_name r = name \<and> mr_index r \<in> set indexMACs)) (mutation_macs db)"
  shows "current_mac db' n = (\<lambda>i. if n = name \<and> i \<in> set indexMACs then None else current_mac db n i)"
proof
  fix i
  have eq: "filter (\<lambda>r. \<not> (mr_name r = name \<and> mr_index r \<in> set indexMACs) \<and> mr_name r = n \<and> mr_index r = i) rs =
      (if n = name \<and> i \<in> set indexMACs then [] else filter (\<lambda>r. mr_name r = n \<and> mr_index r = i) rs)" for rs
    by (induction rs) auto
  show "current_mac db' n i = (if n = name \<and> i \<in> set indexMACs then None else current_mac db n i)"
    unfolding current_mac_def assms filter_filter eq by simp
qed

section \<open>When the operations succeed\<close>

definition answering :: "app_db \<Rightarrow> bool" where
  "answering db \<longleftrightarrow> (\<forall>n. \<not> db_fails db n)"

lemma answering_tick [simp]: "answering (tick db) = answering db"
  by (simp add: answering_def)

lemma put_batches_ok:
  "answering db \<Longrightarrow> state_version db name \<noteq> None \<Longrightarrow>
   unique_rows (mutation_macs db @ mac_rows name v (concat css)) \<Longrightarrow>
   \<forall>m \<in> set (concat css). length (mm_IndexMAC m) = 32 \<and> length (mm_ValueMAC m) = 32 \<Longrightarrow>
   \<exists>db'. sseq (putAppStateMutationMACs name v) css db = (Inr (), db') \<and> answering db'"
proof (induction css arbitrary: db)
  case (Cons cs css)
  let ?db = "tick (db\<lparr>mutation_macs := mutation_macs db @ mac_rows name v cs\<rparr>)"
  have "unique_rows (mutation_macs db @ mac_rows name v cs)"
    using Cons.prems(3) by (auto simp: unique_rows_def)
  moreover have "\<forall>r \<in> set (mac_rows name v cs). length (mr_index r) = 32 \<and> length (mr_value r) = 32"
    using Cons.prems(4) by (auto simp: mac_rows_def)
  ultimately have one: "putAppStateMutationMACs name v cs db = (Inr (), ?db)"
    using Cons.prems(1, 2) by (simp add: put_batch_Inr answering_def)
  have "\<exists>db'. sseq (putAppStateMutationMACs name v) css ?db = (Inr (), db') \<and> answering db'"
    using Cons.prems by (intro Cons.IH) (simp_all add: answering_def)
  with one show ?case by auto
qed simp

lemma PutMACs_ok:
  assumes "answering db" and "state_version db name \<noteq> None" and "below db name v" and "unique_rows (mutation_macs db)"
    and "distinct (map mm_IndexMAC ms)"
    and "\<forall>m \<in> set ms. length (mm_IndexMAC m) = 32 \<and> length (mm_ValueMAC m) = 32"
  shows "\<exists>db'. PutAppStateMutationMACs name v ms db = (Inr (), db') \<and> answering db'"
proof (cases "ms = []")
  case True
  with assms(1) show ?thesis by (simp add: PutAppStateMutationMACs_def)
next
  case False
  have "row_key r \<noteq> row_key q" if "r \<in> set (mutation_macs db)" "q \<in> set (mac_rows name v ms)" for r q
    using that assms(3) by (auto simp: below_def row_key_def mac_rows_def)
  then have "row_key ` set (mutation_macs db) \<inter> row_key ` set (mac_rows name v ms) = {}" by blast
  moreover have "unique_rows (mac_rows name v ms)"
    using assms(5) by (auto simp: unique_rows_def mac_rows_def row_key_def comp_def distinct_map inj_on_def)
  ultimately have "unique_rows (mutation_macs db @ mac_rows name v ms)" using assms(4) by (simp add: unique_rows_def)
  then obtain db1 where
    "sseq (putAppStateMutationMACs name v) (chunks mutationBatchSize ms) (tick db) = (Inr (), db1)" "answering db1"
    using put_batches_ok [of "tick db" name v "chunks mutationBatchSize ms"] assms(1, 2, 6) by (auto simp: concat_chunks)
  then have "DoTxn (sseq (putAppStateMutationMACs name v) (chunks mutationBatchSize ms)) db = (Inr (), tick db1)"
    using assms(1) by (simp add: DoTxn_def sql_exec_def answering_def)
  with False \<open>answering db1\<close> show ?thesis by (simp add: PutAppStateMutationMACs_def)
qed

lemma PutVersion_ok:
  "answering db \<Longrightarrow> length h = 128 \<Longrightarrow>
   PutAppStateVersion name v h db = (Inr (), tick (db\<lparr>state_version := (state_version db)(name \<mapsto> (v, h))\<rparr>))"
  by (simp add: PutAppStateVersion_def sql_exec_def answering_def)

lemma DeleteMACs_ok:
  "answering db \<Longrightarrow> \<exists>db'. DeleteAppStateMutationMACs name ks db = (Inr (), db') \<and> answering db' \<and>
     state_version db' = state_version db"
  by (auto simp: DeleteAppStateMutationMACs_def sql_exec_def answering_def)

section \<open>What the processor relies on\<close>

locale mac_store =
  fixes get :: "string \<Rightarrow> bytes \<Rightarrow> ('s, 'e, bytes option) sr"
    and putVersion :: "string \<Rightarrow> 64 word \<Rightarrow> bytes \<Rightarrow> ('s, 'e, unit) sr"
    and delete :: "string \<Rightarrow> bytes list \<Rightarrow> ('s, 'e, unit) sr"
    and put :: "string \<Rightarrow> 64 word \<Rightarrow> AppStateMutationMAC list \<Rightarrow> ('s, 'e, unit) sr"
    and view :: "'s \<Rightarrow> string \<Rightarrow> bytes \<rightharpoonup> bytes"
    and saved :: "'s \<Rightarrow> string \<rightharpoonup> 64 word \<times> bytes"
    and older :: "'s \<Rightarrow> string \<Rightarrow> 64 word \<Rightarrow> bool"
    and inv :: "'s \<Rightarrow> bool"
  assumes get_view: "get name i s = (Inr r, s') \<Longrightarrow> r = view s name i"
    and get_keeps: "get name i s = (res, s') \<Longrightarrow> view s' = view s \<and> saved s' = saved s \<and> older s' = older s \<and> inv s' = inv s"
    and putVersion_law: "putVersion name v h s = (Inr u, s') \<Longrightarrow> inv s \<Longrightarrow>
      view s' = view s \<and> older s' = older s \<and> saved s' = (saved s)(name \<mapsto> (v, h)) \<and> inv s'"
    and delete_law: "delete name removed s = (Inr u, s') \<Longrightarrow> inv s \<Longrightarrow>
      view s' = (\<lambda>n i. if n = name \<and> i \<in> set removed then None else view s n i) \<and> saved s' = saved s \<and>
      (\<forall>n v. older s n v \<longrightarrow> older s' n v) \<and> inv s'"
    and put_law: "put name v ms s = (Inr u, s') \<Longrightarrow> inv s \<Longrightarrow> older s name v \<Longrightarrow>
      view s' name = view s name ++ mac_map ms \<and> (\<forall>n. n \<noteq> name \<longrightarrow> view s' n = view s n) \<and> saved s' = saved s \<and>
      (\<forall>v'. v < v' \<longrightarrow> older s' name v') \<and> inv s' \<and> distinct (map mm_IndexMAC ms)"
    and older_mono: "older s name v \<Longrightarrow> v < v' \<Longrightarrow> older s name v'"
begin

text \<open>Saving the outcome of a patch: the version, then the removals, then the additions.\<close>

lemma store_patch:
  assumes "putVersion name v h s = (Inr u1, s1)" and "delete name removed s1 = (Inr u2, s2)"
    and "put name v ms s2 = (Inr u3, s3)" and "inv s" and "older s name v"
  shows "saved s3 = (saved s)(name \<mapsto> (v, h))"
    and "view s3 name = (\<lambda>i. if i \<in> set removed then None else view s name i) ++ mac_map ms"
    and "n \<noteq> name \<Longrightarrow> view s3 n = view s n"
    and "v < v' \<Longrightarrow> older s3 name v'" and "inv s3" and "distinct (map mm_IndexMAC ms)"
proof -
  have 1: "view s1 = view s" "older s1 = older s" "saved s1 = (saved s)(name \<mapsto> (v, h))" "inv s1"
    using putVersion_law [OF assms(1, 4)] by blast+
  have 2: "view s2 = (\<lambda>n i. if n = name \<and> i \<in> set removed then None else view s n i)" "saved s2 = saved s1"
    "older s2 name v" "inv s2"
    using delete_law [OF assms(2) 1(4)] assms(5) unfolding 1 by blast+
  note 3 = put_law [OF assms(3) 2(4, 3)]
  show "saved s3 = (saved s)(name \<mapsto> (v, h))" using 1 2 3 by simp
  show "view s3 name = (\<lambda>i. if i \<in> set removed then None else view s name i) ++ mac_map ms"
    using 3 by (simp add: 2)
  show "n \<noteq> name \<Longrightarrow> view s3 n = view s n" using 3 by (simp add: 2)
  show "v < v' \<Longrightarrow> older s3 name v'" "inv s3" "distinct (map mm_IndexMAC ms)" using 3 by blast+
qed

end

interpretation app_store: mac_store GetAppStateMutationMAC PutAppStateVersion DeleteAppStateMutationMACs
  PutAppStateMutationMACs current_mac state_version below db_ok
proof
  show "GetAppStateMutationMAC name i s = (Inr r, s') \<Longrightarrow> r = current_mac s name i" for name i s r s'
    by (simp add: GetAppStateMutationMAC_def sql_query_Inr)
  show "current_mac s' = current_mac s \<and> state_version s' = state_version s \<and> below s' = below s \<and> db_ok s' = db_ok s"
    if "GetAppStateMutationMAC name i s = (r, s')" for name i s r s'
  proof -
    have "s' = tick s" using that by (simp add: GetAppStateMutationMAC_def sql_query_def split: if_splits)
    then show ?thesis by simp
  qed
  show "current_mac s' = current_mac s \<and> below s' = below s \<and>
      state_version s' = (state_version s)(name \<mapsto> (v, h)) \<and> db_ok s'"
    if "PutAppStateVersion name v h s = (Inr u, s')" "db_ok s" for name v h s u s'
  proof -
    have "length h = 128" and s': "s' = tick (s\<lparr>state_version := (state_version s)(name \<mapsto> (v, h))\<rparr>)"
      using that(1) by (auto simp: PutAppStateVersion_def sql_exec_Inr split: if_splits)
    then show ?thesis using that(2) by (auto simp: below_def db_ok_def current_mac_def fun_eq_iff)
  qed
  show "current_mac s' = (\<lambda>n i. if n = name \<and> i \<in> set removed then None else current_mac s n i) \<and>
      state_version s' = state_version s \<and> (\<forall>n v. below s n v \<longrightarrow> below s' n v) \<and> db_ok s'"
    if "DeleteAppStateMutationMACs name removed s = (Inr u, s')" "db_ok s" for name removed s u s'
  proof (cases "removed = []")
    case False
    with that(1) have "s' = tick (s\<lparr>mutation_macs :=
        filter (\<lambda>r. \<not> (mr_name r = name \<and> mr_index r \<in> set removed)) (mutation_macs s)\<rparr>)"
      by (auto simp: DeleteAppStateMutationMACs_def sql_exec_Inr)
    with current_mac_delete [of s' name removed s] db_ok_filter [OF that(2)] show ?thesis
      by (auto simp: below_def fun_eq_iff)
  qed (use that in \<open>auto simp: DeleteAppStateMutationMACs_def\<close>)
  show "current_mac s' name = current_mac s name ++ mac_map ms \<and> (\<forall>n. n \<noteq> name \<longrightarrow> current_mac s' n = current_mac s n) \<and>
      state_version s' = state_version s \<and> (\<forall>v'. v < v' \<longrightarrow> below s' name v') \<and> db_ok s' \<and>
      distinct (map mm_IndexMAC ms)"
    if "PutAppStateMutationMACs name v ms s = (Inr u, s')" "db_ok s" "below s name v" for name v ms s u s'
  proof -
    have "unique_rows (mutation_macs s)" using that(2) by (simp add: db_ok_def)
    note put = PutMACs_Inr [OF that(1) this]
    have "mr_version r = v" if "r \<in> set (mac_rows name v ms)" for r using that by (auto simp: mac_rows_def)
    then have "below s' name v'" if "v < v'" for v'
      using that \<open>below s name v\<close> put(1) by (auto simp: below_def)
    moreover have "db_ok s'" using db_ok_put_macs [OF that(2), of name v ms] that(1) by simp
    moreover have "distinct (map mm_IndexMAC ms)" by (rule unique_rows_index [OF put(1, 2)])
    ultimately show ?thesis using current_mac_put [OF put(1, 2) that(3)] put(3) by blast
  qed
  show "below s name v \<Longrightarrow> v < v' \<Longrightarrow> below s name v'" for s name v v'
    by (auto simp: below_def)
qed

end
