(* ===== verification/AppState.thy ===== *)
theory AppState
  imports AppStore Cbc GoLib
begin

text \<open>
  \<open>src/appstate/hash.go\<close>, \<open>src/appstate/keys.go\<close> and \<open>src/appstate/errors.go\<close>: the messages of the app
  state protocol, the processor with its key cache, the hash state of a collection and the MACs.
  The generated message types are records with the fields the code reads; a nested message with one
  field is that field, and a missing blob is the empty one, as the generated getters have it.
  Protobuf and JSON are the parameter \<open>sync_codec\<close>.
\<close>

unbundle bit_operations_syntax

section \<open>Messages\<close>

text \<open>Messages that the code only passes on are kept in their wire form.\<close>

type_synonym wire_message = bytes

record SyncActionMessageRange =
  LastMessageTimestamp :: "int option"
  range_Messages :: "(wire_message \<times> int option) list"

record LabelEditAction =
  le_Name :: "string option"
  le_Color :: "int option"
  le_Deleted :: "bool option"

record QuickReplyAction =
  qr_Shortcut :: "string option"
  qr_Message :: "string option"
  qr_Keywords :: "string list"
  qr_Count :: "int option"
  qr_Deleted :: "bool option"
  qr_AssociatedLabelIDs :: "string list"

record ContactAction =
  ca_FirstName :: string
  ca_FullName :: string
  ca_Username :: string

record RootSecretEntry =
  rs_ID :: string
  rs_RootSecret :: bytes
  rs_Active :: bool
  rs_Epoch :: int

text \<open>
  \<open>SyncActionValue\<close> has one optional field per kind of action. Actions with a single field are that
  field; \<open>MuteAction\<close> is the flag and the end of the period, the actions on a chat are the flag and
  the range of messages.
\<close>

record SyncActionValue =
  sav_Timestamp :: "int option"
  MuteAction :: "(bool option \<times> int option) option"
  PinAction :: "bool option option"
  ArchiveChatAction :: "(bool option \<times> SyncActionMessageRange) option"
  MarkChatAsReadAction :: "(bool option \<times> SyncActionMessageRange) option"
  DeleteChatAction :: "SyncActionMessageRange option"
  LabelAssociationAction :: "bool option option"
  sav_LabelEditAction :: "LabelEditAction option"
  sav_QuickReplyAction :: "QuickReplyAction option"
  PushNameSetting :: "string option option"
  StarAction :: "bool option option"
  sav_ContactAction :: "ContactAction option"
  LidContactAction :: "ContactAction option"
  NctSaltSyncAction :: "bytes option"
  WasaRootSecretAction :: "RootSecretEntry list option"
  OtherAction :: "wire_message option"

definition no_action :: SyncActionValue where
  "no_action = \<lparr>sav_Timestamp = None, MuteAction = None, PinAction = None, ArchiveChatAction = None,
     MarkChatAsReadAction = None, DeleteChatAction = None, LabelAssociationAction = None, sav_LabelEditAction = None,
     sav_QuickReplyAction = None, PushNameSetting = None, StarAction = None, sav_ContactAction = None,
     LidContactAction = None, NctSaltSyncAction = None, WasaRootSecretAction = None, OtherAction = None\<rparr>"

record SyncActionData =
  sad_Index :: bytes
  sad_Value :: "SyncActionValue option"
  sad_Padding :: bytes
  sad_Version :: int

datatype SyncdOperation = SyncdMutation_SET | SyncdMutation_REMOVE

record SyncdRecord =
  sr_Index :: bytes
  sr_Value :: bytes
  sr_KeyID :: "bytes option"

record SyncdMutation =
  sm_Operation :: SyncdOperation
  sm_Record :: SyncdRecord

record SyncdPatch =
  sp_Version :: "64 word"
  sp_Mutations :: "SyncdMutation list"
  sp_ExternalMutations :: "wire_message option"
  sp_SnapshotMAC :: bytes
  sp_PatchMAC :: bytes
  sp_KeyID :: "bytes option"

record SyncdSnapshot =
  ss_Version :: "64 word"
  ss_Records :: "SyncdRecord list"
  ss_Mac :: bytes
  ss_KeyID :: "bytes option"

record sync_codec =
  unmarshal_action :: "bytes \<Rightarrow> SyncActionData option"
  marshal_action :: "SyncActionData \<Rightarrow> bytes option"
  unmarshal_patch :: "bytes \<Rightarrow> SyncdPatch option"
  marshal_patch :: "SyncdPatch \<Rightarrow> bytes option"
  unmarshal_snapshot :: "bytes \<Rightarrow> SyncdSnapshot option"
  unmarshal_mutations :: "bytes \<Rightarrow> SyncdMutation list option"
  unmarshal_blobref :: "bytes \<Rightarrow> wire_message option"
  unmarshal_index :: "bytes \<Rightarrow> string list option"
  marshal_index :: "string list \<Rightarrow> bytes option"

section \<open>Errors\<close>

datatype app_error =
    ErrMissingPreviousSetValueOperation bytes
  | ErrMismatchingLTHash "64 word"
  | ErrMismatchingPatchMAC "64 word"
  | ErrMismatchingContentMAC nat
  | ErrMismatchingIndexMAC nat
  | ErrKeyNotFound
  | StoreError db_error
  | DecryptError nat cbc_error
  | EncryptError cbc_error
  | UnmarshalMutation nat
  | UnmarshalIndex nat
  | MarshalFailed
  | UnmarshalSnapshot
  | UnmarshalPatch nat
  | UnmarshalMutationList
  | DownloadFailed
  | NilDownloaderPanic
  | NoMutationsDownloaded
  | BadAttributes
  | InvalidLTHashLength nat
  | DecompressFailed
  | SliceOutOfRange
  | HashPanic lt_error
  | KeyPanic crypto_error

section \<open>The processor and its keys\<close>

record ExpandedAppStateKeys =
  ek_Index :: bytes
  ek_ValueEncryption :: bytes
  ek_ValueMAC :: bytes
  ek_SnapshotMAC :: bytes
  ek_PatchMAC :: bytes

record Processor =
  keyCache :: "string \<rightharpoonup> ExpandedAppStateKeys"
  proc_Store :: app_db

definition NewProcessor :: "app_db \<Rightarrow> Processor" where
  "NewProcessor store = \<lparr>keyCache = Map.empty, proc_Store = store\<rparr>"

type_synonym 'a proc_op = "(Processor, app_error, 'a) sr"

definition with_store :: "'a db_op \<Rightarrow> 'a proc_op" where
  "with_store op proc =
     (case op (proc_Store proc) of (r, db) \<Rightarrow> (rwrap StoreError r, proc\<lparr>proc_Store := db\<rparr>))"

definition expandAppStateKeys :: "crypto \<Rightarrow> bytes \<Rightarrow> crypto_error + ExpandedAppStateKeys" where
  "expandAppStateKeys c keyData =
     rbind (hkdf_SHA256 c keyData [] (bytes_of_string ''WhatsApp Mutation Keys'') 160) (\<lambda>x.
       Inr \<lparr>ek_Index = take 32 x, ek_ValueEncryption = take 32 (drop 32 x), ek_ValueMAC = take 32 (drop 64 x),
            ek_SnapshotMAC = take 32 (drop 96 x), ek_PatchMAC = take 32 (drop 128 x)\<rparr>)"

abbreviation blob :: "bytes option \<Rightarrow> bytes" where
  "blob b \<equiv> (case b of None \<Rightarrow> [] | Some x \<Rightarrow> x)"

definition getAppStateKey :: "crypto \<Rightarrow> bytes \<Rightarrow> ExpandedAppStateKeys proc_op" where
  "getAppStateKey c keyID proc =
     (let keyCacheID = RawStdEncoding keyID in
      case keyCache proc keyCacheID of
        Some keys \<Rightarrow> (Inr keys, proc)
      | None \<Rightarrow>
          sbind (with_store (GetAppStateSyncKey keyID)) (\<lambda>keyData proc.
            case keyData of
              None \<Rightarrow> (Inl ErrKeyNotFound, proc)
            | Some kd \<Rightarrow>
                (case expandAppStateKeys c (sk_Data kd) of
                   Inl e \<Rightarrow> (Inl (KeyPanic e), proc)
                 | Inr keys \<Rightarrow> (Inr keys, proc\<lparr>keyCache := (keyCache proc)(keyCacheID \<mapsto> keys)\<rparr>))) proc)"

record PatchList =
  pl_Name :: string
  pl_HasMorePatches :: bool
  pl_Patches :: "SyncdPatch list"
  pl_Snapshot :: "SyncdSnapshot option"

text \<open>
  \<open>checkMissing\<close> of the source: the IDs looked up so far, in their encoded form, with the outcome;
  the missing ones; and the store. A failed lookup is remembered as not missing.
\<close>

definition checkMissing ::
  "bytes option \<Rightarrow> (string \<rightharpoonup> bool) \<times> bytes list \<times> Processor \<Rightarrow> (string \<rightharpoonup> bool) \<times> bytes list \<times> Processor" where
  "checkMissing key st =
     (case (key, st) of
        (None, _) \<Rightarrow> st
      | (Some keyID, (cache, missingKeys, proc)) \<Rightarrow>
          (let stringKeyID = RawStdEncoding keyID in
           case cache stringKeyID of
             Some _ \<Rightarrow> st
           | None \<Rightarrow>
               (case GetAppStateSyncKey keyID (proc_Store proc) of
                  (r, db) \<Rightarrow>
                    (let missing = (r = Inr None) in
                     (cache(stringKeyID \<mapsto> missing), if missing then missingKeys @ [keyID] else missingKeys,
                      proc\<lparr>proc_Store := db\<rparr>)))))"

definition GetMissingKeyIDs :: "PatchList \<Rightarrow> Processor \<Rightarrow> bytes list \<times> Processor" where
  "GetMissingKeyIDs pl proc =
     (let st = (Map.empty, [], proc);
          st = (case pl_Snapshot pl of
                  None \<Rightarrow> st
                | Some ss \<Rightarrow> fold (\<lambda>record. checkMissing (sr_KeyID record)) (ss_Records ss) (checkMissing (ss_KeyID ss) st));
          (cache, missingKeys, proc) = fold (\<lambda>patch. checkMissing (sp_KeyID patch)) (pl_Patches pl) st
      in (missingKeys, proc))"

section \<open>The hash state\<close>

record Mutation =
  mu_KeyID :: "bytes option"
  mu_Operation :: SyncdOperation
  mu_Action :: "SyncActionValue option"
  mu_Version :: int
  mu_Index :: "string list"
  mu_IndexMAC :: bytes
  mu_ValueMAC :: bytes
  mu_PatchVersion :: "64 word"

record HashState =
  hs_Version :: "64 word"
  hs_Hash :: bytes

text \<open>\<open>value[len(value)-32:]\<close>, and its panic on a shorter value.\<close>

definition last32 :: "bytes \<Rightarrow> app_error + bytes" where
  "last32 v = (if length v < 32 then Inl SliceOutOfRange else Inr (drop (length v - 32) v))"

type_synonym 's get_prev = "bytes \<Rightarrow> nat \<Rightarrow> ('s, app_error, bytes option) sr"

text \<open>The loop of \<open>updateHash\<close> from mutation \<open>i\<close> on, with the warnings, and the values to add and to remove.\<close>

fun updateHash_loop ::
  "'s get_prev \<Rightarrow> nat \<Rightarrow> SyncdMutation list \<Rightarrow> bytes list \<times> bytes list \<times> app_error list \<Rightarrow>
   's \<Rightarrow> (app_error list \<times> (app_error + (bytes list \<times> bytes list))) \<times> 's" where
  "updateHash_loop getPrev i [] (added, removed, warnings) s = ((warnings, Inr (added, removed)), s)"
| "updateHash_loop getPrev i (mutation # ms) (added, removed, warnings) s =
     (case (if sm_Operation mutation = SyncdMutation_SET
            then rbind (last32 (sr_Value (sm_Record mutation))) (\<lambda>v. Inr (added @ [v])) else Inr added) of
        Inl e \<Rightarrow> ((warnings, Inl e), s)
      | Inr added \<Rightarrow>
          (let indexMAC = sr_Index (sm_Record mutation) in
           case getPrev indexMAC i s of
             (Inl e, s) \<Rightarrow> ((warnings, Inl e), s)
           | (Inr (Some removal), s) \<Rightarrow> updateHash_loop getPrev (Suc i) ms (added, removed @ [removal], warnings) s
           | (Inr None, s) \<Rightarrow>
               updateHash_loop getPrev (Suc i) ms
                 (added, removed,
                  if sm_Operation mutation = SyncdMutation_REMOVE
                  then warnings @ [ErrMissingPreviousSetValueOperation indexMAC] else warnings) s))"

definition updateHash ::
  "crypto \<Rightarrow> SyncdMutation list \<Rightarrow> 's get_prev \<Rightarrow> HashState \<Rightarrow> 's \<Rightarrow> (app_error list \<times> (app_error + HashState)) \<times> 's" where
  "updateHash c mutations getPrev hs s =
     (case updateHash_loop getPrev 0 mutations ([], [], []) s of
        ((warnings, r), s) \<Rightarrow>
          ((warnings,
            rbind r (\<lambda>(added, removed).
              rwrap HashPanic (rbind (SubtractThenAddInPlace c WAPatchIntegrity (hs_Hash hs) removed added) (\<lambda>h.
                Inr (hs\<lparr>hs_Hash := h\<rparr>))))), s))"

definition uint64ToBytes :: "64 word \<Rightarrow> bytes" where
  "uint64ToBytes val = map (\<lambda>i. ucast (drop_bit (8 * (7 - i)) val)) [0..<8]"

definition concatAndHMAC :: "(bytes \<Rightarrow> bytes \<Rightarrow> bytes) \<Rightarrow> bytes \<Rightarrow> bytes list \<Rightarrow> bytes" where
  "concatAndHMAC alg key d = alg key (concat d)"

definition generateSnapshotMAC :: "crypto \<Rightarrow> string \<Rightarrow> bytes \<Rightarrow> HashState \<Rightarrow> bytes" where
  "generateSnapshotMAC c name key hs =
     concatAndHMAC (hmac_sha256 c) key [hs_Hash hs, uint64ToBytes (hs_Version hs), bytes_of_string name]"

fun value_macs :: "SyncdMutation list \<Rightarrow> app_error + bytes list" where
  "value_macs [] = Inr []"
| "value_macs (m # ms) =
     rbind (last32 (sr_Value (sm_Record m))) (\<lambda>v. rbind (value_macs ms) (\<lambda>vs. Inr (v # vs)))"

definition generatePatchMAC :: "crypto \<Rightarrow> SyncdPatch \<Rightarrow> string \<Rightarrow> bytes \<Rightarrow> 64 word \<Rightarrow> app_error + bytes" where
  "generatePatchMAC c patch name key version =
     rbind (value_macs (sp_Mutations patch)) (\<lambda>macs.
       Inr (concatAndHMAC (hmac_sha256 c) key
         ([sp_SnapshotMAC patch] @ macs @ [uint64ToBytes version, bytes_of_string name])))"

definition operation_byte :: "SyncdOperation \<Rightarrow> byte" where
  "operation_byte op = (case op of SyncdMutation_SET \<Rightarrow> 0 | SyncdMutation_REMOVE \<Rightarrow> 1)"

definition generateContentMAC :: "crypto \<Rightarrow> SyncdOperation \<Rightarrow> bytes \<Rightarrow> bytes \<Rightarrow> bytes \<Rightarrow> bytes" where
  "generateContentMAC c operation d keyID key =
     (let operationBytes = [operation_byte operation + 1];
          keyDataLength = uint64ToBytes (word_of_nat (length keyID + 1))
      in take 32 (concatAndHMAC (hmac_sha512 c) key [operationBytes, keyID, d, keyDataLength]))"

section \<open>Missing keys\<close>

definition patch_key_ids :: "PatchList \<Rightarrow> bytes list" where
  "patch_key_ids pl =
     List.map_filter id
       ((case pl_Snapshot pl of None \<Rightarrow> [] | Some ss \<Rightarrow> ss_KeyID ss # map sr_KeyID (ss_Records ss)) @
        map sp_KeyID (pl_Patches pl))"

text \<open>The elements of a list without the repetitions, in the order of their first occurrence.\<close>

definition firsts :: "'a list \<Rightarrow> 'a list" where
  "firsts xs = rev (remdups (rev xs))"

lemma firsts_simps [simp]:
  "firsts [] = []" "firsts (xs @ [x]) = (if x \<in> set xs then firsts xs else firsts xs @ [x])" "set (firsts xs) = set xs"
  "distinct (firsts xs)"
  by (simp_all add: firsts_def)

definition missing_after :: "(bytes \<times> AppStateSyncKey) list \<Rightarrow> bytes list \<Rightarrow> (string \<rightharpoonup> bool) \<times> bytes list \<times> Processor \<Rightarrow> bool" where
  "missing_after tbl ks st \<longleftrightarrow>
     (\<forall>k. fst st (RawStdEncoding k) = (if k \<in> set ks then Some (map_of tbl k = None) else None)) \<and>
     fst (snd st) = firsts (filter (\<lambda>k. map_of tbl k = None) ks) \<and>
     sync_keys (proc_Store (snd (snd st))) = tbl \<and> (\<forall>n. \<not> db_fails (proc_Store (snd (snd st))) n)"

lemma checkMissing_after:
  assumes "missing_after tbl ks st"
  shows "missing_after tbl (ks @ (case key of None \<Rightarrow> [] | Some k \<Rightarrow> [k])) (checkMissing key st)"
proof (cases key)
  case None
  with assms show ?thesis by (simp add: checkMissing_def)
next
  case (Some k)
  obtain cache missing proc where st: "st = (cache, missing, proc)" by (cases st)
  show ?thesis
  proof (cases "k \<in> set ks")
    case True
    with assms have "cache (RawStdEncoding k) = Some (map_of tbl k = None)" by (simp add: missing_after_def st)
    with True assms show ?thesis by (auto simp: checkMissing_def st Some missing_after_def)
  next
    case False
    with assms have "cache (RawStdEncoding k) = None" by (simp add: missing_after_def st)
    with False assms show ?thesis
      by (auto simp: checkMissing_def st Some missing_after_def Let_def GetAppStateSyncKey_def sql_query_def RawStdEncoding_inj)
  qed
qed

lemma fold_checkMissing_after:
  "missing_after tbl ks st \<Longrightarrow>
   missing_after tbl (ks @ List.map_filter id (map f xs)) (fold (\<lambda>x. checkMissing (f x)) xs st)"
proof (induction xs arbitrary: ks st)
  case (Cons x xs)
  from Cons.IH [OF checkMissing_after [OF Cons.prems, of "f x"]] show ?case
    by (cases "f x") (simp_all add: map_filter_simps)
qed (simp add: map_filter_simps)

text \<open>
  C37: as long as the store answers, the key IDs reported missing are exactly those a snapshot, its
  records or a patch names and the store does not have, each once, in the order they are first met.
\<close>

theorem GetMissingKeyIDs_exact:
  assumes "\<forall>n. \<not> db_fails (proc_Store proc) n"
  shows "fst (GetMissingKeyIDs pl proc) =
     firsts (filter (\<lambda>k. map_of (sync_keys (proc_Store proc)) k = None) (patch_key_ids pl))"
proof -
  let ?tbl = "sync_keys (proc_Store proc)"
  let ?ks = "List.map_filter id (case pl_Snapshot pl of None \<Rightarrow> [] | Some ss \<Rightarrow> ss_KeyID ss # map sr_KeyID (ss_Records ss))"
  let ?st = "case pl_Snapshot pl of None \<Rightarrow> (Map.empty, [], proc)
     | Some ss \<Rightarrow> fold (\<lambda>r. checkMissing (sr_KeyID r)) (ss_Records ss) (checkMissing (ss_KeyID ss) (Map.empty, [], proc))"
  have 0: "missing_after ?tbl [] (Map.empty, [], proc)" using assms by (simp add: missing_after_def)
  have 1: "missing_after ?tbl ?ks ?st"
  proof (cases "pl_Snapshot pl")
    case None
    with 0 show ?thesis by (simp add: map_filter_simps)
  next
    case (Some ss)
    from fold_checkMissing_after [OF checkMissing_after [OF 0, of "ss_KeyID ss"], of sr_KeyID "ss_Records ss"] Some
    show ?thesis by (cases "ss_KeyID ss") (simp_all add: map_filter_simps)
  qed
  have "missing_after ?tbl (patch_key_ids pl) (fold (\<lambda>patch. checkMissing (sp_KeyID patch)) (pl_Patches pl) ?st)"
    using fold_checkMissing_after [OF 1, of sp_KeyID "pl_Patches pl"]
    by (simp add: patch_key_ids_def map_filter_def)
  then show ?thesis by (simp add: missing_after_def GetMissingKeyIDs_def Let_def split_beta)
qed

definition sample_patch :: "bytes option \<Rightarrow> SyncdPatch" where
  "sample_patch k = \<lparr>sp_Version = 1, sp_Mutations = [], sp_ExternalMutations = None, sp_SnapshotMAC = [],
     sp_PatchMAC = [], sp_KeyID = k\<rparr>"

theorem GetMissingKeyIDs_exact_witness:
  "fst (GetMissingKeyIDs
     \<lparr>pl_Name = ''regular'', pl_HasMorePatches = False,
      pl_Patches = map sample_patch [Some [1], None, Some [2], Some [1]], pl_Snapshot = None\<rparr>
     (NewProcessor (empty_app_db (\<lambda>_. False)))) = [[1], [2]]"
  by (subst GetMissingKeyIDs_exact)
    (simp_all add: NewProcessor_def empty_app_db_def patch_key_ids_def sample_patch_def map_filter_simps firsts_def)

section \<open>The hash follows the table\<close>

text \<open>A mutation as an operation on the table of value MACs by index.\<close>

definition mut_op :: "SyncdMutation \<Rightarrow> bytes \<times> bytes option" where
  "mut_op m =
     (sr_Index (sm_Record m),
      case sm_Operation m of
        SyncdMutation_SET \<Rightarrow> Some (drop (length (sr_Value (sm_Record m)) - 32) (sr_Value (sm_Record m)))
      | SyncdMutation_REMOVE \<Rightarrow> None)"

lemma last32_Inr: "last32 v = Inr x \<longleftrightarrow> 32 \<le> length v \<and> x = drop (length v - 32) v"
  by (auto simp: last32_def)

lemma SyncdOperation_neq: "op \<noteq> SyncdMutation_SET \<longleftrightarrow> op = SyncdMutation_REMOVE"
  by (cases op) auto

text \<open>\<open>getPrev\<close> answers for the table as the mutations before \<open>i\<close> leave it.\<close>

definition answers ::
  "'s get_prev \<Rightarrow> ('s \<Rightarrow> bool) \<Rightarrow> (bytes \<rightharpoonup> bytes) \<Rightarrow> SyncdMutation list \<Rightarrow> bool" where
  "answers getPrev I t ms \<longleftrightarrow>
     (\<forall>i s r s'. i < length ms \<longrightarrow> I s \<longrightarrow> getPrev (sr_Index (sm_Record (ms ! i))) i s = (Inr r, s') \<longrightarrow>
        r = tab_apply t (map mut_op (take i ms)) (sr_Index (sm_Record (ms ! i))) \<and> I s')"

lemma updateHash_loop_step:
  assumes "updateHash_loop getPrev i (m # ms) (added, removed, w) s = ((w', Inr out), s')"
  obtains prev s1 w1 where "getPrev (sr_Index (sm_Record m)) i s = (Inr prev, s1)"
    and "sm_Operation m = SyncdMutation_SET \<longrightarrow> 32 \<le> length (sr_Value (sm_Record m))"
    and "updateHash_loop getPrev (Suc i) ms
      (added @ (case snd (mut_op m) of None \<Rightarrow> [] | Some v \<Rightarrow> [v]),
       removed @ (case prev of None \<Rightarrow> [] | Some v \<Rightarrow> [v]), w1) s1 = ((w', Inr out), s')"
proof -
  obtain r s1 where g: "getPrev (sr_Index (sm_Record m)) i s = (r, s1)" by (cases "getPrev (sr_Index (sm_Record m)) i s")
  have len: "32 \<le> length (sr_Value (sm_Record m))" if "sm_Operation m = SyncdMutation_SET"
    using assms that by (auto simp: last32_def split: if_splits)
  then have added: "(if sm_Operation m = SyncdMutation_SET
      then rbind (last32 (sr_Value (sm_Record m))) (\<lambda>v. Inr (added @ [v])) else Inr added) =
      Inr (added @ (case snd (mut_op m) of None \<Rightarrow> [] | Some v \<Rightarrow> [v]))"
    by (cases "sm_Operation m") (simp_all add: last32_def mut_op_def)
  note eq = assms [unfolded updateHash_loop.simps added sum.case Let_def g prod.case]
  from eq obtain prev where r: "r = Inr prev" by (cases r) auto
  show ?thesis
  proof (cases prev)
    case None
    with eq r g len show ?thesis by (intro that [of None s1]) simp_all
  next
    case (Some v)
    with eq r g len show ?thesis by (intro that [of "Some v" s1]) simp_all
  qed
qed

lemma updateHash_loop_table:
  assumes "answers getPrev I t allms"
  shows "allms = done @ ms \<Longrightarrow> I s \<Longrightarrow>
     updateHash_loop getPrev (length done) ms (inserted (map mut_op done), replaced t (map mut_op done), w) s =
       ((w', Inr (added, removed)), s') \<Longrightarrow>
     added = inserted (map mut_op allms) \<and> removed = replaced t (map mut_op allms) \<and> I s' \<and>
     (\<forall>m \<in> set ms. sm_Operation m = SyncdMutation_SET \<longrightarrow> 32 \<le> length (sr_Value (sm_Record m)))"
proof (induction ms arbitrary: "done" s w)
  case (Cons m ms)
  let ?k = "sr_Index (sm_Record m)"
  obtain prev s1 w1 where
    get: "getPrev ?k (length done) s = (Inr prev, s1)"
    and len: "sm_Operation m = SyncdMutation_SET \<longrightarrow> 32 \<le> length (sr_Value (sm_Record m))"
    and rest: "updateHash_loop getPrev (Suc (length done)) ms
      (inserted (map mut_op done) @ (case snd (mut_op m) of None \<Rightarrow> [] | Some v \<Rightarrow> [v]),
       replaced t (map mut_op done) @ (case prev of None \<Rightarrow> [] | Some v \<Rightarrow> [v]), w1) s1 = ((w', Inr (added, removed)), s')"
    by (rule updateHash_loop_step [OF Cons.prems(3)])
  have at: "allms ! length done = m" "length done < length allms" "take (length done) allms = done"
    using Cons.prems(1) by simp_all
  have prev: "prev = tab_apply t (map mut_op done) ?k" and I1: "I s1"
    using assms [unfolded answers_def, rule_format, OF at(2) Cons.prems(2), of prev s1] get by (simp_all add: at)
  obtain v where op: "mut_op m = (?k, v)" by (simp add: mut_op_def)
  have "inserted (map mut_op (done @ [m])) =
      inserted (map mut_op done) @ (case snd (mut_op m) of None \<Rightarrow> [] | Some v \<Rightarrow> [v])"
    by (simp add: op inserted_append)
  moreover have "replaced t (map mut_op (done @ [m])) =
      replaced t (map mut_op done) @ (case prev of None \<Rightarrow> [] | Some v \<Rightarrow> [v])"
    by (simp add: op prev replaced_append)
  ultimately have "updateHash_loop getPrev (length (done @ [m])) ms
      (inserted (map mut_op (done @ [m])), replaced t (map mut_op (done @ [m])), w1) s1 = ((w', Inr (added, removed)), s')"
    using rest by simp
  then have "added = inserted (map mut_op allms) \<and> removed = replaced t (map mut_op allms) \<and> I s' \<and>
     (\<forall>m \<in> set ms. sm_Operation m = SyncdMutation_SET \<longrightarrow> 32 \<le> length (sr_Value (sm_Record m)))"
    by (rule Cons.IH [OF _ I1, rotated]) (simp add: Cons.prems(1))
  with len show ?case by simp
qed simp

lemma updateHash_table:
  assumes "answers getPrev I t ms" and "I s" and "finite (dom t)" and "hkdf_correct c"
    and "hs_Hash hs = lt_digest c (entries t)"
    and "updateHash c ms getPrev hs s = ((w, Inr hs'), s')"
  shows "hs' = hs\<lparr>hs_Hash := lt_digest c (entries (tab_apply t (map mut_op ms)))\<rparr>" and "I s'"
    and "\<forall>m \<in> set ms. sm_Operation m = SyncdMutation_SET \<longrightarrow> 32 \<le> length (sr_Value (sm_Record m))"
proof -
  from assms(6) obtain added removed h where
    loop: "updateHash_loop getPrev 0 ms ([], [], []) s = ((w, Inr (added, removed)), s')"
    and h: "SubtractThenAddInPlace c WAPatchIntegrity (hs_Hash hs) removed added = Inr h" "hs' = hs\<lparr>hs_Hash := h\<rparr>"
    by (auto simp: updateHash_def rbind_eq_Inr split: prod.splits)
  have tab: "added = inserted (map mut_op ms) \<and> removed = replaced t (map mut_op ms) \<and> I s' \<and>
     (\<forall>m \<in> set ms. sm_Operation m = SyncdMutation_SET \<longrightarrow> 32 \<le> length (sr_Value (sm_Record m)))"
    using updateHash_loop_table [OF assms(1), of "[]" ms s "[]"] loop assms(2) by simp
  with h lthash.upd_table [OF assms(4, 3), of "map mut_op ms"] assms(5)
  show "hs' = hs\<lparr>hs_Hash := lt_digest c (entries (tab_apply t (map mut_op ms)))\<rparr>" by simp
  from tab show "I s'"
    "\<forall>m \<in> set ms. sm_Operation m = SyncdMutation_SET \<longrightarrow> 32 \<le> length (sr_Value (sm_Record m))" by blast+
qed

end
