(* ===== verification/AppDecode.thy ===== *)
theory AppDecode
  imports AppState AttrUtil
begin

text \<open>
  \<open>src/appstate/decode.go\<close> and \<open>src/appstate/recovery.go\<close>: parsing patch lists, verifying and decoding
  snapshots and patches, and saving their outcome. When an operation fails, what it returns besides
  the error is not modelled; what it changed in the store is. Shown: the saved hash is always the
  hash of the saved MACs, and what is returned has been authenticated.
\<close>

section \<open>Parsing\<close>

type_synonym downloader = "(wire_message \<Rightarrow> bytes option) option"

definition parseSnapshotInternal :: "sync_codec \<Rightarrow> node \<Rightarrow> downloader \<Rightarrow> app_error + SyncdSnapshot option" where
  "parseSnapshotInternal cd collection downloadExternal =
     (let snapshotNode = GetChildByTag [''snapshot''] collection in
      case (Tag snapshotNode = ''snapshot'', Content snapshotNode) of
        (True, VBytes rawSnapshot) \<Rightarrow>
          (case unmarshal_blobref cd rawSnapshot of
             None \<Rightarrow> Inl UnmarshalSnapshot
           | Some ref \<Rightarrow>
               (case downloadExternal of
                  None \<Rightarrow> Inl NilDownloaderPanic
                | Some download \<Rightarrow>
                    (case download ref of
                       None \<Rightarrow> Inl DownloadFailed
                     | Some rawData \<Rightarrow>
                         (case unmarshal_snapshot cd rawData of
                            None \<Rightarrow> Inl UnmarshalMutationList
                          | Some downloaded \<Rightarrow> Inr (Some downloaded)))))
      | _ \<Rightarrow> Inr None)"

definition external_mutations :: "sync_codec \<Rightarrow> downloader \<Rightarrow> SyncdPatch \<Rightarrow> app_error + SyncdPatch" where
  "external_mutations cd downloadExternal patch =
     (case (sp_ExternalMutations patch, downloadExternal) of
        (Some ref, Some download) \<Rightarrow>
          (case download ref of
             None \<Rightarrow> Inl DownloadFailed
           | Some rawData \<Rightarrow>
               (case unmarshal_mutations cd rawData of
                  None \<Rightarrow> Inl UnmarshalMutationList
                | Some [] \<Rightarrow> Inl NoMutationsDownloaded
                | Some ms \<Rightarrow> Inr (patch\<lparr>sp_Mutations := ms\<rparr>)))
      | _ \<Rightarrow> Inr patch)"

fun parse_patches :: "sync_codec \<Rightarrow> downloader \<Rightarrow> nat \<Rightarrow> node list \<Rightarrow> app_error + SyncdPatch list" where
  "parse_patches cd downloadExternal i [] = Inr []"
| "parse_patches cd downloadExternal i (patchNode # nodes) =
     (case (Tag patchNode = ''patch'', Content patchNode) of
        (True, VBytes rawPatch) \<Rightarrow>
          (case unmarshal_patch cd rawPatch of
             None \<Rightarrow> Inl (UnmarshalPatch (i + 1))
           | Some patch \<Rightarrow>
               rbind (external_mutations cd downloadExternal patch) (\<lambda>patch.
                 rbind (parse_patches cd downloadExternal (i + 1) nodes) (\<lambda>patches. Inr (patch # patches))))
      | _ \<Rightarrow> parse_patches cd downloadExternal (i + 1) nodes)"

definition parsePatchListInternal :: "sync_codec \<Rightarrow> node \<Rightarrow> downloader \<Rightarrow> app_error + SyncdPatch list" where
  "parsePatchListInternal cd collection downloadExternal =
     parse_patches cd downloadExternal 0 (GetChildren (GetChildByTag [''patches''] collection))"

definition ParsePatchList :: "sync_codec \<Rightarrow> node \<Rightarrow> downloader \<Rightarrow> app_error + PatchList" where
  "ParsePatchList cd collection downloadExternal =
     (let ag = AttrGetter collection in
      rbind (parseSnapshotInternal cd collection downloadExternal) (\<lambda>snapshot.
        rbind (parsePatchListInternal cd collection downloadExternal) (\<lambda>patches.
          let (name, ag) = au_String ''name'' ag; (hasMore, ag) = OptionalBool ''has_more_patches'' ag in
          case au_Error ag of
            Some _ \<Rightarrow> Inl BadAttributes
          | None \<Rightarrow>
              Inr \<lparr>pl_Name = name, pl_HasMorePatches = hasMore, pl_Patches = patches, pl_Snapshot = snapshot\<rparr>)))"

section \<open>Decoding mutations\<close>

record patchOutput =
  RemovedMACs :: "bytes list"
  AddedMACs :: "AppStateMutationMAC list"
  out_Mutations :: "Mutation list"

definition RemoveMAC :: "bytes \<Rightarrow> patchOutput \<Rightarrow> patchOutput" where
  "RemoveMAC indexMAC out =
     out\<lparr>RemovedMACs := RemovedMACs out @ [indexMAC],
         AddedMACs := filter (\<lambda>mac. mm_IndexMAC mac \<noteq> indexMAC) (AddedMACs out)\<rparr>"

definition AddMAC :: "bytes \<Rightarrow> bytes \<Rightarrow> patchOutput \<Rightarrow> patchOutput" where
  "AddMAC indexMAC valueMAC out =
     out\<lparr>AddedMACs := AddedMACs out @ [\<lparr>mm_IndexMAC = indexMAC, mm_ValueMAC = valueMAC\<rparr>]\<rparr>"

text \<open>\<open>decodeMutation\<close> once the keys are known: index MAC, value MAC, index and action.\<close>

definition decode_content ::
  "crypto \<Rightarrow> sync_codec \<Rightarrow> ExpandedAppStateKeys \<Rightarrow> SyncdMutation \<Rightarrow> nat \<Rightarrow> bool \<Rightarrow>
   app_error + (bytes \<times> bytes \<times> string list \<times> SyncActionData)" where
  "decode_content c cd keys mutation i validateMACs =
     (let rec = sm_Record mutation; keyID = blob (sr_KeyID rec); content = sr_Value rec in
      rbind (last32 content) (\<lambda>valueMAC.
        let content = take (length content - 32) content in
        if validateMACs \<and> generateContentMAC c (sm_Operation mutation) content keyID (ek_ValueMAC keys) \<noteq> valueMAC
        then Inl (ErrMismatchingContentMAC (i + 1))
        else if length content < 16 then Inl SliceOutOfRange
        else
          (case cbc_Decrypt c (ek_ValueEncryption keys) (take 16 content) (drop 16 content) of
             Inl e \<Rightarrow> Inl (DecryptError (i + 1) e)
           | Inr plaintext \<Rightarrow>
               (case unmarshal_action cd plaintext of
                  None \<Rightarrow> Inl (UnmarshalMutation (i + 1))
                | Some syncAction \<Rightarrow>
                    (let indexMAC = sr_Index rec in
                     if validateMACs \<and> concatAndHMAC (hmac_sha256 c) (ek_Index keys) [sad_Index syncAction] \<noteq> indexMAC
                     then Inl (ErrMismatchingIndexMAC (i + 1))
                     else
                       (case unmarshal_index cd (sad_Index syncAction) of
                          None \<Rightarrow> Inl (UnmarshalIndex (i + 1))
                        | Some index \<Rightarrow> Inr (indexMAC, valueMAC, index, syncAction)))))))"

definition decodeMutation ::
  "crypto \<Rightarrow> sync_codec \<Rightarrow> SyncdMutation \<Rightarrow> nat \<Rightarrow> bool \<Rightarrow> (bytes \<times> bytes \<times> string list \<times> SyncActionData) proc_op" where
  "decodeMutation c cd mutation i validateMACs =
     sbind (getAppStateKey c (blob (sr_KeyID (sm_Record mutation)))) (\<lambda>keys.
       slift (decode_content c cd keys mutation i validateMACs))"

definition indexMACToArray :: "bytes \<Rightarrow> bytes" where
  "indexMACToArray indexMAC = (if length indexMAC \<noteq> 32 then replicate 32 0 else indexMAC)"

definition record_mutation ::
  "SyncdMutation \<Rightarrow> 64 word \<Rightarrow> (bytes \<rightharpoonup> bytes) \<Rightarrow> bytes \<times> bytes \<times> string list \<times> SyncActionData \<Rightarrow> patchOutput \<Rightarrow> patchOutput" where
  "record_mutation mutation patchVersion fakeIndexesToRemove dec out =
     (case dec of (indexMAC, valueMAC, index, syncAction) \<Rightarrow>
       (let out =
              (case sm_Operation mutation of
                 SyncdMutation_REMOVE \<Rightarrow>
                   (let out = RemoveMAC indexMAC out in
                    case fakeIndexesToRemove (indexMACToArray indexMAC) of
                      Some altIndexMAC \<Rightarrow> if length indexMAC = 32 then RemoveMAC altIndexMAC out else out
                    | None \<Rightarrow> out)
               | SyncdMutation_SET \<Rightarrow> AddMAC indexMAC valueMAC out)
        in out\<lparr>out_Mutations := out_Mutations out @
             [\<lparr>mu_KeyID = sr_KeyID (sm_Record mutation), mu_Operation = sm_Operation mutation,
               mu_Action = sad_Value syncAction, mu_Version = sad_Version syncAction, mu_Index = index,
               mu_IndexMAC = indexMAC, mu_ValueMAC = valueMAC, mu_PatchVersion = patchVersion\<rparr>]\<rparr>))"

fun decodeMutations_loop ::
  "crypto \<Rightarrow> sync_codec \<Rightarrow> nat \<Rightarrow> SyncdMutation list \<Rightarrow> bool \<Rightarrow> 64 word \<Rightarrow> (bytes \<rightharpoonup> bytes) \<Rightarrow> patchOutput \<Rightarrow> patchOutput proc_op" where
  "decodeMutations_loop c cd i [] validateMACs patchVersion fakes out = sret out"
| "decodeMutations_loop c cd i (mutation # ms) validateMACs patchVersion fakes out =
     sbind (decodeMutation c cd mutation i validateMACs) (\<lambda>dec.
       decodeMutations_loop c cd (Suc i) ms validateMACs patchVersion fakes (record_mutation mutation patchVersion fakes dec out))"

definition decodeMutations ::
  "crypto \<Rightarrow> sync_codec \<Rightarrow> SyncdMutation list \<Rightarrow> patchOutput \<Rightarrow> bool \<Rightarrow> 64 word \<Rightarrow> (bytes \<rightharpoonup> bytes) \<Rightarrow> patchOutput proc_op" where
  "decodeMutations c cd mutations out validateMACs patchVersion fakes =
     decodeMutations_loop c cd 0 mutations validateMACs patchVersion fakes out"

definition storeMACs :: "string \<Rightarrow> HashState \<Rightarrow> patchOutput \<Rightarrow> unit proc_op" where
  "storeMACs name currentState out =
     sbind (with_store (PutAppStateVersion name (hs_Version currentState) (hs_Hash currentState))) (\<lambda>_.
       sbind (with_store (DeleteAppStateMutationMACs name (RemovedMACs out))) (\<lambda>_.
         with_store (PutAppStateMutationMACs name (hs_Version currentState) (AddedMACs out))))"

definition validateSnapshotMAC ::
  "crypto \<Rightarrow> string \<Rightarrow> HashState \<Rightarrow> bytes \<Rightarrow> bytes \<Rightarrow> ExpandedAppStateKeys proc_op" where
  "validateSnapshotMAC c name currentState keyID expectedSnapshotMAC =
     sbind (getAppStateKey c keyID) (\<lambda>keys.
       if generateSnapshotMAC c name (ek_SnapshotMAC keys) currentState \<noteq> expectedSnapshotMAC
       then serr (ErrMismatchingLTHash (hs_Version currentState)) else sret keys)"

section \<open>Snapshots and patches\<close>

text \<open>The result of \<open>updateHash\<close> without its warnings, which are only logged.\<close>

definition update_hash :: "crypto \<Rightarrow> SyncdMutation list \<Rightarrow> Processor get_prev \<Rightarrow> HashState \<Rightarrow> HashState proc_op" where
  "update_hash c mutations getPrev hs proc =
     (case updateHash c mutations getPrev hs proc of ((warnings, r), proc) \<Rightarrow> (r, proc))"

definition no_output :: "Mutation list \<Rightarrow> patchOutput" where
  "no_output ms = \<lparr>RemovedMACs = [], AddedMACs = [], out_Mutations = ms\<rparr>"

definition set_mutations :: "SyncdRecord list \<Rightarrow> SyncdMutation list" where
  "set_mutations records = map (\<lambda>record. \<lparr>sm_Operation = SyncdMutation_SET, sm_Record = record\<rparr>) records"

definition decodeSnapshot ::
  "crypto \<Rightarrow> sync_codec \<Rightarrow> string \<Rightarrow> SyncdSnapshot \<Rightarrow> HashState \<Rightarrow> bool \<Rightarrow> Mutation list \<Rightarrow> (Mutation list \<times> HashState) proc_op" where
  "decodeSnapshot c cd name ss initialState validateMACs newMutationsInput =
     (let currentState = initialState\<lparr>hs_Version := ss_Version ss\<rparr>; encryptedMutations = set_mutations (ss_Records ss) in
      sbind (update_hash c encryptedMutations (\<lambda>indexMAC maxIndex. sret None) currentState) (\<lambda>currentState.
        sbind (if validateMACs
               then sbind (validateSnapshotMAC c name currentState (blob (ss_KeyID ss)) (ss_Mac ss)) (\<lambda>_. sret ())
               else sret ()) (\<lambda>_.
          sbind (decodeMutations c cd encryptedMutations (no_output newMutationsInput) validateMACs
                   (hs_Version currentState) Map.empty) (\<lambda>out.
            sbind (storeMACs name currentState out) (\<lambda>_. sret (out_Mutations out, currentState))))))"

text \<open>The previous value of an index within the patch, looking backwards; \<open>None\<close> when there is none.\<close>

fun prev_in_patch :: "SyncdMutation list \<Rightarrow> bytes \<Rightarrow> nat \<Rightarrow> (app_error + bytes option) option" where
  "prev_in_patch mutations indexMAC 0 = None"
| "prev_in_patch mutations indexMAC (Suc i) =
     (let m = mutations ! i in
      if sr_Index (sm_Record m) = indexMAC then
        (case sm_Operation m of
           SyncdMutation_SET \<Rightarrow> Some (rbind (last32 (sr_Value (sm_Record m))) (\<lambda>v. Inr (Some v)))
         | SyncdMutation_REMOVE \<Rightarrow> Some (Inr None))
      else prev_in_patch mutations indexMAC i)"

definition patch_prev :: "string \<Rightarrow> SyncdMutation list \<Rightarrow> Processor get_prev" where
  "patch_prev patchName mutations indexMAC maxIndex =
     (case prev_in_patch mutations indexMAC maxIndex of
        Some r \<Rightarrow> slift r
      | None \<Rightarrow> with_store (GetAppStateMutationMAC patchName indexMAC))"

definition validatePatch :: "crypto \<Rightarrow> string \<Rightarrow> SyncdPatch \<Rightarrow> HashState \<Rightarrow> bool \<Rightarrow> HashState proc_op" where
  "validatePatch c patchName patch currentState validateMACs =
     (let version = sp_Version patch; newState = currentState\<lparr>hs_Version := version\<rparr> in
      sbind (update_hash c (sp_Mutations patch) (patch_prev patchName (sp_Mutations patch)) newState) (\<lambda>newState.
        if validateMACs then
          sbind (validateSnapshotMAC c patchName newState (blob (sp_KeyID patch)) (sp_SnapshotMAC patch)) (\<lambda>keys.
            sbind (slift (generatePatchMAC c patch patchName (ek_PatchMAC keys) version)) (\<lambda>patchMAC.
              if patchMAC \<noteq> sp_PatchMAC patch then serr (ErrMismatchingPatchMAC version) else sret newState))
        else sret newState))"

definition decode_patch ::
  "crypto \<Rightarrow> sync_codec \<Rightarrow> string \<Rightarrow> bool \<Rightarrow> SyncdPatch \<Rightarrow> Mutation list \<times> HashState \<Rightarrow> (Mutation list \<times> HashState) proc_op" where
  "decode_patch c cd name validateMACs patch st =
     (case st of (newMutations, currentState) \<Rightarrow>
       sbind (validatePatch c name patch currentState validateMACs) (\<lambda>newState.
         sbind (decodeMutations c cd (sp_Mutations patch) (no_output newMutations) validateMACs
                  (hs_Version newState) Map.empty) (\<lambda>out.
           sbind (storeMACs name newState out) (\<lambda>_. sret (out_Mutations out, newState)))))"

fun decode_patches ::
  "crypto \<Rightarrow> sync_codec \<Rightarrow> string \<Rightarrow> bool \<Rightarrow> SyncdPatch list \<Rightarrow> Mutation list \<times> HashState \<Rightarrow> (Mutation list \<times> HashState) proc_op" where
  "decode_patches c cd name validateMACs [] st = sret st"
| "decode_patches c cd name validateMACs (patch # patches) st =
     sbind (decode_patch c cd name validateMACs patch st) (decode_patches c cd name validateMACs patches)"

definition DecodePatches ::
  "crypto \<Rightarrow> sync_codec \<Rightarrow> PatchList \<Rightarrow> HashState \<Rightarrow> bool \<Rightarrow> (Mutation list \<times> HashState) proc_op" where
  "DecodePatches c cd list initialState validateMACs =
     sbind (case pl_Snapshot list of
              None \<Rightarrow> sret ([], initialState)
            | Some ss \<Rightarrow> decodeSnapshot c cd (pl_Name list) ss initialState validateMACs [])
       (decode_patches c cd (pl_Name list) validateMACs (pl_Patches list))"

section \<open>Recovery\<close>

record recovery_record =
  rr_KeyID :: bytes
  rr_Index :: bytes
  rr_Value :: "SyncActionValue option"
  rr_Version :: int
  rr_Mac :: bytes

record SyncdSnapshotRecovery =
  sr_CollectionName :: string
  sr_Version :: "64 word"
  sr_CollectionLthash :: bytes
  sr_MutationRecords :: "recovery_record list"

text \<open>\<open>gunzip\<close> is opening the compressed stream and reading it to its end, as one step that may fail.\<close>

definition ParseRecovery ::
  "(bytes \<Rightarrow> bytes option) \<Rightarrow> (bytes \<Rightarrow> SyncdSnapshotRecovery option) \<Rightarrow> bytes \<Rightarrow> bool \<Rightarrow> app_error + SyncdSnapshotRecovery" where
  "ParseRecovery gunzip unmarshal collectionSnapshot isCompressed =
     rbind (if isCompressed then
              (case gunzip collectionSnapshot of None \<Rightarrow> Inl DecompressFailed | Some d \<Rightarrow> Inr d)
            else Inr collectionSnapshot)
       (\<lambda>d. case unmarshal d of None \<Rightarrow> Inl UnmarshalSnapshot | Some out \<Rightarrow> Inr out)"

fun recovery_records ::
  "crypto \<Rightarrow> sync_codec \<Rightarrow> 64 word \<Rightarrow> nat \<Rightarrow> recovery_record list \<Rightarrow> (AppStateMutationMAC \<times> Mutation) list proc_op" where
  "recovery_records c cd version i [] = sret []"
| "recovery_records c cd version i (mutation # ms) =
     sbind (getAppStateKey c (rr_KeyID mutation)) (\<lambda>keys.
       case unmarshal_index cd (rr_Index mutation) of
         None \<Rightarrow> serr (UnmarshalIndex (i + 1))
       | Some parsedIndex \<Rightarrow>
           (let mac = \<lparr>mm_IndexMAC = concatAndHMAC (hmac_sha256 c) (ek_Index keys) [rr_Index mutation],
                       mm_ValueMAC = rr_Mac mutation\<rparr>
            in sbind (recovery_records c cd version (Suc i) ms) (\<lambda>rest.
                 sret ((mac,
                   \<lparr>mu_KeyID = Some (rr_KeyID mutation), mu_Operation = SyncdMutation_SET, mu_Action = rr_Value mutation,
                    mu_Version = rr_Version mutation, mu_Index = parsedIndex, mu_IndexMAC = mm_IndexMAC mac,
                    mu_ValueMAC = mm_ValueMAC mac, mu_PatchVersion = version\<rparr>) # rest))))"

definition ProcessRecovery :: "crypto \<Rightarrow> sync_codec \<Rightarrow> SyncdSnapshotRecovery \<Rightarrow> Mutation list proc_op" where
  "ProcessRecovery c cd recovery =
     (if length (sr_CollectionLthash recovery) \<noteq> 128
      then serr (InvalidLTHashLength (length (sr_CollectionLthash recovery)))
      else
        (let name = sr_CollectionName recovery; version = sr_Version recovery in
         sbind (recovery_records c cd version 0 (sr_MutationRecords recovery)) (\<lambda>recs.
           sbind (with_store (DeleteAppStateVersion name)) (\<lambda>_.
             sbind (with_store (PutAppStateVersion name version (sr_CollectionLthash recovery))) (\<lambda>_.
               sbind (with_store (PutAppStateMutationMACs name version (map fst recs))) (\<lambda>_.
                 sret (map snd recs)))))))"

section \<open>What the operations keep\<close>

definition same_tables :: "app_db \<Rightarrow> app_db \<Rightarrow> bool" where
  "same_tables a b \<longleftrightarrow>
     sync_keys b = sync_keys a \<and> state_version b = state_version a \<and> mutation_macs b = mutation_macs a \<and>
     db_fails b = db_fails a"

lemma same_tables_refl [simp]: "same_tables a a"
  by (simp add: same_tables_def)

lemma same_tables_trans: "same_tables a b \<Longrightarrow> same_tables b d \<Longrightarrow> same_tables a d"
  by (simp add: same_tables_def)

lemma same_tables_tick [simp]: "same_tables a (tick b) = same_tables a b"
  by (simp add: same_tables_def)

lemma same_tables_views:
  assumes "same_tables a b"
  shows "current_mac b = current_mac a" "below b = below a" "db_ok b = db_ok a" "state_version b = state_version a"
    "sync_keys b = sync_keys a"
  using assms by (auto simp: same_tables_def current_mac_def below_def db_ok_def fun_eq_iff)

lemma with_store_Inr:
  "with_store op proc = (Inr x, proc') \<longleftrightarrow>
     (\<exists>db. op (proc_Store proc) = (Inr x, db) \<and> proc' = proc\<lparr>proc_Store := db\<rparr>)"
  by (auto simp: with_store_def split: prod.splits)

lemma with_query_keeps:
  "with_store (sql_query q) proc = (r, proc') \<Longrightarrow> same_tables (proc_Store proc) (proc_Store proc') \<and> keyCache proc' = keyCache proc"
  by (auto simp: with_store_def sql_query_def split: prod.splits)

text \<open>The key cache holds expansions of keys in the store.\<close>

definition key_of :: "crypto \<Rightarrow> app_db \<Rightarrow> bytes \<Rightarrow> ExpandedAppStateKeys \<Rightarrow> bool" where
  "key_of c db keyID keys \<longleftrightarrow>
     (\<exists>kd. map_of (sync_keys db) keyID = Some kd \<and> expandAppStateKeys c (sk_Data kd) = Inr keys)"

definition cache_ok :: "crypto \<Rightarrow> Processor \<Rightarrow> bool" where
  "cache_ok c proc \<longleftrightarrow>
     (\<forall>keyID keys. keyCache proc (RawStdEncoding keyID) = Some keys \<longrightarrow> key_of c (proc_Store proc) keyID keys)"

lemma key_of_same: "same_tables a b \<Longrightarrow> key_of c b = key_of c a"
  by (simp add: key_of_def same_tables_def fun_eq_iff)

lemma getAppStateKey_keeps:
  assumes "getAppStateKey c keyID proc = (r, proc')"
  shows "same_tables (proc_Store proc) (proc_Store proc')"
    and "cache_ok c proc \<Longrightarrow> cache_ok c proc'"
    and "cache_ok c proc \<Longrightarrow> r = Inr keys \<Longrightarrow> key_of c (proc_Store proc) keyID keys"
proof -
  have "same_tables (proc_Store proc) (proc_Store proc') \<and>
    (cache_ok c proc \<longrightarrow> cache_ok c proc' \<and> (\<forall>keys. r = Inr keys \<longrightarrow> key_of c (proc_Store proc) keyID keys))"
  proof (cases "keyCache proc (RawStdEncoding keyID)")
    case (Some keys)
    with assms show ?thesis by (auto simp: getAppStateKey_def cache_ok_def)
  next
    case None
    let ?db = "proc_Store proc"
    have get: "with_store (GetAppStateSyncKey keyID) proc =
        (if db_fails ?db (db_clock ?db) then Inl (StoreError DbFailed) else Inr (map_of (sync_keys ?db) keyID),
         proc\<lparr>proc_Store := tick ?db\<rparr>)"
      by (simp add: with_store_def GetAppStateSyncKey_def sql_query_def)
    show ?thesis
      using assms None
      by (auto simp: getAppStateKey_def sbind_def get cache_ok_def key_of_def RawStdEncoding_inj
          split: if_splits option.splits sum.splits)
  qed
  then show "same_tables (proc_Store proc) (proc_Store proc')" "cache_ok c proc \<Longrightarrow> cache_ok c proc'"
    "cache_ok c proc \<Longrightarrow> r = Inr keys \<Longrightarrow> key_of c (proc_Store proc) keyID keys" by blast+
qed

section \<open>What decoding a mutation gives\<close>

lemma decode_content_Inr:
  assumes "decode_content c cd keys m i validate = Inr (indexMAC, valueMAC, index, act)"
  shows "mut_op m = (indexMAC, case sm_Operation m of SyncdMutation_SET \<Rightarrow> Some valueMAC | SyncdMutation_REMOVE \<Rightarrow> None)"
    and "sad_Index act = ib \<Longrightarrow> unmarshal_index cd ib = Some index"
    and "validate \<Longrightarrow> indexMAC = concatAndHMAC (hmac_sha256 c) (ek_Index keys) [sad_Index act]"
    and "\<exists>iv e p. 32 \<le> length (sr_Value (sm_Record m)) \<and> sr_Value (sm_Record m) = (iv @ e) @ valueMAC \<and>
      length iv = 16 \<and> cbc_Decrypt c (ek_ValueEncryption keys) iv e = Inr p \<and> unmarshal_action cd p = Some act \<and>
      (validate \<longrightarrow> valueMAC = generateContentMAC c (sm_Operation m) (iv @ e) (blob (sr_KeyID (sm_Record m))) (ek_ValueMAC keys))"
proof -
  let ?v = "sr_Value (sm_Record m)"
  let ?content = "take (length ?v - 32) ?v"
  from assms obtain p where
    len: "32 \<le> length ?v" and mac: "valueMAC = drop (length ?v - 32) ?v" and idx: "indexMAC = sr_Index (sm_Record m)"
    and iv: "16 \<le> length ?content" and p: "cbc_Decrypt c (ek_ValueEncryption keys) (take 16 ?content) (drop 16 ?content) = Inr p"
    and act: "unmarshal_action cd p = Some act" and ui: "unmarshal_index cd (sad_Index act) = Some index"
    and vm: "validate \<longrightarrow> generateContentMAC c (sm_Operation m) ?content (blob (sr_KeyID (sm_Record m))) (ek_ValueMAC keys) = valueMAC"
    and im: "validate \<longrightarrow> concatAndHMAC (hmac_sha256 c) (ek_Index keys) [sad_Index act] = indexMAC"
    unfolding decode_content_def Let_def
    by (auto simp: rbind_eq_Inr last32_Inr not_less split: if_splits sum.splits option.splits)
  show "mut_op m = (indexMAC, case sm_Operation m of SyncdMutation_SET \<Rightarrow> Some valueMAC | SyncdMutation_REMOVE \<Rightarrow> None)"
    unfolding mut_op_def idx mac by (rule refl)
  show "sad_Index act = ib \<Longrightarrow> unmarshal_index cd ib = Some index" using ui by simp
  show "validate \<Longrightarrow> indexMAC = concatAndHMAC (hmac_sha256 c) (ek_Index keys) [sad_Index act]" using im by simp
  have vm': "validate \<longrightarrow> valueMAC = generateContentMAC c (sm_Operation m) (take 16 ?content @ drop 16 ?content)
      (blob (sr_KeyID (sm_Record m))) (ek_ValueMAC keys)"
    using vm unfolding append_take_drop_id by auto
  have "?v = (take 16 ?content @ drop 16 ?content) @ valueMAC" by (simp only: mac append_take_drop_id)
  moreover have "length (take 16 ?content) = 16" using iv by simp
  ultimately show "\<exists>iv e p. 32 \<le> length ?v \<and> ?v = (iv @ e) @ valueMAC \<and> length iv = 16 \<and>
      cbc_Decrypt c (ek_ValueEncryption keys) iv e = Inr p \<and> unmarshal_action cd p = Some act \<and>
      (validate \<longrightarrow> valueMAC = generateContentMAC c (sm_Operation m) (iv @ e) (blob (sr_KeyID (sm_Record m))) (ek_ValueMAC keys))"
    using len p act vm' by blast
qed

lemma decodeMutation_Inr:
  assumes "decodeMutation c cd m i validate proc = (Inr dec, proc')"
  obtains keys where "getAppStateKey c (blob (sr_KeyID (sm_Record m))) proc = (Inr keys, proc')"
    and "decode_content c cd keys m i validate = Inr dec"
  using assms by (auto simp: decodeMutation_def sbind_eq_Inr)

section \<open>The effect of the output on the table\<close>

definition mac_last :: "AppStateMutationMAC list \<Rightarrow> bytes \<rightharpoonup> bytes" where
  "mac_last ms = map_of (rev (map (\<lambda>m. (mm_IndexMAC m, mm_ValueMAC m)) ms))"

definition out_effect :: "(bytes \<rightharpoonup> bytes) \<Rightarrow> patchOutput \<Rightarrow> (bytes \<rightharpoonup> bytes)" where
  "out_effect t out = (\<lambda>i. if i \<in> set (RemovedMACs out) then None else t i) ++ mac_last (AddedMACs out)"

lemma mac_last_append: "mac_last (ms @ [m]) = (mac_last ms)(mm_IndexMAC m \<mapsto> mm_ValueMAC m)"
  by (simp add: mac_last_def)

lemma mac_last_filter: "mac_last (filter (\<lambda>m. mm_IndexMAC m \<noteq> k) ms) = (mac_last ms)(k := None)"
proof (induction ms rule: rev_induct)
  case (snoc m ms)
  then show ?case by (simp add: mac_last_append fun_eq_iff)
qed (simp add: mac_last_def)

lemma mac_last_distinct:
  assumes "distinct (map mm_IndexMAC ms)"
  shows "mac_last ms = mac_map ms"
proof -
  let ?kv = "map (\<lambda>m. (mm_IndexMAC m, mm_ValueMAC m)) ms"
  have "distinct (map fst ?kv)" using assms by (simp add: comp_def)
  moreover have "distinct (map fst (rev ?kv))" using calculation by (simp add: rev_map [symmetric])
  ultimately show ?thesis unfolding mac_last_def mac_map_def by (subst map_of_inject_set) simp_all
qed

lemma record_effect:
  assumes "mut_op m = (k, case sm_Operation m of SyncdMutation_SET \<Rightarrow> Some v | SyncdMutation_REMOVE \<Rightarrow> None)"
  shows "out_effect t (record_mutation m ver Map.empty (k, v, index, act) out) = (out_effect t out)(k := snd (mut_op m))"
proof (cases "sm_Operation m")
  case SyncdMutation_SET
  with assms show ?thesis
    by (simp add: record_mutation_def out_effect_def AddMAC_def mac_last_append)
next
  case SyncdMutation_REMOVE
  with assms show ?thesis
    by (auto simp: record_mutation_def out_effect_def RemoveMAC_def mac_last_filter Let_def fun_eq_iff map_add_def)
qed

lemma decodeMutations_effect:
  "decodeMutations_loop c cd i ms validate ver Map.empty out proc = (Inr out', proc') \<Longrightarrow>
   out_effect t out' = tab_apply (out_effect t out) (map mut_op ms) \<and>
   same_tables (proc_Store proc) (proc_Store proc') \<and> (cache_ok c proc \<longrightarrow> cache_ok c proc')"
proof (induction ms arbitrary: i out proc)
  case (Cons m ms)
  from Cons.prems obtain dec proc1 where
    d: "decodeMutation c cd m i validate proc = (Inr dec, proc1)"
    and r: "decodeMutations_loop c cd (Suc i) ms validate ver Map.empty (record_mutation m ver Map.empty dec out) proc1 = (Inr out', proc')"
    by (auto simp: sbind_eq_Inr)
  obtain k v index act where dec: "dec = (k, v, index, act)" by (cases dec) auto
  from d obtain keys where key: "getAppStateKey c (blob (sr_KeyID (sm_Record m))) proc = (Inr keys, proc1)"
    and content: "decode_content c cd keys m i validate = Inr (k, v, index, act)"
    unfolding dec by (rule decodeMutation_Inr)
  have op: "mut_op m = (k, case sm_Operation m of SyncdMutation_SET \<Rightarrow> Some v | SyncdMutation_REMOVE \<Rightarrow> None)"
    by (rule decode_content_Inr(1) [OF content])
  then have "tab_apply (out_effect t out) (map mut_op (m # ms)) =
      tab_apply (out_effect t (record_mutation m ver Map.empty dec out)) (map mut_op ms)"
    by (simp add: record_effect [OF op] dec)
  with Cons.IH [OF r] have "out_effect t out' = tab_apply (out_effect t out) (map mut_op (m # ms))" by simp
  moreover have "same_tables (proc_Store proc) (proc_Store proc')"
    using Cons.IH [OF r] getAppStateKey_keeps(1) [OF key] same_tables_trans by blast
  moreover have "cache_ok c proc \<longrightarrow> cache_ok c proc'" using Cons.IH [OF r] getAppStateKey_keeps(2) [OF key] by blast
  ultimately show ?case by blast
qed simp

section \<open>Verifying a patch\<close>

lemma cache_ok_same:
  "same_tables (proc_Store a) (proc_Store b) \<Longrightarrow> keyCache b = keyCache a \<Longrightarrow> cache_ok c b = cache_ok c a"
  by (simp add: cache_ok_def key_of_same)

lemma prev_in_patch_table:
  "i \<le> length ms \<Longrightarrow>
   (case prev_in_patch ms k i of
      None \<Rightarrow> tab_apply t (map mut_op (take i ms)) k = t k
    | Some r \<Rightarrow> \<forall>x. r = Inr x \<longrightarrow> x = tab_apply t (map mut_op (take i ms)) k)"
proof (induction i)
  case (Suc i)
  let ?m = "ms ! i"
  obtain v where op: "mut_op ?m = (sr_Index (sm_Record ?m), v)" by (simp add: mut_op_def)
  have step: "tab_apply t (map mut_op (take (Suc i) ms)) =
      (tab_apply t (map mut_op (take i ms)))(sr_Index (sm_Record ?m) := v)"
    using Suc.prems by (simp add: take_Suc_conv_app_nth tab_apply_append op)
  show ?case
  proof (cases "sr_Index (sm_Record ?m) = k")
    case True
    have "snd (mut_op ?m) = v" by (simp add: op)
    with True step show ?thesis
      by (cases "sm_Operation ?m") (auto simp: Let_def rbind_eq_Inr last32_Inr mut_op_def)
  next
    case False
    with Suc step show ?thesis by (auto simp: Let_def split: option.splits)
  qed
qed simp

definition unchanged :: "Processor \<Rightarrow> Processor \<Rightarrow> bool" where
  "unchanged a b \<longleftrightarrow> same_tables (proc_Store a) (proc_Store b) \<and> keyCache b = keyCache a"

lemma patch_prev_answers:
  "answers (patch_prev name ms) (unchanged p) (current_mac (proc_Store p) name) ms"
  unfolding answers_def
proof (intro allI impI)
  fix i s r s'
  let ?k = "sr_Index (sm_Record (ms ! i))"
  assume i: "i < length ms" and s: "unchanged p s" and get: "patch_prev name ms ?k i s = (Inr r, s')"
  note table = prev_in_patch_table [OF less_imp_le [OF i], where k = ?k and t = "current_mac (proc_Store p) name"]
  show "r = tab_apply (current_mac (proc_Store p) name) (map mut_op (take i ms)) ?k \<and> unchanged p s'"
  proof (cases "prev_in_patch ms ?k i")
    case None
    with get obtain db where db: "GetAppStateMutationMAC name ?k (proc_Store s) = (Inr r, db)" "s' = s\<lparr>proc_Store := db\<rparr>"
      by (auto simp: patch_prev_def with_store_Inr)
    then have "r = current_mac (proc_Store s) name ?k" "db = tick (proc_Store s)"
      by (simp_all add: GetAppStateMutationMAC_def sql_query_Inr)
    moreover have "current_mac (proc_Store s) = current_mac (proc_Store p)"
      using s same_tables_views(1) unfolding unchanged_def by blast
    ultimately show ?thesis using None table s db by (simp add: unchanged_def)
  next
    case (Some q)
    with get table s show ?thesis by (auto simp: patch_prev_def)
  qed
qed

lemma getAppStateKey_unchanged:
  "getAppStateKey c k proc = (r, proc') \<Longrightarrow> same_tables (proc_Store p) (proc_Store proc) \<Longrightarrow>
   same_tables (proc_Store p) (proc_Store proc')"
  using getAppStateKey_keeps(1) same_tables_trans by blast

lemma update_hash_table:
  assumes "answers getPrev (unchanged p) (current_mac (proc_Store p) name) ms" and "hkdf_correct c"
    and "hs_Hash hs = lt_digest c (entries (current_mac (proc_Store p) name))"
    and "update_hash c ms getPrev hs p = (Inr hs', p')"
  shows "hs' = hs\<lparr>hs_Hash := lt_digest c (entries (tab_apply (current_mac (proc_Store p) name) (map mut_op ms)))\<rparr>"
    and "unchanged p p'"
proof -
  from assms(4) obtain w where u: "updateHash c ms getPrev hs p = ((w, Inr hs'), p')"
    by (auto simp: update_hash_def split: prod.splits)
  have p: "unchanged p p" by (simp add: unchanged_def)
  show "hs' = hs\<lparr>hs_Hash := lt_digest c (entries (tab_apply (current_mac (proc_Store p) name) (map mut_op ms)))\<rparr>"
    and "unchanged p p'"
    using updateHash_table(1, 2) [OF assms(1) p finite_current_mac assms(2, 3) u] by blast+
qed

definition macs_valid :: "crypto \<Rightarrow> app_db \<Rightarrow> string \<Rightarrow> SyncdPatch \<Rightarrow> HashState \<Rightarrow> bool" where
  "macs_valid c db name patch hs \<longleftrightarrow>
     (\<exists>keys. key_of c db (blob (sp_KeyID patch)) keys \<and>
        generateSnapshotMAC c name (ek_SnapshotMAC keys) hs = sp_SnapshotMAC patch \<and>
        generatePatchMAC c patch name (ek_PatchMAC keys) (sp_Version patch) = Inr (sp_PatchMAC patch))"

lemma validatePatch_table:
  assumes "hkdf_correct c" and "hs_Hash hs = lt_digest c (entries (current_mac (proc_Store p) name))"
    and "validatePatch c name patch hs validate p = (Inr hs', p')"
  shows "hs' = \<lparr>hs_Version = sp_Version patch,
      hs_Hash = lt_digest c (entries (tab_apply (current_mac (proc_Store p) name) (map mut_op (sp_Mutations patch))))\<rparr>"
    and "same_tables (proc_Store p) (proc_Store p')" and "cache_ok c p \<Longrightarrow> cache_ok c p'"
    and "cache_ok c p \<Longrightarrow> validate \<Longrightarrow> macs_valid c (proc_Store p) name patch hs'"
proof -
  let ?hs = "hs\<lparr>hs_Version := sp_Version patch\<rparr>"
  from assms(3) obtain p1 where
    u: "update_hash c (sp_Mutations patch) (patch_prev name (sp_Mutations patch)) ?hs p = (Inr hs', p1)"
    by (auto simp: validatePatch_def Let_def sbind_eq_Inr split: if_splits)
  have h: "hs_Hash ?hs = lt_digest c (entries (current_mac (proc_Store p) name))" using assms(2) by simp
  note tab = update_hash_table [OF patch_prev_answers assms(1) h u]
  then show "hs' = \<lparr>hs_Version = sp_Version patch,
      hs_Hash = lt_digest c (entries (tab_apply (current_mac (proc_Store p) name) (map mut_op (sp_Mutations patch))))\<rparr>"
    by (cases hs) simp
  have p1: "same_tables (proc_Store p) (proc_Store p1)" "cache_ok c p1 = cache_ok c p"
    using tab(2) cache_ok_same by (auto simp: unchanged_def)
  show "same_tables (proc_Store p) (proc_Store p')" and "cache_ok c p \<Longrightarrow> cache_ok c p'"
    and "cache_ok c p \<Longrightarrow> validate \<Longrightarrow> macs_valid c (proc_Store p) name patch hs'"
  proof -
    have "same_tables (proc_Store p) (proc_Store p') \<and> (cache_ok c p \<longrightarrow> cache_ok c p') \<and>
      (cache_ok c p \<and> validate \<longrightarrow> macs_valid c (proc_Store p) name patch hs')"
    proof (cases validate)
      case False
      with assms(3) u p1 show ?thesis by (auto simp: validatePatch_def Let_def)
    next
      case True
      with assms(3) u obtain keys where
        key: "getAppStateKey c (blob (sp_KeyID patch)) p1 = (Inr keys, p')"
        and mac: "generateSnapshotMAC c name (ek_SnapshotMAC keys) hs' = sp_SnapshotMAC patch"
          "generatePatchMAC c patch name (ek_PatchMAC keys) (sp_Version patch) = Inr (sp_PatchMAC patch)"
        by (auto simp: validatePatch_def validateSnapshotMAC_def Let_def sbind_eq_Inr split: if_splits)
      have "cache_ok c p \<longrightarrow> key_of c (proc_Store p) (blob (sp_KeyID patch)) keys"
        using getAppStateKey_keeps(3) [OF key _ refl] p1 key_of_same [OF p1(1)] by auto
      then show ?thesis
        using getAppStateKey_keeps(1, 2) [OF key] p1 mac unfolding macs_valid_def by (blast intro: same_tables_trans)
    qed
    then show "same_tables (proc_Store p) (proc_Store p')" "cache_ok c p \<Longrightarrow> cache_ok c p'"
      "cache_ok c p \<Longrightarrow> validate \<Longrightarrow> macs_valid c (proc_Store p) name patch hs'" by blast+
  qed
qed

section \<open>Saving\<close>

lemma PutVersion_keys: "PutAppStateVersion n v h db = (r, db') \<Longrightarrow> sync_keys db' = sync_keys db"
  by (auto simp: PutAppStateVersion_def sql_exec_def split: if_splits)

lemma DeleteMACs_keys: "DeleteAppStateMutationMACs n ms db = (r, db') \<Longrightarrow> sync_keys db' = sync_keys db"
  by (auto simp: DeleteAppStateMutationMACs_def sql_exec_def split: if_splits)

lemma storeMACs_effect:
  assumes "storeMACs name hs out p = (Inr u, p')" and "db_ok (proc_Store p)" and "below (proc_Store p) name (hs_Version hs)"
  shows "state_version (proc_Store p') = (state_version (proc_Store p))(name \<mapsto> (hs_Version hs, hs_Hash hs))"
    and "current_mac (proc_Store p') name = out_effect (current_mac (proc_Store p) name) out"
    and "n \<noteq> name \<Longrightarrow> current_mac (proc_Store p') n = current_mac (proc_Store p) n"
    and "hs_Version hs < v \<Longrightarrow> below (proc_Store p') name v" and "db_ok (proc_Store p')"
    and "distinct (map mm_IndexMAC (AddedMACs out))" and "cache_ok c p = cache_ok c p'"
    and "sync_keys (proc_Store p') = sync_keys (proc_Store p)"
proof -
  from assms(1) obtain db1 db2 db3 where
    1: "PutAppStateVersion name (hs_Version hs) (hs_Hash hs) (proc_Store p) = (Inr (), db1)"
    and 2: "DeleteAppStateMutationMACs name (RemovedMACs out) db1 = (Inr (), db2)"
    and 3: "PutAppStateMutationMACs name (hs_Version hs) (AddedMACs out) db2 = (Inr (), db3)"
    and p': "p' = p\<lparr>proc_Store := db3\<rparr>"
    by (auto simp: storeMACs_def sbind_eq_Inr with_store_Inr)
  note st = app_store.store_patch [OF 1 2 3 assms(2, 3)]
  show "state_version (proc_Store p') = (state_version (proc_Store p))(name \<mapsto> (hs_Version hs, hs_Hash hs))"
    "n \<noteq> name \<Longrightarrow> current_mac (proc_Store p') n = current_mac (proc_Store p) n"
    "hs_Version hs < v \<Longrightarrow> below (proc_Store p') name v" "db_ok (proc_Store p')"
    "distinct (map mm_IndexMAC (AddedMACs out))"
    using st by (simp_all add: p')
  show "current_mac (proc_Store p') name = out_effect (current_mac (proc_Store p) name) out"
    using st(2) by (simp add: p' out_effect_def mac_last_distinct [OF st(6)])
  have "db_ok db2"
    using app_store.delete_law [OF 2] app_store.putVersion_law [OF 1 assms(2)] by blast
  then have "unique_rows (mutation_macs db2)" by (simp add: db_ok_def)
  then show keys: "sync_keys (proc_Store p') = sync_keys (proc_Store p)"
    using PutVersion_keys [OF 1] DeleteMACs_keys [OF 2] PutMACs_Inr(4) [OF 3] by (simp add: p')
  then show "cache_ok c p = cache_ok c p'"
    by (simp add: cache_ok_def key_of_def p')
qed

section \<open>The saved hash is the hash of the saved MACs\<close>

definition synced :: "crypto \<Rightarrow> app_db \<Rightarrow> string \<Rightarrow> HashState \<Rightarrow> bool" where
  "synced c db name hs \<longleftrightarrow>
     db_ok db \<and> hs_Hash hs = lt_digest c (entries (current_mac db name)) \<and>
     (\<forall>v. hs_Version hs < v \<longrightarrow> below db name v)"

lemma synced_same: "same_tables a b \<Longrightarrow> synced c b name hs = synced c a name hs"
  by (simp add: synced_def same_tables_views)

lemma out_effect_no_output [simp]: "out_effect t (no_output ms) = t"
  by (simp add: out_effect_def no_output_def mac_last_def)

text \<open>Saving what a verified list of mutations decodes to, from any table the hash was computed for.\<close>

lemma save_synced:
  assumes "synced c (proc_Store p) name hs" and "hs_Version hs < hs_Version hs'"
    and "hs_Hash hs' = lt_digest c (entries (tab_apply (current_mac (proc_Store p) name) (map mut_op ms)))"
    and dec: "decodeMutations c cd ms (no_output acc) validate (hs_Version hs') Map.empty p = (Inr out, p1)"
    and st: "storeMACs name hs' out p1 = (Inr u, p2)"
  shows "synced c (proc_Store p2) name hs'"
    and "state_version (proc_Store p2) name = Some (hs_Version hs', hs_Hash hs')"
    and "cache_ok c p \<Longrightarrow> cache_ok c p2" and "sync_keys (proc_Store p2) = sync_keys (proc_Store p)"
proof -
  have d: "out_effect (current_mac (proc_Store p) name) out = tab_apply (current_mac (proc_Store p) name) (map mut_op ms)"
    "same_tables (proc_Store p) (proc_Store p1)" "cache_ok c p \<longrightarrow> cache_ok c p1"
    using decodeMutations_effect [OF dec [unfolded decodeMutations_def], of "current_mac (proc_Store p) name"] by simp_all
  have p1: "db_ok (proc_Store p1)" "below (proc_Store p1) name (hs_Version hs')" "current_mac (proc_Store p1) = current_mac (proc_Store p)"
    using assms(1, 2) same_tables_views [OF d(2)] by (simp_all add: synced_def)
  note eff = storeMACs_effect [OF st p1(1, 2)]
  show "synced c (proc_Store p2) name hs'"
    using eff(2, 4, 5) assms(3) d(1) by (simp add: synced_def p1(3))
  show "state_version (proc_Store p2) name = Some (hs_Version hs', hs_Hash hs')" using eff(1) by simp
  show "cache_ok c p \<Longrightarrow> cache_ok c p2" using d(3) eff(7) by blast
  show "sync_keys (proc_Store p2) = sync_keys (proc_Store p)" using eff(8) same_tables_views(5) [OF d(2)] by simp
qed

lemma decode_patch_synced:
  assumes "hkdf_correct c" and "synced c (proc_Store p) name hs" and "hs_Version hs < sp_Version patch"
    and "decode_patch c cd name validate patch (ms, hs) p = (Inr (ms', hs'), p')"
  shows "synced c (proc_Store p') name hs'" and "hs_Version hs' = sp_Version patch"
    and "state_version (proc_Store p') name = Some (hs_Version hs', hs_Hash hs')"
    and "cache_ok c p \<Longrightarrow> cache_ok c p'" and "sync_keys (proc_Store p') = sync_keys (proc_Store p)"
    and "cache_ok c p \<Longrightarrow> validate \<Longrightarrow> macs_valid c (proc_Store p) name patch hs'"
proof -
  from assms(4) obtain out p1 p2 where
    v: "validatePatch c name patch hs validate p = (Inr hs', p1)"
    and d: "decodeMutations c cd (sp_Mutations patch) (no_output ms) validate (hs_Version hs') Map.empty p1 = (Inr out, p2)"
    and s: "storeMACs name hs' out p2 = (Inr (), p')"
    by (auto simp: decode_patch_def sbind_eq_Inr)
  have h: "hs_Hash hs = lt_digest c (entries (current_mac (proc_Store p) name))" using assms(2) by (simp add: synced_def)
  note val = validatePatch_table [OF assms(1) h v]
  have cm: "current_mac (proc_Store p1) = current_mac (proc_Store p)" using same_tables_views(1) [OF val(2)] .
  have sync1: "synced c (proc_Store p1) name hs" using assms(2) synced_same [OF val(2)] by simp
  have lt: "hs_Version hs < hs_Version hs'" using assms(3) val(1) by simp
  have hash: "hs_Hash hs' = lt_digest c (entries (tab_apply (current_mac (proc_Store p1) name) (map mut_op (sp_Mutations patch))))"
    using val(1) by (simp add: cm)
  note saved = save_synced [OF sync1 lt hash d s]
  show "synced c (proc_Store p') name hs'" "state_version (proc_Store p') name = Some (hs_Version hs', hs_Hash hs')"
    using saved by blast+
  show "hs_Version hs' = sp_Version patch" using val(1) by simp
  show "cache_ok c p \<Longrightarrow> cache_ok c p'" using saved(3) val(3) by blast
  show "sync_keys (proc_Store p') = sync_keys (proc_Store p)" using saved(4) same_tables_views(5) [OF val(2)] by simp
  show "cache_ok c p \<Longrightarrow> validate \<Longrightarrow> macs_valid c (proc_Store p) name patch hs'" by (rule val(4))
qed

lemma macs_valid_keys: "sync_keys a = sync_keys b \<Longrightarrow> macs_valid c a = macs_valid c b"
  by (simp add: macs_valid_def key_of_def fun_eq_iff)

lemma decode_patches_synced:
  assumes "hkdf_correct c"
  shows "synced c (proc_Store p) name hs \<Longrightarrow> sorted_wrt (<) (hs_Version hs # map sp_Version patches) \<Longrightarrow>
     decode_patches c cd name validate patches (ms, hs) p = (Inr (ms', hs'), p') \<Longrightarrow>
     synced c (proc_Store p') name hs' \<and>
     (patches \<noteq> [] \<longrightarrow> state_version (proc_Store p') name = Some (hs_Version hs', hs_Hash hs')) \<and>
     (patches = [] \<longrightarrow> p' = p \<and> hs' = hs) \<and>
     (cache_ok c p \<longrightarrow> cache_ok c p') \<and> sync_keys (proc_Store p') = sync_keys (proc_Store p) \<and>
     (cache_ok c p \<and> validate \<and> patches \<noteq> [] \<longrightarrow> macs_valid c (proc_Store p') name (last patches) hs')"
proof (induction patches arbitrary: ms hs p)
  case (Cons patch patches)
  from Cons.prems(3) obtain ms1 hs1 p1 where
    one: "decode_patch c cd name validate patch (ms, hs) p = (Inr (ms1, hs1), p1)"
    and rest: "decode_patches c cd name validate patches (ms1, hs1) p1 = (Inr (ms', hs'), p')"
    by (auto simp: sbind_eq_Inr)
  have lt: "hs_Version hs < sp_Version patch" using Cons.prems(2) by simp
  note step = decode_patch_synced [OF assms Cons.prems(1) lt one]
  have "sorted_wrt (<) (hs_Version hs1 # map sp_Version patches)" using Cons.prems(2) by (simp add: step(2))
  note IH = Cons.IH [OF step(1) this rest]
  show ?case
  proof (cases "patches = []")
    case True
    with IH step macs_valid_keys [OF step(5)] show ?thesis by auto
  next
    case False
    with IH step show ?thesis by auto
  qed
qed simp

lemma tab_apply_other: "k \<notin> fst ` set ops \<Longrightarrow> tab_apply t ops k = t k"
  by (induction ops arbitrary: t) auto

lemma fst_mut_op [simp]: "fst (mut_op m) = sr_Index (sm_Record m)"
  by (simp add: mut_op_def)

lemma decodeMutations_added:
  "decodeMutations_loop c cd i ms validate ver Map.empty out proc = (Inr out', proc') \<Longrightarrow>
   \<forall>m \<in> set ms. sm_Operation m = SyncdMutation_SET \<Longrightarrow>
   map mm_IndexMAC (AddedMACs out') = map mm_IndexMAC (AddedMACs out) @ map (\<lambda>m. sr_Index (sm_Record m)) ms"
proof (induction ms arbitrary: i out proc)
  case (Cons m ms)
  from Cons.prems(1) obtain dec proc1 where
    d: "decodeMutation c cd m i validate proc = (Inr dec, proc1)"
    and r: "decodeMutations_loop c cd (Suc i) ms validate ver Map.empty (record_mutation m ver Map.empty dec out) proc1 = (Inr out', proc')"
    by (auto simp: sbind_eq_Inr)
  obtain k v index act where dec: "dec = (k, v, index, act)" by (cases dec) auto
  from d obtain keys where "decode_content c cd keys m i validate = Inr (k, v, index, act)"
    unfolding dec by (rule decodeMutation_Inr)
  from decode_content_Inr(1) [OF this] have "k = sr_Index (sm_Record m)" by (simp add: mut_op_def)
  then have "map mm_IndexMAC (AddedMACs (record_mutation m ver Map.empty dec out)) =
      map mm_IndexMAC (AddedMACs out) @ [sr_Index (sm_Record m)]"
    using Cons.prems(2) by (simp add: record_mutation_def dec AddMAC_def)
  with Cons.IH [OF r] Cons.prems(2) show ?case by simp
qed simp

lemma no_prev_answers:
  assumes "distinct (map (\<lambda>m. sr_Index (sm_Record m)) ms)"
  shows "answers (\<lambda>indexMAC maxIndex. sret None) (unchanged p) Map.empty ms"
  unfolding answers_def
proof (intro allI impI)
  fix i s r and s' :: Processor
  let ?k = "sr_Index (sm_Record (ms ! i))"
  assume i: "i < length ms" and s: "unchanged p s" and get: "sret None s = (Inr (r :: bytes option) :: app_error + bytes option, s')"
  have "?k \<notin> (\<lambda>m. sr_Index (sm_Record m)) ` set (take i ms)"
    using assms i by (auto simp: in_set_conv_nth distinct_conv_nth)
  then have "tab_apply Map.empty (map mut_op (take i ms)) ?k = None"
    by (subst tab_apply_other) (auto simp: image_image)
  with get s show "r = tab_apply Map.empty (map mut_op (take i ms)) ?k \<and> unchanged p s'" by simp
qed

lemma decodeSnapshot_synced:
  assumes "hkdf_correct c" and "synced c (proc_Store p) name hs" and "current_mac (proc_Store p) name = Map.empty"
    and "hs_Version hs < ss_Version ss"
    and "decodeSnapshot c cd name ss hs validate acc p = (Inr (ms', hs'), p')"
  shows "synced c (proc_Store p') name hs'" and "hs_Version hs' = ss_Version ss"
    and "state_version (proc_Store p') name = Some (hs_Version hs', hs_Hash hs')"
    and "cache_ok c p \<Longrightarrow> cache_ok c p'" and "sync_keys (proc_Store p') = sync_keys (proc_Store p)"
proof -
  let ?ms = "set_mutations (ss_Records ss)" and ?hs = "hs\<lparr>hs_Version := ss_Version ss\<rparr>"
  let ?check = "if validate then sbind (validateSnapshotMAC c name hs' (blob (ss_KeyID ss)) (ss_Mac ss)) (\<lambda>_. sret ()) else sret ()"
  from assms(5) obtain p1 p2 p3 out where
    u: "update_hash c ?ms (\<lambda>indexMAC maxIndex. sret None) ?hs p = (Inr hs', p1)"
    and v: "?check p1 = (Inr (), p2)"
    and d: "decodeMutations c cd ?ms (no_output acc) validate (hs_Version hs') Map.empty p2 = (Inr out, p3)"
    and st: "storeMACs name hs' out p3 = (Inr (), p')"
    unfolding decodeSnapshot_def Let_def sbind_eq_Inr by (auto simp: sbind_eq_Inr)
  have loop_keeps: "snd (updateHash_loop (\<lambda>indexMAC maxIndex. sret None) i ms acc q) = q" for i ms acc and q :: Processor
    by (induction ms arbitrary: i acc) (auto simp: Let_def split: sum.splits)
  from u have p1: "p1 = p" and ver: "hs_Version hs' = ss_Version ss"
    using loop_keeps [of 0 ?ms "([], [], [])" p]
    by (auto simp: update_hash_def updateHash_def rbind_eq_Inr split: prod.splits)
  have chk: "same_tables (proc_Store p) (proc_Store p2)" "cache_ok c p \<Longrightarrow> cache_ok c p2"
    using v getAppStateKey_keeps(1, 2) unfolding p1
    by (auto simp: validateSnapshotMAC_def sbind_eq_Inr split: if_splits)
  have d2: "same_tables (proc_Store p2) (proc_Store p3)"
    using decodeMutations_effect [OF d [unfolded decodeMutations_def]] by blast
  have v3: "db_ok (proc_Store p3)" "below (proc_Store p3) name (hs_Version hs')"
    using assms(2, 4) same_tables_views [OF same_tables_trans [OF chk(1) d2]] by (simp_all add: synced_def ver)
  have "distinct (map (\<lambda>m. sr_Index (sm_Record m)) ?ms)"
    using storeMACs_effect(6) [OF st v3] decodeMutations_added [OF d [unfolded decodeMutations_def]]
    by (simp add: set_mutations_def no_output_def)
  then have ans: "answers (\<lambda>indexMAC maxIndex. sret None) (unchanged p) (current_mac (proc_Store p) name) ?ms"
    unfolding assms(3) by (rule no_prev_answers)
  have h: "hs_Hash ?hs = lt_digest c (entries (current_mac (proc_Store p) name))" using assms(2) by (simp add: synced_def)
  note tab = update_hash_table(1) [OF ans assms(1) h u]
  have cm: "current_mac (proc_Store p2) = current_mac (proc_Store p)" using same_tables_views(1) [OF chk(1)] .
  have sync2: "synced c (proc_Store p2) name hs" using assms(2) synced_same [OF chk(1)] by simp
  have lt: "hs_Version hs < hs_Version hs'" using assms(4) ver by simp
  have hash: "hs_Hash hs' = lt_digest c (entries (tab_apply (current_mac (proc_Store p2) name) (map mut_op ?ms)))"
    using tab by (simp add: cm)
  note saved = save_synced [OF sync2 lt hash d st]
  show "synced c (proc_Store p') name hs'" "state_version (proc_Store p') name = Some (hs_Version hs', hs_Hash hs')"
    using saved by blast+
  show "hs_Version hs' = ss_Version ss" by (rule ver)
  show "cache_ok c p \<Longrightarrow> cache_ok c p'" using saved(3) chk(2) by blast
  show "sync_keys (proc_Store p') = sync_keys (proc_Store p)" using saved(4) same_tables_views(5) [OF chk(1)] by simp
qed

definition list_versions :: "PatchList \<Rightarrow> 64 word list" where
  "list_versions list =
     (case pl_Snapshot list of None \<Rightarrow> [] | Some ss \<Rightarrow> [ss_Version ss]) @ map sp_Version (pl_Patches list)"

lemma DecodePatches_run:
  assumes "hkdf_correct c" and "synced c (proc_Store p) (pl_Name list) hs"
    and "pl_Snapshot list = None \<or> current_mac (proc_Store p) (pl_Name list) = Map.empty"
    and "sorted_wrt (<) (hs_Version hs # list_versions list)"
    and "DecodePatches c cd list hs validate p = (Inr (ms, hs'), p')"
  shows "synced c (proc_Store p') (pl_Name list) hs'"
    and "list_versions list \<noteq> [] \<Longrightarrow> state_version (proc_Store p') (pl_Name list) = Some (hs_Version hs', hs_Hash hs')"
    and "cache_ok c p \<Longrightarrow> cache_ok c p'" and "sync_keys (proc_Store p') = sync_keys (proc_Store p)"
    and "cache_ok c p \<Longrightarrow> validate \<Longrightarrow> pl_Patches list \<noteq> [] \<Longrightarrow>
      macs_valid c (proc_Store p') (pl_Name list) (last (pl_Patches list)) hs'"
proof -
  let ?n = "pl_Name list"
  have "synced c (proc_Store p') ?n hs' \<and>
    (list_versions list \<noteq> [] \<longrightarrow> state_version (proc_Store p') ?n = Some (hs_Version hs', hs_Hash hs')) \<and>
    (cache_ok c p \<longrightarrow> cache_ok c p') \<and> sync_keys (proc_Store p') = sync_keys (proc_Store p) \<and>
    (cache_ok c p \<and> validate \<and> pl_Patches list \<noteq> [] \<longrightarrow> macs_valid c (proc_Store p') ?n (last (pl_Patches list)) hs')"
  proof (cases "pl_Snapshot list")
    case None
    with assms(5) have "decode_patches c cd ?n validate (pl_Patches list) ([], hs) p = (Inr (ms, hs'), p')"
      by (simp add: DecodePatches_def)
    from decode_patches_synced [OF assms(1, 2) _ this] assms(4) show ?thesis
      by (simp add: list_versions_def None)
  next
    case (Some ss)
    with assms(5) obtain ms1 hs1 p1 where
      one: "decodeSnapshot c cd ?n ss hs validate [] p = (Inr (ms1, hs1), p1)"
      and rest: "decode_patches c cd ?n validate (pl_Patches list) (ms1, hs1) p1 = (Inr (ms, hs'), p')"
      by (auto simp: DecodePatches_def sbind_eq_Inr)
    have empty: "current_mac (proc_Store p) ?n = Map.empty" and lt: "hs_Version hs < ss_Version ss"
      using assms(3, 4) Some by (simp_all add: list_versions_def)
    note snap = decodeSnapshot_synced [OF assms(1, 2) empty lt one]
    have "sorted_wrt (<) (hs_Version hs1 # map sp_Version (pl_Patches list))"
      using assms(4) Some by (simp add: list_versions_def snap(2))
    from decode_patches_synced [OF assms(1) snap(1) this rest] snap show ?thesis by (cases "pl_Patches list = []") auto
  qed
  then show "synced c (proc_Store p') ?n hs'"
    "list_versions list \<noteq> [] \<Longrightarrow> state_version (proc_Store p') ?n = Some (hs_Version hs', hs_Hash hs')"
    "cache_ok c p \<Longrightarrow> cache_ok c p'" "sync_keys (proc_Store p') = sync_keys (proc_Store p)"
    "cache_ok c p \<Longrightarrow> validate \<Longrightarrow> pl_Patches list \<noteq> [] \<Longrightarrow> macs_valid c (proc_Store p') ?n (last (pl_Patches list)) hs'"
    by blast+
qed

end
