(* ===== verification/AppEncode.thy ===== *)
theory AppEncode
  imports AppDecode
begin

text \<open>
  \<open>src/appstate/encode.go\<close>: the builders of app state patches and their encoding. The clock is a
  parameter in nanoseconds, and the random initialization vector of each mutation is one. Shown: a
  patch that was encoded is accepted by the decoder and gives back what was put in, provided no two
  of its mutations have the same index, and the builders never produce such patches.
\<close>

section \<open>Builders\<close>

record MutationInfo =
  mi_Index :: "string list"
  mi_Version :: int
  mi_Value :: SyncActionValue

record PatchInfo =
  pi_Timestamp :: gotime
  pi_Type :: string
  pi_Mutations :: "MutationInfo list"

definition WAPatchCriticalBlock :: string where "WAPatchCriticalBlock = ''critical_block''"
definition WAPatchCriticalUnblockLow :: string where "WAPatchCriticalUnblockLow = ''critical_unblock_low''"
definition WAPatchRegularLow :: string where "WAPatchRegularLow = ''regular_low''"
definition WAPatchRegularHigh :: string where "WAPatchRegularHigh = ''regular_high''"
definition WAPatchRegular :: string where "WAPatchRegular = ''regular''"

definition AllPatchNames :: "string list" where
  "AllPatchNames =
     [WAPatchCriticalBlock, WAPatchCriticalUnblockLow, WAPatchRegularHigh, WAPatchRegular, WAPatchRegularLow]"

text \<open>\<open>time.Time\<close>: the zero time is the first of January of year 1.\<close>

definition time_millis :: "gotime \<Rightarrow> int" where
  "time_millis t = (case t of ZeroTime \<Rightarrow> -62135596800000 | UnixSeconds s \<Rightarrow> s * 1000 | UnixMillis ms \<Rightarrow> ms)"

definition time_IsZero :: "gotime \<Rightarrow> bool" where
  "time_IsZero t \<longleftrightarrow> time_millis t = time_millis ZeroTime"

definition time_seconds :: "gotime \<Rightarrow> int" where
  "time_seconds t = time_millis t div 1000"

definition patch_info :: "string \<Rightarrow> MutationInfo list \<Rightarrow> PatchInfo" where
  "patch_info ty ms = \<lparr>pi_Timestamp = ZeroTime, pi_Type = ty, pi_Mutations = ms\<rparr>"

definition BuildMuteAbs :: "JID \<Rightarrow> bool \<Rightarrow> int option \<Rightarrow> PatchInfo" where
  "BuildMuteAbs target mute muteEndTimestamp =
     (let muteEndTimestamp = (if muteEndTimestamp = None \<and> mute then Some (-1) else muteEndTimestamp) in
      patch_info WAPatchRegularHigh
        [\<lparr>mi_Index = [''mute'', JID_String target], mi_Version = 2,
          mi_Value = no_action\<lparr>MuteAction := Some (Some mute, muteEndTimestamp)\<rparr>\<rparr>])"

definition BuildMute :: "int \<Rightarrow> JID \<Rightarrow> bool \<Rightarrow> int \<Rightarrow> PatchInfo" where
  "BuildMute now target mute muteDuration =
     (let muteEndTimestamp = (if muteDuration > 0 then Some ((now + muteDuration) div 1000000) else None)
      in BuildMuteAbs target mute muteEndTimestamp)"

definition newPinMutationInfo :: "JID \<Rightarrow> bool \<Rightarrow> MutationInfo" where
  "newPinMutationInfo target pin =
     \<lparr>mi_Index = [''pin_v1'', JID_String target], mi_Version = 5, mi_Value = no_action\<lparr>PinAction := Some (Some pin)\<rparr>\<rparr>"

definition BuildPin :: "JID \<Rightarrow> bool \<Rightarrow> PatchInfo" where
  "BuildPin target pin = patch_info WAPatchRegularLow [newPinMutationInfo target pin]"

definition newMessageRange :: "int \<Rightarrow> gotime \<Rightarrow> wire_message option \<Rightarrow> SyncActionMessageRange" where
  "newMessageRange now lastMessageTimestamp lastMessageKey =
     (let ts = (if time_IsZero lastMessageTimestamp then now div 1000000000 else time_seconds lastMessageTimestamp) in
      \<lparr>LastMessageTimestamp = Some ts,
       range_Messages = (case lastMessageKey of None \<Rightarrow> [] | Some key \<Rightarrow> [(key, Some ts)])\<rparr>)"

definition BuildArchive :: "int \<Rightarrow> JID \<Rightarrow> bool \<Rightarrow> gotime \<Rightarrow> wire_message option \<Rightarrow> PatchInfo" where
  "BuildArchive now target archive lastMessageTimestamp lastMessageKey =
     (let archiveMutationInfo =
            \<lparr>mi_Index = [''archive'', JID_String target], mi_Version = 3,
             mi_Value = no_action\<lparr>ArchiveChatAction :=
               Some (Some archive, newMessageRange now lastMessageTimestamp lastMessageKey)\<rparr>\<rparr>;
          mutations = [archiveMutationInfo];
          mutations = (if archive then mutations @ [newPinMutationInfo target False] else mutations)
      in patch_info WAPatchRegularLow mutations)"

definition BuildMarkChatAsRead :: "int \<Rightarrow> JID \<Rightarrow> bool \<Rightarrow> gotime \<Rightarrow> wire_message option \<Rightarrow> PatchInfo" where
  "BuildMarkChatAsRead now target rd lastMessageTimestamp lastMessageKey =
     patch_info WAPatchRegularLow
       [\<lparr>mi_Index = [''markChatAsRead'', JID_String target], mi_Version = 3,
         mi_Value = no_action\<lparr>MarkChatAsReadAction :=
           Some (Some rd, newMessageRange now lastMessageTimestamp lastMessageKey)\<rparr>\<rparr>]"

definition newLabelChatMutation :: "JID \<Rightarrow> string \<Rightarrow> bool \<Rightarrow> MutationInfo" where
  "newLabelChatMutation target labelID labeled =
     \<lparr>mi_Index = [''label_jid'', labelID, JID_String target], mi_Version = 3,
      mi_Value = no_action\<lparr>LabelAssociationAction := Some (Some labeled)\<rparr>\<rparr>"

definition BuildLabelChat :: "JID \<Rightarrow> string \<Rightarrow> bool \<Rightarrow> PatchInfo" where
  "BuildLabelChat target labelID labeled = patch_info WAPatchRegular [newLabelChatMutation target labelID labeled]"

record LabelChatChange =
  lc_LabelID :: string
  lc_Labeled :: bool

fun label_changes ::
  "JID \<Rightarrow> LabelChatChange list \<Rightarrow> MutationInfo list \<Rightarrow> (string \<rightharpoonup> nat) \<Rightarrow> MutationInfo list" where
  "label_changes target [] mutations mutationIndexes = mutations"
| "label_changes target (change # changes) mutations mutationIndexes =
     (let mutation = newLabelChatMutation target (lc_LabelID change) (lc_Labeled change) in
      case mutationIndexes (lc_LabelID change) of
        Some index \<Rightarrow> label_changes target changes (mutations[index := mutation]) mutationIndexes
      | None \<Rightarrow>
          label_changes target changes (mutations @ [mutation])
            (mutationIndexes(lc_LabelID change \<mapsto> length mutations)))"

definition BuildLabelChatChanges :: "JID \<Rightarrow> LabelChatChange list \<Rightarrow> PatchInfo" where
  "BuildLabelChatChanges target changes = patch_info WAPatchRegular (label_changes target changes [] Map.empty)"

definition newLabelMessageMutation :: "JID \<Rightarrow> string \<Rightarrow> string \<Rightarrow> bool \<Rightarrow> MutationInfo" where
  "newLabelMessageMutation target labelID messageID labeled =
     \<lparr>mi_Index = [''label_message'', labelID, JID_String target, messageID, ''0'', ''0''], mi_Version = 3,
      mi_Value = no_action\<lparr>LabelAssociationAction := Some (Some labeled)\<rparr>\<rparr>"

definition BuildLabelMessage :: "JID \<Rightarrow> string \<Rightarrow> string \<Rightarrow> bool \<Rightarrow> PatchInfo" where
  "BuildLabelMessage target labelID messageID labeled =
     patch_info WAPatchRegular [newLabelMessageMutation target labelID messageID labeled]"

definition newLabelEditMutation :: "string \<Rightarrow> string \<Rightarrow> int \<Rightarrow> bool \<Rightarrow> MutationInfo" where
  "newLabelEditMutation labelID labelName labelColor deleted =
     \<lparr>mi_Index = [''label_edit'', labelID], mi_Version = 3,
      mi_Value = no_action\<lparr>sav_LabelEditAction :=
        Some \<lparr>le_Name = Some labelName, le_Color = Some labelColor, le_Deleted = Some deleted\<rparr>\<rparr>\<rparr>"

definition BuildLabelEdit :: "string \<Rightarrow> string \<Rightarrow> int \<Rightarrow> bool \<Rightarrow> PatchInfo" where
  "BuildLabelEdit labelID labelName labelColor deleted =
     patch_info WAPatchRegular [newLabelEditMutation labelID labelName labelColor deleted]"

definition newQuickReplyMutation ::
  "string \<Rightarrow> string \<Rightarrow> string \<Rightarrow> string list \<Rightarrow> int \<Rightarrow> bool \<Rightarrow> string list \<Rightarrow> MutationInfo" where
  "newQuickReplyMutation qid shortcut message keywords cnt deleted associatedLabelIDs =
     \<lparr>mi_Index = [''quick_reply'', qid], mi_Version = 2,
      mi_Value = no_action\<lparr>sav_QuickReplyAction :=
        Some \<lparr>qr_Shortcut = Some shortcut, qr_Message = Some message, qr_Keywords = keywords, qr_Count = Some cnt,
              qr_Deleted = Some deleted, qr_AssociatedLabelIDs = associatedLabelIDs\<rparr>\<rparr>\<rparr>"

definition BuildQuickReply :: "string \<Rightarrow> string \<Rightarrow> string \<Rightarrow> string list \<Rightarrow> int \<Rightarrow> string list \<Rightarrow> PatchInfo" where
  "BuildQuickReply qid shortcut message keywords cnt associatedLabelIDs =
     patch_info WAPatchRegular [newQuickReplyMutation qid shortcut message keywords cnt False associatedLabelIDs]"

definition BuildQuickReplyDelete :: "string \<Rightarrow> PatchInfo" where
  "BuildQuickReplyDelete qid = patch_info WAPatchRegular [newQuickReplyMutation qid [] [] [] 0 True []]"

definition newSettingPushNameMutation :: "string \<Rightarrow> MutationInfo" where
  "newSettingPushNameMutation pushName =
     \<lparr>mi_Index = [''setting_pushName''], mi_Version = 1, mi_Value = no_action\<lparr>PushNameSetting := Some (Some pushName)\<rparr>\<rparr>"

definition BuildSettingPushName :: "string \<Rightarrow> PatchInfo" where
  "BuildSettingPushName pushName = patch_info WAPatchCriticalBlock [newSettingPushNameMutation pushName]"

definition newStarMutation :: "string \<Rightarrow> string \<Rightarrow> string \<Rightarrow> string \<Rightarrow> bool \<Rightarrow> MutationInfo" where
  "newStarMutation targetJID senderJID messageID fromMe starred =
     \<lparr>mi_Index = [''star'', targetJID, messageID, fromMe, senderJID], mi_Version = 2,
      mi_Value = no_action\<lparr>StarAction := Some (Some starred)\<rparr>\<rparr>"

definition BuildStar :: "JID \<Rightarrow> JID \<Rightarrow> string \<Rightarrow> bool \<Rightarrow> bool \<Rightarrow> PatchInfo" where
  "BuildStar target sender messageID fromMe starred =
     (let isFromMe = (if fromMe then ''1'' else ''0'');
          targetJID = JID_String target; senderJID = JID_String sender;
          senderJID = (if User target = User sender then ''0'' else senderJID)
      in patch_info WAPatchRegularHigh [newStarMutation targetJID senderJID messageID isFromMe starred])"

definition BuildDeleteChat :: "int \<Rightarrow> JID \<Rightarrow> gotime \<Rightarrow> wire_message option \<Rightarrow> bool \<Rightarrow> PatchInfo" where
  "BuildDeleteChat now target lastMessageTimestamp lastMessageKey deleteMedia =
     (let deleteMediaInt = (if deleteMedia then ''1'' else ''0'') in
      patch_info WAPatchRegularHigh
        [\<lparr>mi_Index = [''deleteChat'', JID_String target, deleteMediaInt], mi_Version = 6,
          mi_Value = no_action\<lparr>DeleteChatAction := Some (newMessageRange now lastMessageTimestamp lastMessageKey)\<rparr>\<rparr>])"

section \<open>Encoding\<close>

definition encode_mutation ::
  "crypto \<Rightarrow> sync_codec \<Rightarrow> ExpandedAppStateKeys \<Rightarrow> bytes \<Rightarrow> int \<Rightarrow> bytes option \<Rightarrow> MutationInfo \<Rightarrow> app_error + SyncdMutation" where
  "encode_mutation c cd keys keyID ts rnd mutationInfo =
     (let val = (mi_Value mutationInfo)\<lparr>sav_Timestamp := Some ts\<rparr> in
      case marshal_index cd (mi_Index mutationInfo) of
        None \<Rightarrow> Inl MarshalFailed
      | Some indexBytes \<Rightarrow>
          (case marshal_action cd
                  \<lparr>sad_Index = indexBytes, sad_Value = Some val, sad_Padding = [], sad_Version = mi_Version mutationInfo\<rparr> of
             None \<Rightarrow> Inl MarshalFailed
           | Some content \<Rightarrow>
               (case cbc_Encrypt c rnd (ek_ValueEncryption keys) None content of
                  Inl e \<Rightarrow> Inl (EncryptError e)
                | Inr encryptedContent \<Rightarrow>
                    (let valueMac = generateContentMAC c SyncdMutation_SET encryptedContent keyID (ek_ValueMAC keys);
                         indexMac = concatAndHMAC (hmac_sha256 c) (ek_Index keys) [indexBytes]
                     in Inr \<lparr>sm_Operation = SyncdMutation_SET,
                             sm_Record = \<lparr>sr_Index = indexMac, sr_Value = encryptedContent @ valueMac, sr_KeyID = Some keyID\<rparr>\<rparr>))))"

fun encode_mutations ::
  "crypto \<Rightarrow> sync_codec \<Rightarrow> ExpandedAppStateKeys \<Rightarrow> bytes \<Rightarrow> int \<Rightarrow> (nat \<Rightarrow> bytes option) \<Rightarrow> nat \<Rightarrow> MutationInfo list \<Rightarrow>
   app_error + SyncdMutation list" where
  "encode_mutations c cd keys keyID ts rnd i [] = Inr []"
| "encode_mutations c cd keys keyID ts rnd i (mi # mis) =
     rbind (encode_mutation c cd keys keyID ts (rnd i) mi) (\<lambda>m.
       rbind (encode_mutations c cd keys keyID ts rnd (Suc i) mis) (\<lambda>ms. Inr (m # ms)))"

text \<open>The patch that is marshalled: the server gives it its version.\<close>

definition build_patch ::
  "crypto \<Rightarrow> sync_codec \<Rightarrow> (nat \<Rightarrow> bytes option) \<Rightarrow> int \<Rightarrow> bytes \<Rightarrow> HashState \<Rightarrow> PatchInfo \<Rightarrow> SyncdPatch proc_op" where
  "build_patch c cd rnd now keyID state patchInfo =
     sbind (getAppStateKey c keyID) (\<lambda>keys.
       let ts = (if time_IsZero (pi_Timestamp patchInfo) then now div 1000000 else time_millis (pi_Timestamp patchInfo)) in
       sbind (slift (encode_mutations c cd keys keyID ts rnd 0 (pi_Mutations patchInfo))) (\<lambda>mutations.
         sbind (update_hash c mutations
                  (\<lambda>indexMAC _. with_store (GetAppStateMutationMAC (pi_Type patchInfo) indexMAC)) state) (\<lambda>state.
           let state = state\<lparr>hs_Version := hs_Version state + 1\<rparr>;
               syncdPatch = \<lparr>sp_Version = 0, sp_Mutations = mutations, sp_ExternalMutations = None,
                 sp_SnapshotMAC = generateSnapshotMAC c (pi_Type patchInfo) (ek_SnapshotMAC keys) state,
                 sp_PatchMAC = [], sp_KeyID = Some keyID\<rparr>
           in sbind (slift (generatePatchMAC c syncdPatch (pi_Type patchInfo) (ek_PatchMAC keys) (hs_Version state))) (\<lambda>mac.
                sret (syncdPatch\<lparr>sp_PatchMAC := mac\<rparr>)))))"

definition EncodePatch ::
  "crypto \<Rightarrow> sync_codec \<Rightarrow> (nat \<Rightarrow> bytes option) \<Rightarrow> int \<Rightarrow> bytes \<Rightarrow> HashState \<Rightarrow> PatchInfo \<Rightarrow> bytes proc_op" where
  "EncodePatch c cd rnd now keyID state patchInfo =
     sbind (build_patch c cd rnd now keyID state patchInfo) (\<lambda>syncdPatch.
       case marshal_patch cd syncdPatch of None \<Rightarrow> serr MarshalFailed | Some result \<Rightarrow> sret result)"

section \<open>Labels\<close>

definition last_change :: "LabelChatChange list \<Rightarrow> string \<rightharpoonup> bool" where
  "last_change changes = map_of (rev (map (\<lambda>ch. (lc_LabelID ch, lc_Labeled ch)) changes))"

lemma last_change_snoc: "last_change (changes @ [ch]) = (last_change changes)(lc_LabelID ch \<mapsto> lc_Labeled ch)"
  by (simp add: last_change_def)

definition label_mutations :: "JID \<Rightarrow> LabelChatChange list \<Rightarrow> MutationInfo list" where
  "label_mutations target changes =
     map (\<lambda>l. newLabelChatMutation target l (the (last_change changes l))) (firsts (map lc_LabelID changes))"

lemma label_mutations_fresh:
  assumes "lc_LabelID ch \<notin> set (map lc_LabelID changes)"
  shows "label_mutations target (changes @ [ch]) =
     label_mutations target changes @ [newLabelChatMutation target (lc_LabelID ch) (lc_Labeled ch)]"
proof -
  have "map (\<lambda>l. newLabelChatMutation target l (the (last_change (changes @ [ch]) l))) (firsts (map lc_LabelID changes)) =
      label_mutations target changes"
    unfolding label_mutations_def
  proof (rule map_cong [OF refl])
    fix l assume "l \<in> set (firsts (map lc_LabelID changes))"
    with assms have "l \<noteq> lc_LabelID ch" by (metis firsts_simps(3))
    then show "newLabelChatMutation target l (the (last_change (changes @ [ch]) l)) =
        newLabelChatMutation target l (the (last_change changes l))" by (simp add: last_change_snoc)
  qed
  with assms show ?thesis by (simp add: label_mutations_def last_change_snoc)
qed

lemma label_mutations_again:
  assumes "i < length (firsts (map lc_LabelID changes))" and "firsts (map lc_LabelID changes) ! i = lc_LabelID ch"
  shows "label_mutations target (changes @ [ch]) =
     (label_mutations target changes)[i := newLabelChatMutation target (lc_LabelID ch) (lc_Labeled ch)]"
proof -
  let ?f = "firsts (map lc_LabelID changes)"
  have mem: "lc_LabelID ch \<in> set (map lc_LabelID changes)" using nth_mem [OF assms(1)] assms(2) by simp
  show ?thesis
  proof (rule nth_equalityI)
    fix j assume "j < length (label_mutations target (changes @ [ch]))"
    then have j: "j < length ?f" using mem by (simp add: label_mutations_def)
    have "?f ! j = lc_LabelID ch \<longleftrightarrow> j = i"
      using nth_eq_iff_index_eq [OF firsts_simps(4) j assms(1)] assms(2) by simp
    with j mem assms(1) show "label_mutations target (changes @ [ch]) ! j =
        (label_mutations target changes)[i := newLabelChatMutation target (lc_LabelID ch) (lc_Labeled ch)] ! j"
      by (auto simp: label_mutations_def last_change_snoc nth_list_update)
  qed (use mem in \<open>simp add: label_mutations_def\<close>)
qed

lemma label_changes_run:
  "(\<And>l i. ix l = Some i \<longleftrightarrow> i < length (firsts (map lc_LabelID done)) \<and> firsts (map lc_LabelID done) ! i = l) \<Longrightarrow>
   label_changes target changes (label_mutations target done) ix = label_mutations target (done @ changes)"
proof (induction changes arbitrary: "done" ix)
  case (Cons ch changes)
  let ?f = "firsts (map lc_LabelID done)" and ?l = "lc_LabelID ch"
  have eq: "done @ ch # changes = (done @ [ch]) @ changes" by simp
  show ?case
  proof (cases "ix ?l")
    case (Some i)
    then have i: "i < length ?f" "?f ! i = ?l" using Cons.prems by blast+
    then have mem: "?l \<in> set (map lc_LabelID done)" using nth_mem [of i ?f] by simp
    have "label_changes target changes (label_mutations target (done @ [ch])) ix = label_mutations target ((done @ [ch]) @ changes)"
      by (rule Cons.IH) (use mem Cons.prems in simp)
    with Some label_mutations_again [OF i] show ?thesis unfolding eq by simp
  next
    case None
    then have "\<forall>i < length ?f. ?f ! i \<noteq> ?l" using Cons.prems [of ?l] by auto
    then have fresh: "?l \<notin> set (map lc_LabelID done)" by (metis firsts_simps(3) in_set_conv_nth)
    let ?ix = "ix(?l \<mapsto> length ?f)"
    have "(?ix l = Some i) = (i < length (firsts (map lc_LabelID (done @ [ch]))) \<and> firsts (map lc_LabelID (done @ [ch])) ! i = l)" for l i
      using fresh Cons.prems [of l i] \<open>\<forall>i < length ?f. ?f ! i \<noteq> ?l\<close>
      by (auto simp: nth_append less_Suc_eq)
    then have "label_changes target changes (label_mutations target (done @ [ch])) ?ix = label_mutations target ((done @ [ch]) @ changes)"
      by (rule Cons.IH)
    moreover have "length (label_mutations target done) = length ?f" by (simp add: label_mutations_def)
    ultimately show ?thesis using None label_mutations_fresh [OF fresh] unfolding eq by simp
  qed
qed simp

text \<open>
  C38: a list of label changes for a chat becomes one mutation per label, in the order the labels are
  first mentioned, each with the state its last change asks for, so no index occurs twice.
\<close>

theorem BuildLabelChatChanges_last_wins:
  "pi_Mutations (BuildLabelChatChanges target changes) =
     map (\<lambda>l. newLabelChatMutation target l (the (last_change changes l))) (firsts (map lc_LabelID changes)) \<and>
   distinct (map mi_Index (pi_Mutations (BuildLabelChatChanges target changes)))"
proof -
  have "label_mutations target [] = []" by (simp add: label_mutations_def)
  with label_changes_run [of Map.empty "[]" target changes]
  have "pi_Mutations (BuildLabelChatChanges target changes) = label_mutations target changes"
    by (simp add: BuildLabelChatChanges_def patch_info_def)
  moreover have "distinct (map mi_Index (label_mutations target changes))"
    by (auto simp: label_mutations_def newLabelChatMutation_def distinct_map comp_def inj_on_def)
  ultimately show ?thesis by (simp add: label_mutations_def)
qed

text \<open>The other builders do not repeat an index either.\<close>

lemma builders_distinct:
  "distinct (map mi_Index (pi_Mutations (BuildArchive now target archive ts key)))"
  "distinct (map mi_Index (pi_Mutations (BuildMute now target mute d)))"
  "distinct (map mi_Index (pi_Mutations (BuildPin target pin)))"
  "distinct (map mi_Index (pi_Mutations (BuildStar target sender mid fromMe starred)))"
  by (simp_all add: BuildArchive_def BuildMute_def BuildMuteAbs_def BuildPin_def BuildStar_def patch_info_def
      newPinMutationInfo_def newStarMutation_def Let_def)

section \<open>What was encoded is decoded\<close>

text \<open>
  Unmarshalling gives back what was marshalled: for actions and patches, and for the indexes at hand
  (JSON does not keep strings that are not UTF-8).
\<close>

definition codec_correct :: "sync_codec \<Rightarrow> bool" where
  "codec_correct cd \<longleftrightarrow>
     (\<forall>a b. marshal_action cd a = Some b \<longrightarrow> unmarshal_action cd b = Some a) \<and>
     (\<forall>p b. marshal_patch cd p = Some b \<longrightarrow> unmarshal_patch cd b = Some p)"

definition index_kept :: "sync_codec \<Rightarrow> string list \<Rightarrow> bool" where
  "index_kept cd ix \<longleftrightarrow> (\<forall>b. marshal_index cd ix = Some b \<longrightarrow> unmarshal_index cd b = Some ix)"

definition stamped :: "int \<Rightarrow> MutationInfo \<Rightarrow> SyncActionValue" where
  "stamped ts mi = (mi_Value mi)\<lparr>sav_Timestamp := Some ts\<rparr>"

definition encodes ::
  "crypto \<Rightarrow> sync_codec \<Rightarrow> ExpandedAppStateKeys \<Rightarrow> bytes \<Rightarrow> int \<Rightarrow> MutationInfo \<Rightarrow> SyncdMutation \<Rightarrow> bool" where
  "encodes c cd keys keyID ts mi m \<longleftrightarrow>
     sm_Operation m = SyncdMutation_SET \<and> sr_KeyID (sm_Record m) = Some keyID \<and>
     length (sr_Index (sm_Record m)) = 32 \<and> 32 \<le> length (sr_Value (sm_Record m)) \<and>
     (\<forall>i. \<exists>act. decode_content c cd keys m i True =
        Inr (sr_Index (sm_Record m), drop (length (sr_Value (sm_Record m)) - 32) (sr_Value (sm_Record m)), mi_Index mi, act) \<and>
        sad_Value act = Some (stamped ts mi) \<and> sad_Version act = mi_Version mi)"

lemma encode_mutation_encodes:
  assumes "aes_correct c" and "sha_correct c" and "codec_correct cd" and "index_kept cd (mi_Index mi)"
    and "encode_mutation c cd keys keyID ts rnd mi = Inr m"
  shows "encodes c cd keys keyID ts mi m"
proof -
  from assms(5) obtain ib content e where
    ib: "marshal_index cd (mi_Index mi) = Some ib"
    and content: "marshal_action cd \<lparr>sad_Index = ib, sad_Value = Some (stamped ts mi), sad_Padding = [], sad_Version = mi_Version mi\<rparr> = Some content"
    and e: "cbc_Encrypt c rnd (ek_ValueEncryption keys) None content = Inr e"
    and m: "m = \<lparr>sm_Operation = SyncdMutation_SET,
      sm_Record = \<lparr>sr_Index = concatAndHMAC (hmac_sha256 c) (ek_Index keys) [ib],
        sr_Value = e @ generateContentMAC c SyncdMutation_SET e keyID (ek_ValueMAC keys), sr_KeyID = Some keyID\<rparr>\<rparr>"
    by (auto simp: encode_mutation_def stamped_def Let_def split: option.splits sum.splits)
  let ?act = "\<lparr>sad_Index = ib, sad_Value = Some (stamped ts mi), sad_Padding = [], sad_Version = mi_Version mi\<rparr>"
  let ?mac = "generateContentMAC c SyncdMutation_SET e keyID (ek_ValueMAC keys)"
  have mac: "length ?mac = 32" using assms(2) by (simp add: generateContentMAC_def concatAndHMAC_def sha_correct_def Let_def)
  note dec = cbc_decrypts_random [OF assms(1) e]
  have "unmarshal_action cd content = Some ?act" "unmarshal_index cd ib = Some (mi_Index mi)"
    using assms(3, 4) content ib by (simp_all add: codec_correct_def index_kept_def)
  then have "decode_content c cd keys m i True = Inr (sr_Index (sm_Record m), ?mac, mi_Index mi, ?act)" for i
    using dec by (simp add: decode_content_def m last32_def mac)
  moreover have "length (sr_Index (sm_Record m)) = 32"
    using assms(2) by (simp add: m concatAndHMAC_def sha_correct_def)
  ultimately show ?thesis by (simp add: encodes_def m mac)
qed

lemma encode_mutations_encodes:
  assumes "aes_correct c" and "sha_correct c" and "codec_correct cd"
  shows "\<forall>mi \<in> set mis. index_kept cd (mi_Index mi) \<Longrightarrow>
     encode_mutations c cd keys keyID ts rnd i mis = Inr ms \<Longrightarrow> list_all2 (encodes c cd keys keyID ts) mis ms"
proof (induction mis arbitrary: i ms)
  case (Cons mi mis)
  from Cons.prems(2) obtain m ms' where "encode_mutation c cd keys keyID ts (rnd i) mi = Inr m"
    "encode_mutations c cd keys keyID ts rnd (Suc i) mis = Inr ms'" "ms = m # ms'"
    by (auto simp: rbind_eq_Inr)
  with Cons.IH encode_mutation_encodes [OF assms] Cons.prems(1) show ?case by auto
qed simp

lemma cached_key: "keyCache p (RawStdEncoding keyID) = Some keys \<Longrightarrow> getAppStateKey c keyID p = (Inr keys, p)"
  by (simp add: getAppStateKey_def)

lemma getAppStateKey_caches: "getAppStateKey c keyID p = (Inr keys, p') \<Longrightarrow> keyCache p' (RawStdEncoding keyID) = Some keys"
proof (cases "keyCache p (RawStdEncoding keyID)")
  case None
  assume "getAppStateKey c keyID p = (Inr keys, p')"
  with None obtain kd p1 where "with_store (GetAppStateSyncKey keyID) p = (Inr (Some kd), p1)"
    "expandAppStateKeys c (sk_Data kd) = Inr keys" "p' = p1\<lparr>keyCache := (keyCache p1)(RawStdEncoding keyID \<mapsto> keys)\<rparr>"
    by (fastforce simp: getAppStateKey_def sbind_def split: prod.splits sum.splits option.splits)
  then show "keyCache p' (RawStdEncoding keyID) = Some keys" by simp
qed (simp add: getAppStateKey_def)

text \<open>With the key in the cache, the mutations are decoded one by one.\<close>

definition decoded :: "int \<Rightarrow> 64 word \<Rightarrow> MutationInfo \<Rightarrow> Mutation \<Rightarrow> bool" where
  "decoded ts ver mi mu \<longleftrightarrow>
     mu_Operation mu = SyncdMutation_SET \<and> mu_Index mu = mi_Index mi \<and> mu_Action mu = Some (stamped ts mi) \<and>
     mu_Version mu = mi_Version mi \<and> mu_PatchVersion mu = ver"

lemma decode_encoded:
  "list_all2 (encodes c cd keys keyID ts) mis ms \<Longrightarrow> keyCache p (RawStdEncoding keyID) = Some keys \<Longrightarrow>
   \<exists>out' mus. decodeMutations_loop c cd i ms True ver Map.empty out p = (Inr out', p) \<and>
     RemovedMACs out' = RemovedMACs out \<and>
     AddedMACs out' = AddedMACs out @ map (\<lambda>m. \<lparr>mm_IndexMAC = sr_Index (sm_Record m),
       mm_ValueMAC = drop (length (sr_Value (sm_Record m)) - 32) (sr_Value (sm_Record m))\<rparr>) ms \<and>
     out_Mutations out' = out_Mutations out @ mus \<and> list_all2 (decoded ts ver) mis mus"
proof (induction mis ms arbitrary: i out rule: list_all2_induct)
  case (Cons mi mis m ms)
  let ?k = "sr_Index (sm_Record m)" and ?v = "drop (length (sr_Value (sm_Record m)) - 32) (sr_Value (sm_Record m))"
  from Cons.hyps(1) obtain act where
    op: "sm_Operation m = SyncdMutation_SET" and key: "sr_KeyID (sm_Record m) = Some keyID"
    and dec: "decode_content c cd keys m i True = Inr (?k, ?v, mi_Index mi, act)"
    and act: "sad_Value act = Some (stamped ts mi)" "sad_Version act = mi_Version mi"
    unfolding encodes_def by blast
  let ?out = "record_mutation m ver Map.empty (?k, ?v, mi_Index mi, act) out"
  have one: "decodeMutation c cd m i True p = (Inr (?k, ?v, mi_Index mi, act), p)"
    using cached_key [OF Cons.prems] by (simp add: decodeMutation_def key dec)
  from Cons.IH [OF Cons.prems] obtain out' mus where
    rest: "decodeMutations_loop c cd (Suc i) ms True ver Map.empty ?out p = (Inr out', p)"
    "RemovedMACs out' = RemovedMACs ?out"
    "AddedMACs out' = AddedMACs ?out @ map (\<lambda>m. \<lparr>mm_IndexMAC = sr_Index (sm_Record m),
       mm_ValueMAC = drop (length (sr_Value (sm_Record m)) - 32) (sr_Value (sm_Record m))\<rparr>) ms"
    "out_Mutations out' = out_Mutations ?out @ mus" "list_all2 (decoded ts ver) mis mus"
    by blast
  define mu where "mu = last (out_Mutations ?out)"
  have mu: "out_Mutations ?out = out_Mutations out @ [mu]" "decoded ts ver mi mu"
    by (simp_all add: mu_def record_mutation_def op AddMAC_def decoded_def act)
  have "RemovedMACs ?out = RemovedMACs out" "AddedMACs ?out = AddedMACs out @ [\<lparr>mm_IndexMAC = ?k, mm_ValueMAC = ?v\<rparr>]"
    by (simp_all add: record_mutation_def op AddMAC_def)
  with one rest mu show ?case by (intro exI [of _ out'] exI [of _ "mu # mus"]) simp
qed simp

section \<open>The decoder accepts the patch\<close>

lemma updateHash_loop_ok:
  assumes "\<And>k i s. i < n \<Longrightarrow> J s \<Longrightarrow> \<exists>r s'. getPrev k i s = (Inr r, s') \<and> J s'"
  shows "\<forall>m \<in> set ms. 32 \<le> length (sr_Value (sm_Record m)) \<Longrightarrow> i + length ms \<le> n \<Longrightarrow> J s \<Longrightarrow>
     \<exists>w a r s'. updateHash_loop getPrev i ms acc s = ((w, Inr (a, r)), s') \<and> J s'"
proof (induction ms arbitrary: i acc s)
  case Nil
  then show ?case by (cases acc) auto
next
  case (Cons m ms)
  obtain added removed w where acc: "acc = (added, removed, w)" by (cases acc) auto
  obtain prev s1 where g: "getPrev (sr_Index (sm_Record m)) i s = (Inr prev, s1)" "J s1"
    using assms [of i s] Cons.prems by fastforce
  have "32 \<le> length (sr_Value (sm_Record m))" using Cons.prems(1) by simp
  then obtain added' where "(if sm_Operation m = SyncdMutation_SET
      then rbind (last32 (sr_Value (sm_Record m))) (\<lambda>v. Inr (added @ [v])) else Inr added) = Inr added'"
    by (cases "sm_Operation m") (simp_all add: last32_def)
  moreover have "\<exists>w a r s'. updateHash_loop getPrev (Suc i) ms acc' s1 = ((w, Inr (a, r)), s') \<and> J s'" for acc'
    using Cons.IH [of "Suc i" s1 acc'] Cons.prems g(2) by simp
  ultimately show ?case by (cases prev) (simp_all add: acc g(1) Let_def)
qed

lemma update_hash_ok:
  assumes "\<And>k i s. i < length ms \<Longrightarrow> J s \<Longrightarrow> \<exists>r s'. getPrev k i s = (Inr r, s') \<and> J s'"
    and "\<forall>m \<in> set ms. 32 \<le> length (sr_Value (sm_Record m))" and "J s" and "hkdf_correct c" and "length (hs_Hash hs) = 128"
  shows "\<exists>hs' s'. update_hash c ms getPrev hs s = (Inr hs', s') \<and> J s'"
proof -
  obtain w a r s' where loop: "updateHash_loop getPrev 0 ms ([], [], []) s = ((w, Inr (a, r)), s')" "J s'"
    using updateHash_loop_ok [of "length ms" J getPrev ms 0 s "([], [], [])"] assms(1-3) by auto
  have "lt_base WAPatchIntegrity (hs_Hash hs)" using assms(5) by (simp add: lt_base_def WAPatchIntegrity_def)
  from SubtractThenAdd_lanes [OF assms(4) this] obtain h where
    "SubtractThenAddInPlace c WAPatchIntegrity (hs_Hash hs) r a = Inr h" by blast
  with loop show ?thesis by (simp add: update_hash_def updateHash_def)
qed

lemma prev_in_patch_ok:
  "i \<le> length ms \<Longrightarrow> \<forall>m \<in> set ms. 32 \<le> length (sr_Value (sm_Record m)) \<Longrightarrow> prev_in_patch ms k i \<noteq> Some (Inl e)"
proof (induction i)
  case (Suc i)
  then have "32 \<le> length (sr_Value (sm_Record (ms ! i)))" by (metis Suc_le_lessD nth_mem)
  then have "last32 (sr_Value (sm_Record (ms ! i))) \<noteq> Inl e" by (simp add: last32_def)
  with Suc show ?case by (auto simp: Let_def rbind_eq_Inl split: SyncdOperation.splits)
qed simp

definition proc_answers :: "Processor \<Rightarrow> bool" where
  "proc_answers p \<longleftrightarrow> answering (proc_Store p)"

lemma proc_answers_same: "same_tables (proc_Store p) (proc_Store q) \<Longrightarrow> proc_answers q = proc_answers p"
  by (simp add: proc_answers_def answering_def same_tables_def)

lemma patch_prev_ok:
  assumes "i < length ms" and "\<forall>m \<in> set ms. 32 \<le> length (sr_Value (sm_Record m))" and "proc_answers s"
  shows "\<exists>r s'. patch_prev name ms k i s = (Inr r, s') \<and> proc_answers s'"
proof (cases "prev_in_patch ms k i")
  case None
  with assms(3) show ?thesis
    by (simp add: patch_prev_def with_store_def GetAppStateMutationMAC_def sql_query_def proc_answers_def answering_def)
next
  case (Some q)
  then have "q \<noteq> Inl e" for e using prev_in_patch_ok [of i ms k e] assms(1, 2) by simp
  then obtain r where "q = Inr r" by (cases q) auto
  with Some assms(3) show ?thesis by (simp add: patch_prev_def)
qed

lemma store_prev_answers:
  assumes "distinct (map (\<lambda>m. sr_Index (sm_Record m)) ms)"
  shows "answers (\<lambda>k _. with_store (GetAppStateMutationMAC name k)) (unchanged p) (current_mac (proc_Store p) name) ms"
  unfolding answers_def
proof (intro allI impI)
  fix i s r s'
  let ?k = "sr_Index (sm_Record (ms ! i))" and ?t = "current_mac (proc_Store p) name"
  assume i: "i < length ms" and s: "unchanged p s" and get: "with_store (GetAppStateMutationMAC name ?k) s = (Inr r, s')"
  from get obtain db where "GetAppStateMutationMAC name ?k (proc_Store s) = (Inr r, db)" "s' = s\<lparr>proc_Store := db\<rparr>"
    by (auto simp: with_store_Inr)
  then have r: "r = current_mac (proc_Store s) name ?k" "s' = s\<lparr>proc_Store := tick (proc_Store s)\<rparr>"
    by (simp_all add: GetAppStateMutationMAC_def sql_query_Inr)
  have "?k \<notin> (\<lambda>m. sr_Index (sm_Record m)) ` set (take i ms)"
    using assms i by (auto simp: in_set_conv_nth distinct_conv_nth)
  then have "tab_apply ?t (map mut_op (take i ms)) ?k = ?t ?k"
    by (subst tab_apply_other) (auto simp: image_image)
  moreover have "current_mac (proc_Store s) = current_mac (proc_Store p)"
    using s same_tables_views(1) unfolding unchanged_def by blast
  ultimately show "r = tab_apply ?t (map mut_op (take i ms)) ?k \<and> unchanged p s'"
    using r s by (simp add: unchanged_def)
qed

lemma storeMACs_ok:
  assumes "proc_answers p" and "db_ok (proc_Store p)" and "below (proc_Store p) name (hs_Version hs)"
    and "length (hs_Hash hs) = 128" and "distinct (map mm_IndexMAC (AddedMACs out))"
    and "\<forall>m \<in> set (AddedMACs out). length (mm_IndexMAC m) = 32 \<and> length (mm_ValueMAC m) = 32"
  shows "\<exists>p'. storeMACs name hs out p = (Inr (), p')"
proof -
  let ?db = "proc_Store p"
  let ?db1 = "tick (?db\<lparr>state_version := (state_version ?db)(name \<mapsto> (hs_Version hs, hs_Hash hs))\<rparr>)"
  have ans: "answering ?db" using assms(1) by (simp add: proc_answers_def)
  have 1: "PutAppStateVersion name (hs_Version hs) (hs_Hash hs) ?db = (Inr (), ?db1)"
    by (rule PutVersion_ok [OF ans assms(4)])
  then have db1: "db_ok ?db1" "below ?db1 name (hs_Version hs)"
    using app_store.putVersion_law [OF 1 assms(2)] assms(3) by simp_all
  have "answering ?db1" using ans by (simp add: answering_def)
  then obtain db2 where 2: "DeleteAppStateMutationMACs name (RemovedMACs out) ?db1 = (Inr (), db2)"
    and db2: "answering db2" "state_version db2 = state_version ?db1"
    using DeleteMACs_ok by blast
  have "below db2 name (hs_Version hs)" "db_ok db2"
    using app_store.delete_law [OF 2 db1(1)] db1(2) by blast+
  then obtain db3 where "PutAppStateMutationMACs name (hs_Version hs) (AddedMACs out) db2 = (Inr (), db3)"
    using PutMACs_ok [OF db2(1) _ _ _ assms(5, 6), of name "hs_Version hs"] db2(2) unfolding db_ok_def by auto
  with 1 2 show ?thesis by (simp add: storeMACs_def with_store_def)
qed

lemma build_patch_Inr:
  assumes "build_patch c cd rnd now keyID hs info p = (Inr patch, p1)"
  obtains keys p0 ms st mac where
    "getAppStateKey c keyID p = (Inr keys, p0)"
    and "encode_mutations c cd keys keyID
      (if time_IsZero (pi_Timestamp info) then now div 1000000 else time_millis (pi_Timestamp info)) rnd 0 (pi_Mutations info) = Inr ms"
    and "update_hash c ms (\<lambda>k _. with_store (GetAppStateMutationMAC (pi_Type info) k)) hs p0 = (Inr st, p1)"
    and "patch = \<lparr>sp_Version = 0, sp_Mutations = ms, sp_ExternalMutations = None,
      sp_SnapshotMAC = generateSnapshotMAC c (pi_Type info) (ek_SnapshotMAC keys) (st\<lparr>hs_Version := hs_Version st + 1\<rparr>),
      sp_PatchMAC = mac, sp_KeyID = Some keyID\<rparr>"
    and "generatePatchMAC c patch (pi_Type info) (ek_PatchMAC keys) (hs_Version st + 1) = Inr mac"
  using assms unfolding build_patch_def Let_def
  by (auto simp: sbind_eq_Inr generatePatchMAC_def)

definition sent_at :: "int \<Rightarrow> PatchInfo \<Rightarrow> int" where
  "sent_at now info =
     (if time_IsZero (pi_Timestamp info) then now div 1000000 else time_millis (pi_Timestamp info))"

lemma build_patch_accepted:
  assumes crypt: "aes_correct c" "sha_correct c" "hkdf_correct c" and cd: "codec_correct cd"
    and sync: "synced c (proc_Store p) (pi_Type info) hs" and lt: "hs_Version hs < hs_Version hs + 1"
    and ans: "proc_answers p" and kept: "\<forall>mi \<in> set (pi_Mutations info). index_kept cd (mi_Index mi)"
    and build: "build_patch c cd rnd now keyID hs info p = (Inr patch, p1)"
    and dist: "distinct (map (\<lambda>m. sr_Index (sm_Record m)) (sp_Mutations patch))"
  shows "\<exists>mus hs' p2. decode_patch c cd (pi_Type info) True (patch\<lparr>sp_Version := hs_Version hs + 1\<rparr>) ([], hs) p1 = (Inr (mus, hs'), p2) \<and>
     list_all2 (decoded (sent_at now info) (hs_Version hs + 1)) (pi_Mutations info) mus \<and>
     synced c (proc_Store p2) (pi_Type info) hs'"
proof -
  let ?n = "pi_Type info" and ?v = "hs_Version hs + 1"
  obtain keys p0 ms st mac where
    key: "getAppStateKey c keyID p = (Inr keys, p0)"
    and enc: "encode_mutations c cd keys keyID (sent_at now info) rnd 0 (pi_Mutations info) = Inr ms"
    and upd: "update_hash c ms (\<lambda>k _. with_store (GetAppStateMutationMAC ?n k)) hs p0 = (Inr st, p1)"
    and patch: "patch = \<lparr>sp_Version = 0, sp_Mutations = ms, sp_ExternalMutations = None,
      sp_SnapshotMAC = generateSnapshotMAC c ?n (ek_SnapshotMAC keys) (st\<lparr>hs_Version := hs_Version st + 1\<rparr>),
      sp_PatchMAC = mac, sp_KeyID = Some keyID\<rparr>"
    and mac: "generatePatchMAC c patch ?n (ek_PatchMAC keys) (hs_Version st + 1) = Inr mac"
    using build_patch_Inr [OF build] unfolding sent_at_def by metis
  have encs: "list_all2 (encodes c cd keys keyID (sent_at now info)) (pi_Mutations info) ms"
    by (rule encode_mutations_encodes [OF crypt(1, 2) cd kept enc])
  have len: "\<forall>m \<in> set ms. 32 \<le> length (sr_Value (sm_Record m)) \<and> length (sr_Index (sm_Record m)) = 32"
    using encs by (auto simp: list_all2_conv_all_nth encodes_def in_set_conv_nth)
  have dist': "distinct (map (\<lambda>m. sr_Index (sm_Record m)) ms)" using dist by (simp add: patch)
  have t0: "same_tables (proc_Store p) (proc_Store p0)" by (rule getAppStateKey_keeps(1) [OF key])
  let ?t = "current_mac (proc_Store p) ?n"
  have cm0: "current_mac (proc_Store p0) ?n = ?t" by (simp add: same_tables_views(1) [OF t0])
  have h: "hs_Hash hs = lt_digest c (entries ?t)" using sync by (simp add: synced_def)
  have st: "st = hs\<lparr>hs_Hash := lt_digest c (entries (tab_apply ?t (map mut_op ms)))\<rparr>" and u1: "unchanged p0 p1"
    using update_hash_table [OF store_prev_answers [OF dist'] crypt(3) _ upd] h by (simp_all add: cm0)
  have cache: "keyCache p1 (RawStdEncoding keyID) = Some keys"
    using getAppStateKey_caches [OF key] u1 by (simp add: unchanged_def)
  have t1: "same_tables (proc_Store p) (proc_Store p1)" using t0 u1 same_tables_trans unfolding unchanged_def by blast
  then have ans1: "proc_answers p1" and cm1: "current_mac (proc_Store p1) ?n = ?t"
    using ans by (simp_all add: proc_answers_same same_tables_views(1))
  have l128: "length (hs_Hash (hs\<lparr>hs_Version := ?v\<rparr>)) = 128" by (simp add: h lt_digest_lane)
  have prev: "\<exists>r s'. patch_prev ?n ms k i s = (Inr r, s') \<and> proc_answers s'" if "i < length ms" "proc_answers s" for k i s
    using patch_prev_ok len that by blast
  obtain h2 p2 where upd2: "update_hash c ms (patch_prev ?n ms) (hs\<lparr>hs_Version := ?v\<rparr>) p1 = (Inr h2, p2)"
    and ans2: "proc_answers p2"
    using update_hash_ok [of ms proc_answers "patch_prev ?n ms", OF prev _ ans1 crypt(3) l128] len by blast
  have h2: "h2 = st\<lparr>hs_Version := ?v\<rparr>" and u2: "unchanged p1 p2"
    using update_hash_table [OF patch_prev_answers crypt(3) _ upd2] h by (simp_all add: cm1 st)
  have key2: "getAppStateKey c keyID p2 = (Inr keys, p2)"
    using cached_key cache u2 by (simp add: unchanged_def)
  have "generatePatchMAC c (patch\<lparr>sp_Version := ?v\<rparr>) ?n (ek_PatchMAC keys) ?v = Inr mac"
    using mac by (simp add: generatePatchMAC_def st)
  moreover have "sp_SnapshotMAC (patch\<lparr>sp_Version := ?v\<rparr>) = generateSnapshotMAC c ?n (ek_SnapshotMAC keys) h2"
    by (simp add: patch h2 st)
  ultimately have val: "validatePatch c ?n (patch\<lparr>sp_Version := ?v\<rparr>) hs True p1 = (Inr h2, p2)"
    using upd2 key2 by (simp add: validatePatch_def validateSnapshotMAC_def Let_def patch)
  have hv: "hs_Version h2 = ?v" "length (hs_Hash h2) = 128" by (simp_all add: h2 st lt_digest_lane)
  have cache2: "keyCache p2 (RawStdEncoding keyID) = Some keys" using cache u2 by (simp add: unchanged_def)
  from decode_encoded [OF encs cache2, of 0 ?v "no_output []"] obtain out mus where
    dec: "decodeMutations_loop c cd 0 ms True ?v Map.empty (no_output []) p2 = (Inr out, p2)"
    and added: "AddedMACs out = map (\<lambda>m. \<lparr>mm_IndexMAC = sr_Index (sm_Record m),
       mm_ValueMAC = drop (length (sr_Value (sm_Record m)) - 32) (sr_Value (sm_Record m))\<rparr>) ms"
    and mus: "out_Mutations out = mus" "list_all2 (decoded (sent_at now info) ?v) (pi_Mutations info) mus"
    by (auto simp: no_output_def)
  have t2: "same_tables (proc_Store p) (proc_Store p2)" using t1 u2 same_tables_trans unfolding unchanged_def by blast
  have "db_ok (proc_Store p2)" "below (proc_Store p2) ?n (hs_Version h2)"
    using sync lt same_tables_views [OF t2] by (simp_all add: synced_def hv)
  then obtain p3 where "storeMACs ?n h2 out p2 = (Inr (), p3)"
    using storeMACs_ok [OF ans2 _ _ hv(2), of ?n out] dist' len by (auto simp: added comp_def)
  with val dec mus have run: "decode_patch c cd ?n True (patch\<lparr>sp_Version := ?v\<rparr>) ([], hs) p1 = (Inr (mus, h2), p3)"
    by (simp add: decode_patch_def decodeMutations_def patch hv)
  have "synced c (proc_Store p1) ?n hs" using sync synced_same [OF t1] by simp
  from decode_patch_synced(1) [OF crypt(3) this _ run] lt have "synced c (proc_Store p3) ?n h2" by simp
  with run mus(2) show ?thesis by blast
qed

end
