(* ===== verification/AppSync.thy ===== *)
theory AppSync
  imports AppEncode
begin

text \<open>
  The app state components together: applying patch lists keeps the saved hash equal to the hash of
  the saved MACs, everything returned is authenticated by keys of the store, an encoded patch is
  accepted and decoded to what was put in, and what happens when saving fails half way.
\<close>

section \<open>A processor with one key\<close>

lemma expand_ok:
  assumes "hkdf_correct c"
  obtains keys where "expandAppStateKeys c d = Inr keys" and "length (ek_ValueEncryption keys) = 32"
proof -
  have "length (hkdf_sha256 c d [] (bytes_of_string ''WhatsApp Mutation Keys'') 160) = 160"
    using assms by (simp add: hkdf_correct_def)
  then show ?thesis
    using that by (simp add: expandAppStateKeys_def hkdf_SHA256_ok [OF assms])
qed

definition marshals :: "sync_codec \<Rightarrow> int \<Rightarrow> MutationInfo \<Rightarrow> bool" where
  "marshals cd ts mi \<longleftrightarrow>
     (\<exists>ib. marshal_index cd (mi_Index mi) = Some ib \<and>
        marshal_action cd \<lparr>sad_Index = ib, sad_Value = Some (stamped ts mi), sad_Padding = [], sad_Version = mi_Version mi\<rparr> \<noteq> None)"

lemma encode_mutations_ok:
  assumes "length (ek_ValueEncryption keys) = 32" and "\<And>i. \<exists>iv. rnd i = Some iv \<and> length iv = 16"
  shows "\<forall>mi \<in> set mis. marshals cd ts mi \<Longrightarrow> \<exists>ms. encode_mutations c cd keys keyID ts rnd i mis = Inr ms"
proof (induction mis arbitrary: i)
  case (Cons mi mis)
  from Cons.prems have "marshals cd ts mi" by simp
  then obtain ib content where m: "marshal_index cd (mi_Index mi) = Some ib"
    "marshal_action cd \<lparr>sad_Index = ib, sad_Value = Some (stamped ts mi), sad_Padding = [], sad_Version = mi_Version mi\<rparr> = Some content"
    by (auto simp: marshals_def)
  obtain iv where iv: "rnd i = Some iv" "length iv = 16" using assms(2) by blast
  have "aes_key (ek_ValueEncryption keys)" using assms(1) by (simp add: aes_key_def)
  from cbc_Encrypt_eq [OF this iv(2), of c None content] obtain e where
    "cbc_Encrypt c (rnd i) (ek_ValueEncryption keys) None content = Inr e"
    using iv by (auto simp: cbc_Encrypt_def new_cbc_def block_size_def Let_def split_beta split: if_splits)
  with m obtain x where "encode_mutation c cd keys keyID ts (rnd i) mi = Inr x"
    by (simp add: encode_mutation_def stamped_def Let_def)
  moreover obtain ms where "encode_mutations c cd keys keyID ts rnd (Suc i) mis = Inr ms"
    using Cons.IH [of "Suc i"] Cons.prems by auto
  ultimately show ?case by simp
qed simp

lemma value_macs_ok: "\<forall>m \<in> set ms. 32 \<le> length (sr_Value (sm_Record m)) \<Longrightarrow> \<exists>vs. value_macs ms = Inr vs"
  by (induction ms) (auto simp: last32_def)

lemma encode_mutations_values:
  assumes "sha_correct c"
  shows "encode_mutations c cd keys keyID ts rnd i mis = Inr ms \<Longrightarrow> \<forall>m \<in> set ms. 32 \<le> length (sr_Value (sm_Record m))"
proof (induction mis arbitrary: i ms)
  case (Cons mi mis)
  from Cons.prems obtain m ms' where m: "encode_mutation c cd keys keyID ts (rnd i) mi = Inr m"
    "encode_mutations c cd keys keyID ts rnd (Suc i) mis = Inr ms'" "ms = m # ms'"
    by (auto simp: rbind_eq_Inr)
  from m(1) obtain e k where "sr_Value (sm_Record m) = e @ generateContentMAC c SyncdMutation_SET e keyID k"
    by (auto simp: encode_mutation_def Let_def split: option.splits sum.splits)
  with assms have "32 \<le> length (sr_Value (sm_Record m))"
    by (simp add: generateContentMAC_def concatAndHMAC_def sha_correct_def Let_def)
  with Cons.IH [OF m(2)] m(3) show ?case by simp
qed simp

lemma store_prev_ok:
  "proc_answers s \<Longrightarrow> \<exists>r s'. with_store (GetAppStateMutationMAC name k) s = (Inr r, s') \<and> proc_answers s'"
  by (simp add: with_store_def GetAppStateMutationMAC_def sql_query_def proc_answers_def answering_def)

lemma build_patch_ok:
  assumes "hkdf_correct c" and "sha_correct c" and "proc_answers p" and "length (hs_Hash hs) = 128"
    and "map_of (sync_keys (proc_Store p)) keyID = Some kd" and "keyCache p = Map.empty"
    and "\<And>i. \<exists>iv. rnd i = Some iv \<and> length iv = 16"
    and "\<forall>mi \<in> set (pi_Mutations info). marshals cd (sent_at now info) mi"
  shows "\<exists>patch p1. build_patch c cd rnd now keyID hs info p = (Inr patch, p1)"
proof -
  obtain keys where keys: "expandAppStateKeys c (sk_Data kd) = Inr keys" "length (ek_ValueEncryption keys) = 32"
    using expand_ok [OF assms(1)] by blast
  let ?p0 = "\<lparr>keyCache = [RawStdEncoding keyID \<mapsto> keys], proc_Store = tick (proc_Store p)\<rparr>"
  have key: "getAppStateKey c keyID p = (Inr keys, ?p0)"
    using assms(3, 5, 6) keys(1)
    by (cases p) (simp add: getAppStateKey_def sbind_def with_store_def GetAppStateSyncKey_def sql_query_def proc_answers_def answering_def)
  obtain ms where ms: "encode_mutations c cd keys keyID (sent_at now info) rnd 0 (pi_Mutations info) = Inr ms"
    using encode_mutations_ok [where rnd = rnd, OF keys(2) assms(7, 8)] by blast
  note vals = encode_mutations_values [OF assms(2) ms]
  have "proc_answers ?p0" using assms(3) by (simp add: proc_answers_def)
  then obtain st p1 where
    "update_hash c ms (\<lambda>k _. with_store (GetAppStateMutationMAC (pi_Type info) k)) hs ?p0 = (Inr st, p1)"
    using update_hash_ok [of ms proc_answers "\<lambda>k _. with_store (GetAppStateMutationMAC (pi_Type info) k)" ?p0 c hs]
      store_prev_ok vals assms(1, 4) by blast
  moreover obtain vs where "value_macs ms = Inr vs" using value_macs_ok [OF vals] by blast
  ultimately show ?thesis
    using key ms by (simp add: build_patch_def sent_at_def Let_def generatePatchMAC_def)
qed

section \<open>A sample\<close>

definition sample_info :: PatchInfo where
  "sample_info = BuildPin (NewJID ''1'' ''s.whatsapp.net'') True"

definition sample_action :: SyncActionData where
  "sample_action = \<lparr>sad_Index = [3], sad_Value = Some (stamped 0 (newPinMutationInfo (NewJID ''1'' ''s.whatsapp.net'') True)),
     sad_Padding = [], sad_Version = 5\<rparr>"

text \<open>A codec for the one action, its index, and one patch.\<close>

definition sample_codec :: "SyncdPatch option \<Rightarrow> sync_codec" where
  "sample_codec patch =
     \<lparr>unmarshal_action = (\<lambda>b. if b = [1] then Some sample_action else None),
      marshal_action = (\<lambda>a. if a = sample_action then Some [1] else None),
      unmarshal_patch = (\<lambda>b. if b = [2] then patch else None),
      marshal_patch = (\<lambda>p. if patch = Some p then Some [2] else None),
      unmarshal_snapshot = (\<lambda>b. None), unmarshal_mutations = (\<lambda>b. None), unmarshal_blobref = (\<lambda>b. None),
      unmarshal_index = (\<lambda>b. if b = [3] then Some (mi_Index (newPinMutationInfo (NewJID ''1'' ''s.whatsapp.net'') True)) else None),
      marshal_index = (\<lambda>ix. if ix = mi_Index (newPinMutationInfo (NewJID ''1'' ''s.whatsapp.net'') True) then Some [3] else None)\<rparr>"

definition sample_proc :: Processor where
  "sample_proc = NewProcessor ((empty_app_db (\<lambda>_. False))
     \<lparr>sync_keys := [([1], \<lparr>sk_Data = [5], sk_Fingerprint = [], sk_Timestamp = 0\<rparr>)]\<rparr>)"

definition initial_state :: HashState where
  "initial_state = \<lparr>hs_Version = 0, hs_Hash = replicate 128 0\<rparr>"

lemma sample_codec_correct: "codec_correct (sample_codec patch)"
  by (auto simp: codec_correct_def sample_codec_def split: if_splits)

lemma sample_kept: "\<forall>mi \<in> set (pi_Mutations sample_info). index_kept (sample_codec patch) (mi_Index mi)"
  by (auto simp: index_kept_def sample_codec_def split: if_splits)

lemma sample_synced: "synced c (proc_Store sample_proc) name initial_state"
proof -
  have "current_mac (proc_Store sample_proc) name = Map.empty"
    by (rule ext) (simp add: current_mac_def sample_proc_def NewProcessor_def empty_app_db_def)
  then show ?thesis
    by (simp add: synced_def initial_state_def lt_digest_empty db_ok_def amap_def unique_rows_def below_def
        sample_proc_def NewProcessor_def empty_app_db_def)
qed

lemma sample_proc_simps:
  "proc_answers sample_proc" "keyCache sample_proc = Map.empty"
  "map_of (sync_keys (proc_Store sample_proc)) [1] = Some \<lparr>sk_Data = [5], sk_Fingerprint = [], sk_Timestamp = 0\<rparr>"
  "cache_ok c sample_proc"
  by (simp_all add: proc_answers_def answering_def sample_proc_def NewProcessor_def empty_app_db_def cache_ok_def)

lemma sample_built:
  obtains patch p1 where "build_patch plain_crypto (sample_codec q) (\<lambda>_. Some (replicate 16 7)) 0 [1] initial_state sample_info sample_proc = (Inr patch, p1)"
proof -
  have "\<forall>mi \<in> set (pi_Mutations sample_info). marshals (sample_codec q) (sent_at 0 sample_info) mi"
    by (simp add: sample_info_def BuildPin_def patch_info_def marshals_def sample_codec_def sent_at_def time_IsZero_def
        sample_action_def newPinMutationInfo_def)
  with build_patch_ok [OF plain_crypto_correct(3, 4) sample_proc_simps(1) _ sample_proc_simps(3, 2), of initial_state
      "\<lambda>_. Some (replicate 16 7)" sample_info "sample_codec q" 0] that
  show thesis by (auto simp: initial_state_def)
qed

lemma sample_distinct:
  "build_patch plain_crypto (sample_codec q) rnd 0 [1] initial_state sample_info sample_proc = (Inr patch, p1) \<Longrightarrow>
   distinct (map (\<lambda>m. sr_Index (sm_Record m)) (sp_Mutations patch))"
  by (erule build_patch_Inr) (auto simp: sample_info_def BuildPin_def patch_info_def rbind_eq_Inr)

lemma build_patch_codec:
  "build_patch c (sample_codec q) rnd now keyID hs info = build_patch c (sample_codec r) rnd now keyID hs info"
proof -
  have "encode_mutations c (sample_codec q) keys k ts rnd i mis = encode_mutations c (sample_codec r) keys k ts rnd i mis" for keys k ts i mis
    by (induction mis arbitrary: i) (simp_all add: encode_mutation_def sample_codec_def)
  then show ?thesis by (simp add: build_patch_def)
qed

section \<open>An encoded patch is accepted\<close>

abbreviation one_patch :: "string \<Rightarrow> SyncdPatch \<Rightarrow> PatchList" where
  "one_patch name patch \<equiv> \<lparr>pl_Name = name, pl_HasMorePatches = False, pl_Patches = [patch], pl_Snapshot = None\<rparr>"

lemma EncodePatch_Inr:
  assumes "EncodePatch c cd rnd now keyID hs info p = (Inr b, p1)" and "codec_correct cd"
  obtains patch where "build_patch c cd rnd now keyID hs info p = (Inr patch, p1)" and "unmarshal_patch cd b = Some patch"
  using assms by (auto simp: EncodePatch_def codec_correct_def sbind_eq_Inr split: option.splits)

lemma DecodePatches_one:
  "decode_patch c cd name validate patch ([], hs) p = (Inr r, p') \<Longrightarrow>
   DecodePatches c cd (one_patch name patch) hs validate p = (Inr r, p')"
  by (cases r) (simp add: DecodePatches_def)

text \<open>
  C21: a patch encoded against the saved state is, once the server has numbered it, accepted by the
  decoder in that state with all MACs checked; the mutations decoded are those that were built, with
  the time of sending, and the new state is saved consistently. The indexes of the patch must differ.
\<close>

theorem appstate_roundtrip:
  assumes "aes_correct c" and "sha_correct c" and "hkdf_correct c" and "codec_correct cd"
    and "synced c (proc_Store p) (pi_Type info) hs" and "hs_Version hs < hs_Version hs + 1"
    and "proc_answers p" and "\<forall>mi \<in> set (pi_Mutations info). index_kept cd (mi_Index mi)"
    and "EncodePatch c cd rnd now keyID hs info p = (Inr b, p1)" and "unmarshal_patch cd b = Some patch"
    and "distinct (map (\<lambda>m. sr_Index (sm_Record m)) (sp_Mutations patch))"
  shows "\<exists>mus hs' p2.
     DecodePatches c cd (one_patch (pi_Type info) (patch\<lparr>sp_Version := hs_Version hs + 1\<rparr>)) hs True p1 = (Inr (mus, hs'), p2) \<and>
     list_all2 (decoded (sent_at now info) (hs_Version hs + 1)) (pi_Mutations info) mus \<and>
     synced c (proc_Store p2) (pi_Type info) hs'"
proof -
  obtain patch' where build: "build_patch c cd rnd now keyID hs info p = (Inr patch', p1)" "unmarshal_patch cd b = Some patch'"
    by (rule EncodePatch_Inr [OF assms(9, 4)])
  then have "patch' = patch" using assms(10) by simp
  with build_patch_accepted [OF assms(1-8) build(1)] assms(11) obtain mus hs' p2 where
    "decode_patch c cd (pi_Type info) True (patch\<lparr>sp_Version := hs_Version hs + 1\<rparr>) ([], hs) p1 = (Inr (mus, hs'), p2)"
    "list_all2 (decoded (sent_at now info) (hs_Version hs + 1)) (pi_Mutations info) mus"
    "synced c (proc_Store p2) (pi_Type info) hs'" by blast
  with DecodePatches_one show ?thesis by blast
qed

theorem appstate_roundtrip_witness:
  "\<exists>cd b p1 patch mus hs' p2.
     EncodePatch plain_crypto cd (\<lambda>_. Some (replicate 16 7)) 0 [1] initial_state sample_info sample_proc = (Inr b, p1) \<and>
     unmarshal_patch cd b = Some patch \<and>
     DecodePatches plain_crypto cd (one_patch ''regular_low'' (patch\<lparr>sp_Version := 1\<rparr>)) initial_state True p1 = (Inr (mus, hs'), p2) \<and>
     list_all2 (decoded 0 1) (pi_Mutations sample_info) mus \<and> synced plain_crypto (proc_Store p2) ''regular_low'' hs'"
proof -
  let ?rnd = "\<lambda>_ :: nat. Some (replicate 16 7) :: bytes option"
  obtain patch p1 where b0: "build_patch plain_crypto (sample_codec None) ?rnd 0 [1] initial_state sample_info sample_proc = (Inr patch, p1)"
    by (rule sample_built)
  let ?cd = "sample_codec (Some patch)"
  have b: "build_patch plain_crypto ?cd ?rnd 0 [1] initial_state sample_info sample_proc = (Inr patch, p1)"
    using b0 build_patch_codec [of plain_crypto "None" ?rnd 0 "[1]" initial_state sample_info "Some patch"] by simp
  have enc: "EncodePatch plain_crypto ?cd ?rnd 0 [1] initial_state sample_info sample_proc = (Inr [2], p1)"
    and un: "unmarshal_patch ?cd [2] = Some patch"
    by (simp_all add: EncodePatch_def b) (simp_all add: sample_codec_def)
  have ty: "pi_Type sample_info = ''regular_low''" "sent_at 0 sample_info = 0" "hs_Version initial_state = 0"
    by (simp_all add: sample_info_def BuildPin_def patch_info_def WAPatchRegularLow_def sent_at_def time_IsZero_def initial_state_def)
  from appstate_roundtrip [OF plain_crypto_correct(1, 4, 3) sample_codec_correct sample_synced _ sample_proc_simps(1) sample_kept enc un sample_distinct [OF b]]
  obtain mus hs' p2 where
    "DecodePatches plain_crypto ?cd (one_patch ''regular_low'' (patch\<lparr>sp_Version := 1\<rparr>)) initial_state True p1 = (Inr (mus, hs'), p2)"
    "list_all2 (decoded 0 1) (pi_Mutations sample_info) mus" "synced plain_crypto (proc_Store p2) ''regular_low'' hs'"
    by (auto simp: ty)
  with enc un show ?thesis by blast
qed

section \<open>Applying patch lists\<close>

text \<open>
  C20: when a patch list is applied to a collection whose saved hash is the hash of its saved MACs,
  with versions that increase, then the same holds of the state returned, that state is the one that
  was saved, and the snapshot MAC of the last patch authenticates exactly the table that was saved.
  A snapshot is applied to an empty collection only.
\<close>

theorem DecodePatches_consistent:
  assumes "hkdf_correct c" and "synced c (proc_Store p) (pl_Name list) hs" and "cache_ok c p"
    and "pl_Snapshot list = None \<or> current_mac (proc_Store p) (pl_Name list) = Map.empty"
    and "sorted_wrt (<) (hs_Version hs # list_versions list)"
    and "DecodePatches c cd list hs True p = (Inr (ms, hs'), p')"
  shows "synced c (proc_Store p') (pl_Name list) hs' \<and>
     (list_versions list \<noteq> [] \<longrightarrow> state_version (proc_Store p') (pl_Name list) = Some (hs_Version hs', hs_Hash hs')) \<and>
     (pl_Patches list \<noteq> [] \<longrightarrow>
        (\<exists>keys. key_of c (proc_Store p') (blob (sp_KeyID (last (pl_Patches list)))) keys \<and>
           sp_SnapshotMAC (last (pl_Patches list)) =
             generateSnapshotMAC c (pl_Name list) (ek_SnapshotMAC keys)
               \<lparr>hs_Version = hs_Version hs', hs_Hash = lt_digest c (entries (current_mac (proc_Store p') (pl_Name list)))\<rparr>))"
proof -
  note run = DecodePatches_run [OF assms(1, 2, 4, 5, 6)]
  have "hs' = \<lparr>hs_Version = hs_Version hs', hs_Hash = lt_digest c (entries (current_mac (proc_Store p') (pl_Name list)))\<rparr>"
    using run(1) by (cases hs') (simp add: synced_def)
  with run(5) [OF assms(3)] have "pl_Patches list \<noteq> [] \<longrightarrow>
      (\<exists>keys. key_of c (proc_Store p') (blob (sp_KeyID (last (pl_Patches list)))) keys \<and>
         sp_SnapshotMAC (last (pl_Patches list)) = generateSnapshotMAC c (pl_Name list) (ek_SnapshotMAC keys)
           \<lparr>hs_Version = hs_Version hs', hs_Hash = lt_digest c (entries (current_mac (proc_Store p') (pl_Name list)))\<rparr>)"
    unfolding macs_valid_def by metis
  with run(1, 2) show ?thesis by blast
qed

text \<open>A run of the decoder, from the sample.\<close>

lemma sample_run:
  "\<exists>cd p patch mus hs' p'. cache_ok plain_crypto p \<and> synced plain_crypto (proc_Store p) ''regular_low'' initial_state \<and>
     DecodePatches plain_crypto cd (one_patch ''regular_low'' (patch\<lparr>sp_Version := 1\<rparr>)) initial_state True p = (Inr (mus, hs'), p') \<and>
     mus \<noteq> []"
proof -
  let ?rnd = "\<lambda>_ :: nat. Some (replicate 16 7) :: bytes option" and ?cd = "sample_codec None"
  obtain patch p1 where b: "build_patch plain_crypto ?cd ?rnd 0 [1] initial_state sample_info sample_proc = (Inr patch, p1)"
    by (rule sample_built)
  obtain keys p0 ms st where key: "getAppStateKey plain_crypto [1] sample_proc = (Inr keys, p0)"
    and upd: "update_hash plain_crypto ms (\<lambda>k _. with_store (GetAppStateMutationMAC (pi_Type sample_info) k)) initial_state p0 = (Inr st, p1)"
    and ms: "sp_Mutations patch = ms"
    using build_patch_Inr [OF b] by (metis SyncdPatch.select_convs(2))
  have "synced plain_crypto (proc_Store p0) ''regular_low'' initial_state"
    using sample_synced synced_same [OF getAppStateKey_keeps(1) [OF key]] by simp
  then have h: "hs_Hash initial_state = lt_digest plain_crypto (entries (current_mac (proc_Store p0) (pi_Type sample_info)))"
    by (simp add: synced_def sample_info_def BuildPin_def patch_info_def WAPatchRegularLow_def)
  have d: "distinct (map (\<lambda>m. sr_Index (sm_Record m)) ms)" using sample_distinct [OF b] ms by simp
  have u: "unchanged p0 p1"
    by (rule update_hash_table(2) [OF store_prev_answers [OF d] plain_crypto_correct(3) h upd])
  have cache: "cache_ok plain_crypto p1"
    using getAppStateKey_keeps(2) [OF key sample_proc_simps(4)] u cache_ok_same unfolding unchanged_def by blast
  have sync: "synced plain_crypto (proc_Store p1) ''regular_low'' initial_state"
    using \<open>synced plain_crypto (proc_Store p0) ''regular_low'' initial_state\<close> u synced_same unfolding unchanged_def by blast
  have ty: "pi_Type sample_info = ''regular_low''" "hs_Version initial_state = 0" "pi_Mutations sample_info \<noteq> []"
    by (simp_all add: sample_info_def BuildPin_def patch_info_def WAPatchRegularLow_def initial_state_def)
  from build_patch_accepted [OF plain_crypto_correct(1, 4, 3) sample_codec_correct sample_synced _ sample_proc_simps(1) sample_kept b sample_distinct [OF b]]
  obtain mus hs' p2 where
    "decode_patch plain_crypto ?cd ''regular_low'' True (patch\<lparr>sp_Version := 1\<rparr>) ([], initial_state) p1 = (Inr (mus, hs'), p2)"
    "list_all2 (decoded (sent_at 0 sample_info) 1) (pi_Mutations sample_info) mus" by (auto simp: ty)
  moreover from this(2) ty(3) have "mus \<noteq> []" by auto
  ultimately show ?thesis using cache sync DecodePatches_one by blast
qed

theorem DecodePatches_consistent_witness:
  "\<exists>cd p patch mus hs' p'.
     DecodePatches plain_crypto cd (one_patch ''regular_low'' (patch\<lparr>sp_Version := 1\<rparr>)) initial_state True p = (Inr (mus, hs'), p') \<and>
     synced plain_crypto (proc_Store p') ''regular_low'' hs' \<and>
     state_version (proc_Store p') ''regular_low'' = Some (hs_Version hs', hs_Hash hs')"
proof -
  obtain cd p patch mus hs' p' where
    run: "cache_ok plain_crypto p" "synced plain_crypto (proc_Store p) ''regular_low'' initial_state"
      "DecodePatches plain_crypto cd (one_patch ''regular_low'' (patch\<lparr>sp_Version := 1\<rparr>)) initial_state True p = (Inr (mus, hs'), p')"
    using sample_run by blast
  from DecodePatches_consistent [OF plain_crypto_correct(3) _ run(1) _ _ run(3)] run(2)
  have "synced plain_crypto (proc_Store p') ''regular_low'' hs'"
    "state_version (proc_Store p') ''regular_low'' = Some (hs_Version hs', hs_Hash hs')"
    by (simp_all add: list_versions_def initial_state_def)
  with run(3) show ?thesis by blast
qed

section \<open>Everything returned is authenticated\<close>

definition authentic :: "crypto \<Rightarrow> sync_codec \<Rightarrow> app_db \<Rightarrow> Mutation \<Rightarrow> bool" where
  "authentic c cd db mu \<longleftrightarrow>
     (\<exists>keys iv e p act. key_of c db (blob (mu_KeyID mu)) keys \<and>
        mu_ValueMAC mu = generateContentMAC c (mu_Operation mu) (iv @ e) (blob (mu_KeyID mu)) (ek_ValueMAC keys) \<and>
        cbc_Decrypt c (ek_ValueEncryption keys) iv e = Inr p \<and> unmarshal_action cd p = Some act \<and>
        mu_IndexMAC mu = concatAndHMAC (hmac_sha256 c) (ek_Index keys) [sad_Index act] \<and>
        unmarshal_index cd (sad_Index act) = Some (mu_Index mu) \<and>
        mu_Action mu = sad_Value act \<and> mu_Version mu = sad_Version act)"

lemma authentic_keys: "sync_keys a = sync_keys b \<Longrightarrow> authentic c cd a = authentic c cd b"
  by (simp add: authentic_def key_of_def fun_eq_iff)

lemma record_mutations:
  "out_Mutations (record_mutation m ver fakes (k, v, index, act) out) = out_Mutations out @
     [\<lparr>mu_KeyID = sr_KeyID (sm_Record m), mu_Operation = sm_Operation m, mu_Action = sad_Value act, mu_Version = sad_Version act,
       mu_Index = index, mu_IndexMAC = k, mu_ValueMAC = v, mu_PatchVersion = ver\<rparr>]"
  by (cases "sm_Operation m") (auto simp: record_mutation_def Let_def AddMAC_def RemoveMAC_def split: option.splits)

lemma decodeMutations_authentic:
  "decodeMutations_loop c cd i ms True ver Map.empty out p = (Inr out', p') \<Longrightarrow> cache_ok c p \<Longrightarrow>
   \<forall>mu \<in> set (out_Mutations out). authentic c cd (proc_Store p) mu \<Longrightarrow>
   \<forall>mu \<in> set (out_Mutations out'). authentic c cd (proc_Store p) mu"
proof (induction ms arbitrary: i out p)
  case (Cons m ms)
  from Cons.prems(1) obtain dec p1 where
    d: "decodeMutation c cd m i True p = (Inr dec, p1)"
    and r: "decodeMutations_loop c cd (Suc i) ms True ver Map.empty (record_mutation m ver Map.empty dec out) p1 = (Inr out', p')"
    by (auto simp: sbind_eq_Inr)
  obtain k v index act where dec: "dec = (k, v, index, act)" by (cases dec) auto
  from d obtain keys where key: "getAppStateKey c (blob (sr_KeyID (sm_Record m))) p = (Inr keys, p1)"
    and content: "decode_content c cd keys m i True = Inr (k, v, index, act)"
    unfolding dec by (rule decodeMutation_Inr)
  have k: "key_of c (proc_Store p) (blob (sr_KeyID (sm_Record m))) keys"
    by (rule getAppStateKey_keeps(3) [OF key Cons.prems(2) refl])
  obtain iv e pt where "cbc_Decrypt c (ek_ValueEncryption keys) iv e = Inr pt" "unmarshal_action cd pt = Some act"
    "v = generateContentMAC c (sm_Operation m) (iv @ e) (blob (sr_KeyID (sm_Record m))) (ek_ValueMAC keys)"
    using decode_content_Inr(4) [OF content] by blast
  with k decode_content_Inr(2) [OF content refl] decode_content_Inr(3) [OF content TrueI]
  have "authentic c cd (proc_Store p) \<lparr>mu_KeyID = sr_KeyID (sm_Record m), mu_Operation = sm_Operation m, mu_Action = sad_Value act,
      mu_Version = sad_Version act, mu_Index = index, mu_IndexMAC = k, mu_ValueMAC = v, mu_PatchVersion = ver\<rparr>"
    unfolding authentic_def
    by (intro exI [of _ keys] exI [of _ iv] exI [of _ e] exI [of _ pt] exI [of _ act]) simp
  then have "\<forall>mu \<in> set (out_Mutations (record_mutation m ver Map.empty dec out)). authentic c cd (proc_Store p) mu"
    using Cons.prems(3) by (simp add: dec record_mutations)
  moreover have "authentic c cd (proc_Store p1) = authentic c cd (proc_Store p)"
    by (rule authentic_keys) (rule same_tables_views(5) [OF getAppStateKey_keeps(1) [OF key]])
  ultimately show ?case
    using Cons.IH [OF r getAppStateKey_keeps(2) [OF key Cons.prems(2)]] by simp
qed simp

text \<open>The operations leave the sync keys alone, and the cached keys stay those of the store.\<close>

definition keys_kept :: "crypto \<Rightarrow> Processor \<Rightarrow> Processor \<Rightarrow> bool" where
  "keys_kept c p p' \<longleftrightarrow> sync_keys (proc_Store p') = sync_keys (proc_Store p) \<and> (cache_ok c p \<longrightarrow> cache_ok c p')"

lemma keys_kept_refl [simp]: "keys_kept c p p"
  by (simp add: keys_kept_def)

lemma keys_kept_trans: "keys_kept c p q \<Longrightarrow> keys_kept c q r \<Longrightarrow> keys_kept c p r"
  by (simp add: keys_kept_def)

lemma keys_kept_store: "sync_keys db = sync_keys (proc_Store p) \<Longrightarrow> keys_kept c p (p\<lparr>proc_Store := db\<rparr>)"
  by (simp add: keys_kept_def cache_ok_def key_of_def)

lemma keys_kept_getAppStateKey: "getAppStateKey c k p = (r, p') \<Longrightarrow> keys_kept c p p'"
  using getAppStateKey_keeps(1, 2) same_tables_views(5) unfolding keys_kept_def by blast

lemma keys_kept_patch_prev: "patch_prev name ms k i p = (r, p') \<Longrightarrow> keys_kept c p p'"
  by (auto simp: patch_prev_def with_store_def GetAppStateMutationMAC_def sql_query_def slift_def intro!: keys_kept_store
      split: option.splits prod.splits sum.splits)

lemma keys_kept_hash_loop:
  assumes prev: "\<And>k j q r q'. getPrev k j q = (r, q') \<Longrightarrow> keys_kept c q q'"
  shows "updateHash_loop getPrev i ms (added, removed, w) p = ((w', Inr out), p') \<Longrightarrow> keys_kept c p p'"
proof (induction ms arbitrary: i added removed w p)
  case (Cons m ms)
  from Cons.prems show ?case
    by (rule updateHash_loop_step) (blast intro: keys_kept_trans prev dest: Cons.IH)
qed simp

lemma keys_kept_update_hash:
  assumes "\<And>k j q r q'. getPrev k j q = (r, q') \<Longrightarrow> keys_kept c q q'" and "update_hash c ms getPrev hs p = (Inr hs', p')"
  shows "keys_kept c p p'"
  using assms(2) keys_kept_hash_loop [OF assms(1)]
  by (auto simp: update_hash_def updateHash_def rbind_eq_Inr split: prod.splits)

lemma keys_kept_decodeMutations:
  "decodeMutations_loop c cd i ms validate ver fakes out p = (Inr out', p') \<Longrightarrow> keys_kept c p p'"
proof (induction ms arbitrary: i out p)
  case (Cons m ms)
  then obtain dec p1 where d: "decodeMutation c cd m i validate p = (Inr dec, p1)" and "keys_kept c p1 p'"
    by (auto simp: sbind_eq_Inr)
  moreover have "keys_kept c p p1"
    using d keys_kept_getAppStateKey by (auto simp: decodeMutation_def sbind_eq_Inr)
  ultimately show ?case by (blast intro: keys_kept_trans)
qed simp

lemma put_batches_keys: "sseq (putAppStateMutationMACs name v) css db = (r, db') \<Longrightarrow> sync_keys db' = sync_keys db"
proof (induction css arbitrary: db)
  case (Cons cs css)
  obtain q db1 where b: "putAppStateMutationMACs name v cs db = (q, db1)" by fastforce
  then have "sync_keys db1 = sync_keys db" by (auto simp: putAppStateMutationMACs_def sql_exec_def Let_def split: if_splits)
  with Cons b show ?case by (cases q) (auto simp: sbind_def)
qed simp

lemma PutMACs_keys: "PutAppStateMutationMACs name v ms db = (Inr u, db') \<Longrightarrow> sync_keys db' = sync_keys db"
  by (auto simp: PutAppStateMutationMACs_def DoTxn_def sql_exec_Inr sbind_eq_Inr dest: put_batches_keys
      split: if_splits prod.splits sum.splits)

lemma keys_kept_storeMACs: "storeMACs name hs out p = (Inr u, p') \<Longrightarrow> keys_kept c p p'"
  by (auto simp: storeMACs_def sbind_eq_Inr with_store_Inr intro!: keys_kept_store
      dest!: PutVersion_keys DeleteMACs_keys PutMACs_keys)

lemma keys_kept_validatePatch:
  assumes "validatePatch c name patch hs validate p = (Inr hs', p')"
  shows "keys_kept c p p'"
proof -
  from assms obtain st p1 where
    u: "update_hash c (sp_Mutations patch) (patch_prev name (sp_Mutations patch)) (hs\<lparr>hs_Version := sp_Version patch\<rparr>) p = (Inr st, p1)"
    and "p' = p1 \<or> (\<exists>keys. getAppStateKey c (blob (sp_KeyID patch)) p1 = (Inr keys, p'))"
    by (auto simp: validatePatch_def validateSnapshotMAC_def Let_def sbind_eq_Inr split: if_splits)
  then have "keys_kept c p1 p'" using keys_kept_getAppStateKey by auto
  with keys_kept_update_hash [OF keys_kept_patch_prev u] show ?thesis by (rule keys_kept_trans)
qed

section \<open>What the MACs of a list cover\<close>

definition patch_authentic :: "crypto \<Rightarrow> app_db \<Rightarrow> string \<Rightarrow> SyncdPatch \<Rightarrow> bool" where
  "patch_authentic c db name patch \<longleftrightarrow>
     (\<exists>keys. key_of c db (blob (sp_KeyID patch)) keys \<and>
        generatePatchMAC c patch name (ek_PatchMAC keys) (sp_Version patch) = Inr (sp_PatchMAC patch))"

definition snapshot_authentic :: "crypto \<Rightarrow> app_db \<Rightarrow> string \<Rightarrow> HashState \<Rightarrow> SyncdSnapshot \<Rightarrow> bool" where
  "snapshot_authentic c db name hs ss \<longleftrightarrow>
     (\<exists>keys macs h. key_of c db (blob (ss_KeyID ss)) keys \<and>
        value_macs (set_mutations (ss_Records ss)) = Inr macs \<and>
        SubtractThenAddInPlace c WAPatchIntegrity (hs_Hash hs) [] macs = Inr h \<and>
        ss_Mac ss = generateSnapshotMAC c name (ek_SnapshotMAC keys) \<lparr>hs_Version = ss_Version ss, hs_Hash = h\<rparr>)"

lemma authentic_list_keys:
  "sync_keys a = sync_keys b \<Longrightarrow> patch_authentic c a = patch_authentic c b"
  by (simp add: patch_authentic_def key_of_def fun_eq_iff)

lemma sret_eq_Inr: "sret x s = (Inr y, s') \<longleftrightarrow> y = x \<and> s' = s"
  by auto

lemma snapshot_hash_loop:
  "updateHash_loop (\<lambda>_ _. sret None) i (set_mutations recs) (added, removed, w) p = ((w', Inr (a, r)), p') \<Longrightarrow>
   \<exists>macs. value_macs (set_mutations recs) = Inr macs \<and> a = added @ macs \<and> r = removed \<and> p' = p"
proof (induction recs arbitrary: i added removed w)
  case Nil
  then show ?case by (simp add: set_mutations_def)
next
  case (Cons rec recs)
  let ?m = "\<lparr>sm_Operation = SyncdMutation_SET, sm_Record = rec\<rparr>"
  have "updateHash_loop (\<lambda>_ _. sret None) i (?m # set_mutations recs) (added, removed, w) p = ((w', Inr (a, r)), p')"
    using Cons.prems by (simp only: set_mutations_def list.map)
  then obtain prev s1 w1 where prev: "sret None p = (Inr prev, s1)"
    and len: "32 \<le> length (sr_Value rec)"
    and rest: "updateHash_loop (\<lambda>_ _. sret None) (Suc i) (set_mutations recs)
      (added @ (case snd (mut_op ?m) of None \<Rightarrow> [] | Some v \<Rightarrow> [v]),
       removed @ (case prev of None \<Rightarrow> [] | Some v \<Rightarrow> [v]), w1) s1 = ((w', Inr (a, r)), p')"
    by (rule updateHash_loop_step) auto
  from prev have "prev = None" "s1 = p" by simp_all
  with Cons.IH [of "Suc i" _ _ w1] rest len show ?case
    by (fastforce simp: set_mutations_def mut_op_def last32_def)
qed

lemma snapshot_update_hash:
  assumes "update_hash c (set_mutations recs) (\<lambda>_ _. sret None) hs p = (Inr hs', p')"
  shows "p' = p" and "\<exists>macs h. value_macs (set_mutations recs) = Inr macs \<and>
    SubtractThenAddInPlace c WAPatchIntegrity (hs_Hash hs) [] macs = Inr h \<and> hs' = hs\<lparr>hs_Hash := h\<rparr>"
proof -
  from assms obtain w a r h where
    loop: "updateHash_loop (\<lambda>_ _. sret None) 0 (set_mutations recs) ([], [], []) p = ((w, Inr (a, r)), p')"
    and h: "SubtractThenAddInPlace c WAPatchIntegrity (hs_Hash hs) r a = Inr h" "hs' = hs\<lparr>hs_Hash := h\<rparr>"
    by (auto simp: update_hash_def updateHash_def rbind_eq_Inr split: prod.splits)
  from snapshot_hash_loop [OF loop] h show "p' = p" "\<exists>macs h. value_macs (set_mutations recs) = Inr macs \<and>
      SubtractThenAddInPlace c WAPatchIntegrity (hs_Hash hs) [] macs = Inr h \<and> hs' = hs\<lparr>hs_Hash := h\<rparr>" by auto
qed

lemma validatePatch_authentic:
  assumes "validatePatch c name patch hs True p = (Inr hs', p')" and "cache_ok c p"
  shows "patch_authentic c (proc_Store p) name patch"
proof -
  from assms(1) obtain st p1 keys where
    u: "update_hash c (sp_Mutations patch) (patch_prev name (sp_Mutations patch)) (hs\<lparr>hs_Version := sp_Version patch\<rparr>) p = (Inr st, p1)"
    and key: "getAppStateKey c (blob (sp_KeyID patch)) p1 = (Inr keys, p')"
    and mac: "generatePatchMAC c patch name (ek_PatchMAC keys) (sp_Version patch) = Inr (sp_PatchMAC patch)"
    by (auto simp: validatePatch_def validateSnapshotMAC_def Let_def sbind_eq_Inr split: if_splits)
  have "keys_kept c p p1" by (rule keys_kept_update_hash [OF keys_kept_patch_prev u])
  with assms(2) have "cache_ok c p1" "sync_keys (proc_Store p1) = sync_keys (proc_Store p)" by (simp_all add: keys_kept_def)
  with getAppStateKey_keeps(3) [OF key _ refl] mac show ?thesis by (auto simp: patch_authentic_def key_of_def)
qed

lemma decode_save_authentic:
  assumes "decodeMutations c cd muts (no_output ms) True ver Map.empty p = (Inr out, p1)"
    and "storeMACs name hs out p1 = (Inr u, p')" and "cache_ok c p" and "\<forall>mu \<in> set ms. authentic c cd (proc_Store p) mu"
  shows "\<forall>mu \<in> set (out_Mutations out). authentic c cd (proc_Store p) mu" and "keys_kept c p p'"
  using decodeMutations_authentic [OF assms(1) [unfolded decodeMutations_def] assms(3)] assms(4)
    keys_kept_trans [OF keys_kept_decodeMutations [OF assms(1) [unfolded decodeMutations_def]] keys_kept_storeMACs [OF assms(2)]]
  by (simp_all add: no_output_def)

lemma decode_patches_authentic:
  "cache_ok c p \<Longrightarrow> \<forall>mu \<in> set ms. authentic c cd (proc_Store p) mu \<Longrightarrow>
   decode_patches c cd name True patches (ms, hs) p = (Inr (ms', hs'), p') \<Longrightarrow>
   (\<forall>mu \<in> set ms'. authentic c cd (proc_Store p) mu) \<and> (\<forall>patch \<in> set patches. patch_authentic c (proc_Store p) name patch)"
proof (induction patches arbitrary: ms hs p)
  case (Cons patch patches)
  from Cons.prems(3) obtain hs1 q out q1 p1 where
    v: "validatePatch c name patch hs True p = (Inr hs1, q)"
    and d: "decodeMutations c cd (sp_Mutations patch) (no_output ms) True (hs_Version hs1) Map.empty q = (Inr out, q1)"
    and st: "storeMACs name hs1 out q1 = (Inr (), p1)"
    and rest: "decode_patches c cd name True patches (out_Mutations out, hs1) p1 = (Inr (ms', hs'), p')"
    by (auto simp: decode_patch_def sbind_eq_Inr)
  have q: "sync_keys (proc_Store q) = sync_keys (proc_Store p)" "cache_ok c q"
    using keys_kept_validatePatch [OF v] Cons.prems(1) by (simp_all add: keys_kept_def)
  have "\<forall>mu \<in> set ms. authentic c cd (proc_Store q) mu" using Cons.prems(2) authentic_keys [OF q(1)] by simp
  note out = decode_save_authentic [OF d st q(2) this]
  then have p1: "sync_keys (proc_Store p1) = sync_keys (proc_Store p)" "cache_ok c p1" using q by (simp_all add: keys_kept_def)
  have "\<forall>mu \<in> set (out_Mutations out). authentic c cd (proc_Store p1) mu"
    using out(1) authentic_keys [OF q(1)] authentic_keys [OF p1(1)] by simp
  from Cons.IH [OF p1(2) this rest] validatePatch_authentic [OF v Cons.prems(1)] show ?case
    by (simp add: authentic_keys [OF p1(1)] authentic_list_keys [OF p1(1)])
qed simp

lemma decodeSnapshot_authentic:
  assumes "decodeSnapshot c cd name ss hs True [] p = (Inr (ms, hs'), p')" and "cache_ok c p"
  shows "\<forall>mu \<in> set ms. authentic c cd (proc_Store p) mu" and "snapshot_authentic c (proc_Store p) name hs ss" and "keys_kept c p p'"
proof -
  from assms(1) obtain st p0 keys q out q1 where
    u: "update_hash c (set_mutations (ss_Records ss)) (\<lambda>_ _. sret None) (hs\<lparr>hs_Version := ss_Version ss\<rparr>) p = (Inr st, p0)"
    and key0: "getAppStateKey c (blob (ss_KeyID ss)) p0 = (Inr keys, q)"
    and mac: "generateSnapshotMAC c name (ek_SnapshotMAC keys) st = ss_Mac ss"
    and d: "decodeMutations c cd (set_mutations (ss_Records ss)) (no_output []) True (hs_Version st) Map.empty q = (Inr out, q1)"
    and st: "storeMACs name st out q1 = (Inr (), p')" and ms: "ms = out_Mutations out"
    by (auto simp: decodeSnapshot_def validateSnapshotMAC_def Let_def sbind_eq_Inr sret_eq_Inr simp del: sret_app split: if_splits)
  note key = key0 [unfolded snapshot_update_hash(1) [OF u]]
  have q: "keys_kept c p q" by (rule keys_kept_getAppStateKey [OF key])
  then have q': "cache_ok c q" "sync_keys (proc_Store q) = sync_keys (proc_Store p)" using assms(2) by (simp_all add: keys_kept_def)
  note out = decode_save_authentic [OF d st q'(1)]
  show "\<forall>mu \<in> set ms. authentic c cd (proc_Store p) mu" using out(1) by (simp add: ms authentic_keys [OF q'(2)])
  have "keys_kept c q p'" using out(2) by simp
  with q show "keys_kept c p p'" by (rule keys_kept_trans)
  show "snapshot_authentic c (proc_Store p) name hs ss"
    using snapshot_update_hash(2) [OF u] getAppStateKey_keeps(3) [OF key assms(2) refl] mac
    unfolding snapshot_authentic_def by (cases hs) auto
qed

text \<open>
  C22: when a list is applied with its MACs checked, every mutation it returns, from the snapshot or
  from a patch, was encrypted and authenticated with a key of the store: its value MAC is that of the
  ciphertext it was decrypted from, under the key it names and for the operation it has, its index MAC
  is that of the index it carries, and its content is the decrypted one. The MAC of every patch of the
  list covers its value MACs, and the MAC of the snapshot covers the hash of its records. Nothing is
  asked of the tables, the versions or the saved hash; the keys cached are keys of the store.
\<close>

theorem DecodePatches_authentic:
  assumes "cache_ok c p" and "DecodePatches c cd list hs True p = (Inr (ms, hs'), p')"
  shows "(\<forall>mu \<in> set ms. authentic c cd (proc_Store p) mu) \<and>
     (\<forall>patch \<in> set (pl_Patches list). patch_authentic c (proc_Store p) (pl_Name list) patch) \<and>
     (\<forall>ss. pl_Snapshot list = Some ss \<longrightarrow> snapshot_authentic c (proc_Store p) (pl_Name list) hs ss)"
proof (cases "pl_Snapshot list")
  case None
  with assms(2) have "decode_patches c cd (pl_Name list) True (pl_Patches list) ([], hs) p = (Inr (ms, hs'), p')"
    by (simp add: DecodePatches_def)
  from decode_patches_authentic [OF assms(1) _ this] None show ?thesis by simp
next
  case (Some ss)
  with assms(2) obtain ms1 hs1 p1 where s: "decodeSnapshot c cd (pl_Name list) ss hs True [] p = (Inr (ms1, hs1), p1)"
    and rest: "decode_patches c cd (pl_Name list) True (pl_Patches list) (ms1, hs1) p1 = (Inr (ms, hs'), p')"
    by (auto simp: DecodePatches_def sbind_eq_Inr)
  note snap = decodeSnapshot_authentic [OF s assms(1)]
  then have p1: "sync_keys (proc_Store p1) = sync_keys (proc_Store p)" "cache_ok c p1" using assms(1) by (simp_all add: keys_kept_def)
  from decode_patches_authentic [OF p1(2) _ rest] snap(1, 2) Some show ?thesis
    by (simp add: authentic_keys [OF p1(1)] authentic_list_keys [OF p1(1)])
qed

theorem DecodePatches_authentic_witness:
  "\<exists>cd p patch mus hs' p'.
     DecodePatches plain_crypto cd (one_patch ''regular_low'' (patch\<lparr>sp_Version := 1\<rparr>)) initial_state True p = (Inr (mus, hs'), p') \<and>
     mus \<noteq> [] \<and> authentic plain_crypto cd (proc_Store p) (hd mus) \<and>
     patch_authentic plain_crypto (proc_Store p) ''regular_low'' (patch\<lparr>sp_Version := 1\<rparr>)"
proof -
  obtain cd p patch mus hs' p' where
    run: "cache_ok plain_crypto p"
      "DecodePatches plain_crypto cd (one_patch ''regular_low'' (patch\<lparr>sp_Version := 1\<rparr>)) initial_state True p = (Inr (mus, hs'), p')"
      "mus \<noteq> []"
    using sample_run by blast
  from DecodePatches_authentic [OF run(1, 2)] run(3)
  have "authentic plain_crypto cd (proc_Store p) (hd mus)"
    "patch_authentic plain_crypto (proc_Store p) ''regular_low'' (patch\<lparr>sp_Version := 1\<rparr>)" by simp_all
  with run(2, 3) show ?thesis by blast
qed

section \<open>Saving that fails half way\<close>

text \<open>
  C36: saving a patch is not atomic. When a patch sets an index twice, the insertion of its MACs is
  refused as a whole after the new version and hash have been saved: the collection is then at the
  new version with the MACs of the old one, and its hash is not that of its MACs any more.
\<close>

theorem storeMACs_not_atomic:
  assumes "proc_answers p" and "db_ok (proc_Store p)" and "length (hs_Hash hs) = 128"
    and "RemovedMACs out = []" and "\<not> distinct (map mm_IndexMAC (AddedMACs out))" and "length (AddedMACs out) \<le> 400"
    and "\<forall>m \<in> set (AddedMACs out). length (mm_IndexMAC m) = 32 \<and> length (mm_ValueMAC m) = 32"
  shows "\<exists>p'. storeMACs name hs out p = (Inl (StoreError UniqueViolation), p') \<and>
     state_version (proc_Store p') name = Some (hs_Version hs, hs_Hash hs) \<and>
     current_mac (proc_Store p') = current_mac (proc_Store p)"
proof -
  let ?db = "proc_Store p" and ?ms = "AddedMACs out"
  let ?db1 = "tick (?db\<lparr>state_version := (state_version ?db)(name \<mapsto> (hs_Version hs, hs_Hash hs))\<rparr>)"
  have ans: "answering ?db" using assms(1) by (simp add: proc_answers_def)
  have 1: "PutAppStateVersion name (hs_Version hs) (hs_Hash hs) ?db = (Inr (), ?db1)"
    by (rule PutVersion_ok [OF ans assms(3)])
  have 2: "DeleteAppStateMutationMACs name [] ?db1 = (Inr (), ?db1)" by (simp add: DeleteAppStateMutationMACs_def)
  have ne: "?ms \<noteq> []" using assms(5) by auto
  have "\<not> unique_rows (xs @ mac_rows name (hs_Version hs) ?ms)" for xs
    using assms(5) by (auto simp: unique_rows_def mac_rows_def row_key_def comp_def distinct_map inj_on_def)
  moreover have "\<not> list_ex (\<lambda>r. length (mr_index r) \<noteq> 32 \<or> length (mr_value r) \<noteq> 32) (mac_rows name (hs_Version hs) ?ms)"
    using assms(7) by (auto simp: list_ex_iff mac_rows_def)
  ultimately have "putAppStateMutationMACs name (hs_Version hs) ?ms (tick ?db1) = (Inl UniqueViolation, tick (tick ?db1))"
    using ans by (simp add: putAppStateMutationMACs_def sql_exec_def answering_def Let_def)
  moreover have "chunks mutationBatchSize ?ms = [?ms]"
    using ne assms(6) by (simp add: chunks.simps [of _ ?ms] chunks.simps [of _ "[]"])
  ultimately have "PutAppStateMutationMACs name (hs_Version hs) ?ms ?db1 =
      (Inl UniqueViolation, rolled_back ?db1 (tick (tick ?db1)))"
    using ans ne by (simp add: PutAppStateMutationMACs_def DoTxn_def sql_exec_def answering_def)
  with 1 2 assms(4) have "storeMACs name hs out p =
      (Inl (StoreError UniqueViolation), p\<lparr>proc_Store := rolled_back ?db1 (tick (tick ?db1))\<rparr>)"
    by (simp add: storeMACs_def with_store_def)
  then show ?thesis by (auto simp: current_mac_def fun_eq_iff)
qed

theorem storeMACs_not_atomic_witness:
  "\<exists>p'. storeMACs ''regular'' \<lparr>hs_Version = 1, hs_Hash = replicate 128 1\<rparr>
     \<lparr>RemovedMACs = [], AddedMACs = [\<lparr>mm_IndexMAC = replicate 32 1, mm_ValueMAC = replicate 32 1\<rparr>,
        \<lparr>mm_IndexMAC = replicate 32 1, mm_ValueMAC = replicate 32 2\<rparr>], out_Mutations = []\<rparr>
     (NewProcessor (empty_app_db (\<lambda>_. False))) = (Inl (StoreError UniqueViolation), p') \<and>
     state_version (proc_Store p') ''regular'' = Some (1, replicate 128 1) \<and>
     current_mac (proc_Store p') ''regular'' (replicate 32 1) = None"
proof -
  let ?p = "NewProcessor (empty_app_db (\<lambda>_. False))"
  have p: "proc_answers ?p" "db_ok (proc_Store ?p)" "current_mac (proc_Store ?p) n i = None" for n i
    by (simp_all add: proc_answers_def answering_def NewProcessor_def empty_app_db_def db_ok_def unique_rows_def current_mac_def)
  show ?thesis
    using storeMACs_not_atomic [OF p(1, 2), of "\<lparr>hs_Version = 1, hs_Hash = replicate 128 1\<rparr>"
        "\<lparr>RemovedMACs = [], AddedMACs = [\<lparr>mm_IndexMAC = replicate 32 1, mm_ValueMAC = replicate 32 1\<rparr>,
           \<lparr>mm_IndexMAC = replicate 32 1, mm_ValueMAC = replicate 32 2\<rparr>], out_Mutations = []\<rparr>" "''regular''"] p(3)
    by auto
qed

end
