(* ===== verification/Refinement.thy ===== *)
theory Refinement
  imports Prelude
begin

text \<open>
  Sequences of operations on a stateful component against an abstract specification. A step yields
  an answer, or \<open>None\<close> when it failed; a failed step must leave the abstract state alone. The locale
  \<open>op_refinement\<close> is the obligation for one step, and its lemma the refinement of whole runs; the
  stores and caches interpret it.
\<close>

fun run_ops :: "('o \<Rightarrow> 's \<Rightarrow> 'r option \<times> 's) \<Rightarrow> 'o list \<Rightarrow> 's \<Rightarrow> 'r option list \<times> 's" where
  "run_ops step [] s = ([], s)"
| "run_ops step (op # ops) s =
     (let (r, s) = step op s; (rs, s) = run_ops step ops s in (r # rs, s))"

text \<open>The answers of the specification, for a run whose failed operations are marked.\<close>

fun spec_ops :: "('o \<Rightarrow> 'a \<Rightarrow> 'r \<times> 'a) \<Rightarrow> 'o list \<Rightarrow> bool list \<Rightarrow> 'a \<Rightarrow> 'r option list \<times> 'a" where
  "spec_ops spec (op # ops) (failed # fs) a =
     (if failed then (let (rs, a) = spec_ops spec ops fs a in (None # rs, a))
      else (let (r, a) = spec op a; (rs, a) = spec_ops spec ops fs a in (Some r # rs, a)))"
| "spec_ops spec ops fs a = ([], a)"

text \<open>Every operation of the run starts in a state that meets its condition.\<close>

fun all_safe :: "('o \<Rightarrow> 's \<Rightarrow> bool) \<Rightarrow> ('o \<Rightarrow> 's \<Rightarrow> 'r option \<times> 's) \<Rightarrow> 'o list \<Rightarrow> 's \<Rightarrow> bool" where
  "all_safe safe step [] s \<longleftrightarrow> True"
| "all_safe safe step (op # ops) s \<longleftrightarrow> safe op s \<and> all_safe safe step ops (snd (step op s))"

lemma run_ops_append:
  "run_ops step (xs @ ys) s =
     (let (rs, s) = run_ops step xs s; (rs', s) = run_ops step ys s in (rs @ rs', s))"
  by (induction xs arbitrary: s) (auto simp: Let_def split: prod.splits)

locale op_refinement =
  fixes inv :: "'s \<Rightarrow> bool" and abs :: "'s \<Rightarrow> 'a" and safe :: "'o \<Rightarrow> 's \<Rightarrow> bool"
    and step :: "'o \<Rightarrow> 's \<Rightarrow> 'r option \<times> 's" and spec :: "'o \<Rightarrow> 'a \<Rightarrow> 'r \<times> 'a"
  assumes answered: "inv s \<Longrightarrow> safe op s \<Longrightarrow> step op s = (Some r, s') \<Longrightarrow> inv s' \<and> spec op (abs s) = (r, abs s')"
    and failed: "inv s \<Longrightarrow> safe op s \<Longrightarrow> step op s = (None, s') \<Longrightarrow> inv s' \<and> abs s' = abs s"
begin

lemma runs:
  assumes "inv s" and "all_safe safe step ops s" and "run_ops step ops s = (rs, s')"
  shows "inv s' \<and> spec_ops spec ops (map (\<lambda>r. r = None) rs) (abs s) = (rs, abs s')"
  using assms
proof (induction ops arbitrary: s rs)
  case (Cons op ops)
  obtain r s1 where 1: "step op s = (r, s1)" by fastforce
  obtain rs' where 2: "run_ops step ops s1 = (rs', s')" and rs: "rs = r # rs'"
    using Cons.prems(3) by (auto simp: 1 split: prod.splits)
  have safe: "safe op s" "all_safe safe step ops s1" using Cons.prems(2) by (simp_all add: 1)
  show ?case
  proof (cases r)
    case None
    with failed [OF Cons.prems(1) safe(1)] 1 have "inv s1" "abs s1 = abs s" by auto
    with Cons.IH [OF this(1) safe(2) 2] None rs show ?thesis by simp
  next
    case (Some a)
    with answered [OF Cons.prems(1) safe(1)] 1 have "inv s1" "spec op (abs s) = (a, abs s1)" by auto
    with Cons.IH [OF this(1) safe(2) 2] Some rs show ?thesis by simp
  qed
qed simp

end

end
