(* ===== verification/AppRuns.thy ===== *)
theory AppRuns
  imports AppStore Refinement
begin

text \<open>
  Runs of the app state tables against their specification: for every collection a saved version and
  hash and the current value MAC of every index, and the sync keys. The tables keep a row per version
  of an index, in batches and with foreign keys; the specification keeps one value per index.
\<close>

section \<open>Operations and answers\<close>

datatype app_op =
    OpPutKey bytes AppStateSyncKey | OpGetKey bytes
  | OpPutVersion string "64 word" bytes | OpGetVersion string | OpDeleteVersion string
  | OpPutMACs string "64 word" "AppStateMutationMAC list" | OpDeleteMACs string "bytes list" | OpGetMAC string bytes

datatype app_answer =
    AppDone | AppKey "AppStateSyncKey option" | AppVersion "64 word" bytes | AppMAC "bytes option"

definition app_answer :: "('a \<Rightarrow> app_answer) \<Rightarrow> 'a db_op \<Rightarrow> app_db \<Rightarrow> app_answer option \<times> app_db" where
  "app_answer f m db = (case m db of (Inl e, db) \<Rightarrow> (None, db) | (Inr x, db) \<Rightarrow> (Some (f x), db))"

fun app_step :: "app_op \<Rightarrow> app_db \<Rightarrow> app_answer option \<times> app_db" where
  "app_step (OpPutKey i k) = app_answer (\<lambda>_. AppDone) (PutAppStateSyncKey i k)"
| "app_step (OpGetKey i) = app_answer AppKey (GetAppStateSyncKey i)"
| "app_step (OpPutVersion n v h) = app_answer (\<lambda>_. AppDone) (PutAppStateVersion n v h)"
| "app_step (OpGetVersion n) = app_answer (\<lambda>(v, h). AppVersion v h) (GetAppStateVersion n)"
| "app_step (OpDeleteVersion n) = app_answer (\<lambda>_. AppDone) (DeleteAppStateVersion n)"
| "app_step (OpPutMACs n v ms) = app_answer (\<lambda>_. AppDone) (PutAppStateMutationMACs n v ms)"
| "app_step (OpDeleteMACs n is) = app_answer (\<lambda>_. AppDone) (DeleteAppStateMutationMACs n is)"
| "app_step (OpGetMAC n i) = app_answer AppMAC (GetAppStateMutationMAC n i)"

section \<open>Specification\<close>

record app_view =
  av_keys :: "bytes \<rightharpoonup> AppStateSyncKey"
  av_version :: "string \<rightharpoonup> 64 word \<times> bytes"
  av_macs :: "string \<Rightarrow> bytes \<rightharpoonup> bytes"

fun app_spec :: "app_op \<Rightarrow> app_view \<Rightarrow> app_answer \<times> app_view" where
  "app_spec (OpPutKey i k) a =
     (AppDone, case av_keys a i of
        Some old \<Rightarrow> if sk_Timestamp k > sk_Timestamp old then a\<lparr>av_keys := (av_keys a)(i \<mapsto> k)\<rparr> else a
      | None \<Rightarrow> a\<lparr>av_keys := (av_keys a)(i \<mapsto> k)\<rparr>)"
| "app_spec (OpGetKey i) a = (AppKey (av_keys a i), a)"
| "app_spec (OpPutVersion n v h) a = (AppDone, a\<lparr>av_version := (av_version a)(n \<mapsto> (v, h))\<rparr>)"
| "app_spec (OpGetVersion n) a =
     ((case av_version a n of None \<Rightarrow> AppVersion 0 (replicate 128 0) | Some (v, h) \<Rightarrow> AppVersion v h), a)"
| "app_spec (OpDeleteVersion n) a =
     (AppDone, a\<lparr>av_version := (av_version a)(n := None), av_macs := (av_macs a)(n := Map.empty)\<rparr>)"
| "app_spec (OpPutMACs n v ms) a = (AppDone, a\<lparr>av_macs := (av_macs a)(n := av_macs a n ++ mac_map ms)\<rparr>)"
| "app_spec (OpDeleteMACs n is) a =
     (AppDone, a\<lparr>av_macs := (av_macs a)(n := (\<lambda>i. if i \<in> set is then None else av_macs a n i))\<rparr>)"
| "app_spec (OpGetMAC n i) a = (AppMAC (av_macs a n i), a)"

definition app_view_of :: "app_db \<Rightarrow> app_view" where
  "app_view_of db = \<lparr>av_keys = map_of (sync_keys db), av_version = state_version db, av_macs = current_mac db\<rparr>"

text \<open>MACs are stored for a version newer than those of the collection's rows.\<close>

definition app_safe :: "app_op \<Rightarrow> app_db \<Rightarrow> bool" where
  "app_safe op db = (case op of OpPutMACs n v ms \<Rightarrow> list_all (\<lambda>r. mr_name r = n \<longrightarrow> mr_version r < v) (mutation_macs db) | _ \<Rightarrow> True)"

section \<open>Refinement\<close>

lemma app_answer_Some: "app_answer f m db = (Some a, db') \<longleftrightarrow> (\<exists>x. m db = (Inr x, db') \<and> a = f x)"
  by (auto simp: app_answer_def split: prod.splits sum.splits)

lemma app_answer_None: "app_answer f m db = (None, db') \<longleftrightarrow> (\<exists>e. m db = (Inl e, db'))"
  by (auto simp: app_answer_def split: prod.splits sum.splits)

lemma view_tick: "app_view_of (tick db) = app_view_of db"
  by (simp add: app_view_of_def)

lemma current_mac_drop:
  assumes "mutation_macs db' = filter (\<lambda>r. mr_name r \<noteq> n) (mutation_macs db)"
  shows "current_mac db' = (current_mac db)(n := Map.empty)"
proof (intro ext)
  fix m i
  show "current_mac db' m i = ((current_mac db)(n := Map.empty)) m i"
  proof (cases "m = n")
    case True
    then show ?thesis by (simp add: current_mac_def assms filter_empty_conv)
  next
    case False
    then have "filter (\<lambda>r. mr_name r = m \<and> mr_index r = i) (mutation_macs db') =
        filter (\<lambda>r. mr_name r = m \<and> mr_index r = i) (mutation_macs db)"
      by (auto simp: assms intro: filter_cong)
    with False show ?thesis by (simp add: current_mac_def)
  qed
qed

lemma app_step_answered:
  assumes "db_ok db" and "app_safe op db" and "app_step op db = (Some r, db')"
  shows "db_ok db' \<and> app_spec op (app_view_of db) = (r, app_view_of db')"
proof (cases op)
  case (OpPutKey i k)
  with assms(3) have run: "PutAppStateSyncKey i k db = (Inr (), db')" "r = AppDone" by (auto simp: app_answer_Some)
  have "db_ok db'" using db_ok_put_key [OF assms(1), of i k] run(1) by simp
  with run OpPutKey show ?thesis
    by (auto simp: PutAppStateSyncKey_def sql_exec_Inr app_view_of_def current_mac_def fun_eq_iff
        split: option.splits if_splits)
next
  case (OpGetKey i)
  with assms show ?thesis
    by (auto simp: app_answer_Some GetAppStateSyncKey_def sql_query_Inr view_tick) (simp_all add: app_view_of_def)
next
  case (OpPutVersion n v h)
  with assms(3) have run: "PutAppStateVersion n v h db = (Inr (), db')" "r = AppDone" by (auto simp: app_answer_Some)
  then have "sync_keys db' = sync_keys db" by (auto simp: PutAppStateVersion_def sql_exec_Inr split: if_splits)
  with app_store.putVersion_law [OF run(1) assms(1)] run(2) OpPutVersion show ?thesis by (simp add: app_view_of_def)
next
  case (OpGetVersion n)
  with assms(3) obtain v h where run: "GetAppStateVersion n db = (Inr (v, h), db')" and r: "r = AppVersion v h"
    by (auto simp: app_answer_Some)
  have db': "db' = tick db" using GetAppStateVersion_state [of n db] run by simp
  have "(case state_version db n of None \<Rightarrow> AppVersion 0 (replicate 128 0) | Some (v, h) \<Rightarrow> AppVersion v h) = r"
    using run r by (auto simp: GetAppStateVersion_def sbind_eq_Inr sql_query_Inr split: option.splits if_splits)
  then show ?thesis using assms(1) OpGetVersion by (simp add: db' view_tick) (simp add: app_view_of_def)
next
  case (OpDeleteVersion n)
  with assms(3) have db': "db' = tick (db\<lparr>state_version := (state_version db)(n := None),
      mutation_macs := filter (\<lambda>r. mr_name r \<noteq> n) (mutation_macs db)\<rparr>)" and r: "r = AppDone"
    by (auto simp: app_answer_Some DeleteAppStateVersion_def sql_exec_Inr)
  have "current_mac db' = (current_mac db)(n := Map.empty)" by (rule current_mac_drop) (simp add: db')
  moreover have "db_ok db'" using assms(1) by (auto simp: db' db_ok_def unique_rows_filter)
  ultimately show ?thesis using OpDeleteVersion r by (simp add: app_view_of_def) (simp add: db')
next
  case (OpPutMACs n v ms)
  with assms(3) have run: "PutAppStateMutationMACs n v ms db = (Inr (), db')" "r = AppDone" by (auto simp: app_answer_Some)
  have "below db n v" using assms(2) OpPutMACs by (simp add: app_safe_def below_def list_all_iff)
  note law = app_store.put_law [OF run(1) assms(1) this]
  then have "current_mac db' = (current_mac db)(n := current_mac db n ++ mac_map ms)" by (auto simp: fun_eq_iff)
  moreover have "sync_keys db' = sync_keys db"
    using PutMACs_Inr(4) [OF run(1)] assms(1) by (simp add: db_ok_def)
  ultimately show ?thesis using law run(2) OpPutMACs by (simp add: app_view_of_def)
next
  case (OpDeleteMACs n "is")
  with assms(3) have run: "DeleteAppStateMutationMACs n is db = (Inr (), db')" "r = AppDone" by (auto simp: app_answer_Some)
  then have "sync_keys db' = sync_keys db" by (auto simp: DeleteAppStateMutationMACs_def sql_exec_Inr split: if_splits)
  with app_store.delete_law [OF run(1) assms(1)] run(2) OpDeleteMACs show ?thesis
    by (simp add: app_view_of_def) (auto simp: fun_eq_iff)
next
  case (OpGetMAC n i)
  with assms show ?thesis
    by (auto simp: app_answer_Some GetAppStateMutationMAC_def sql_query_Inr view_tick) (simp_all add: app_view_of_def)
qed

lemma app_step_failed:
  assumes "db_ok db" and "app_step op db = (None, db')"
  shows "db_ok db' \<and> app_view_of db' = app_view_of db"
proof -
  have "sync_keys db' = sync_keys db \<and> state_version db' = state_version db \<and> mutation_macs db' = mutation_macs db"
  proof (cases op)
    case (OpGetVersion n)
    with assms(2) have "db' = tick db" using GetAppStateVersion_state [of n db] by (auto simp: app_answer_None)
    then show ?thesis by simp
  next
    case (OpPutMACs n v ms)
    with assms(2) PutMACs_Inl show ?thesis by (auto simp: app_answer_None)
  qed (use assms(2) in \<open>auto simp: app_answer_None PutAppStateSyncKey_def GetAppStateSyncKey_def PutAppStateVersion_def
      DeleteAppStateVersion_def DeleteAppStateMutationMACs_def GetAppStateMutationMAC_def sql_query_def
      dest!: sql_exec_Inl split: if_splits\<close>)
  then show ?thesis using assms(1) by (simp add: db_ok_def app_view_of_def current_mac_def fun_eq_iff)
qed

interpretation apps: op_refinement db_ok app_view_of app_safe app_step app_spec
  by unfold_locales (rule app_step_answered, assumption+, rule app_step_failed, assumption+)

text \<open>
  C40: the app state tables behave like a map from collections to a version, a hash and one value MAC
  per index, and a map of sync keys in which a key is replaced only by a later one. For every sequence
  of operations on new tables, with any statements failing, the answers are those of the maps run on
  the operations that succeeded, and a failed operation changes nothing; deleting a collection deletes
  its MACs. The condition is that MACs are stored under a version newer than those already stored for
  the collection.
\<close>

theorem app_tables_refine_maps:
  assumes "all_safe app_safe app_step ops (empty_app_db fails)"
    and "run_ops app_step ops (empty_app_db fails) = (rs, db')"
  shows "spec_ops app_spec ops (map (\<lambda>r. r = None) rs) \<lparr>av_keys = Map.empty, av_version = Map.empty, av_macs = (\<lambda>_. Map.empty)\<rparr> =
    (rs, app_view_of db')"
proof -
  have "db_ok (empty_app_db fails)" by (simp add: db_ok_def empty_app_db_def unique_rows_def)
  moreover have "app_view_of (empty_app_db fails) =
      \<lparr>av_keys = Map.empty, av_version = Map.empty, av_macs = (\<lambda>_. Map.empty)\<rparr>"
    by (simp add: app_view_of_def empty_app_db_def current_mac_def fun_eq_iff)
  ultimately show ?thesis using apps.runs [OF _ assms] by simp
qed

definition demo_mac :: "byte \<Rightarrow> byte \<Rightarrow> AppStateMutationMAC" where
  "demo_mac i v = \<lparr>mm_IndexMAC = replicate 32 i, mm_ValueMAC = replicate 32 v\<rparr>"

definition demo_app_ops :: "app_op list" where
  "demo_app_ops =
     [OpPutVersion ''regular'' 1 (replicate 128 0), OpPutMACs ''regular'' 1 [demo_mac 1 5, demo_mac 2 6],
      OpPutMACs ''regular'' 2 [demo_mac 1 7], OpGetMAC ''regular'' (replicate 32 1), OpDeleteVersion ''regular'',
      OpDeleteVersion ''regular'', OpGetMAC ''regular'' (replicate 32 2)]"

definition demo_app_answers :: "app_answer option list" where
  "demo_app_answers =
     [Some AppDone, Some AppDone, Some AppDone, Some (AppMAC (Some (replicate 32 7))), None, Some AppDone,
      Some (AppMAC None)]"

theorem app_tables_refine_maps_witness:
  "fst (run_ops app_step demo_app_ops (empty_app_db (\<lambda>n. n = 8))) = demo_app_answers \<and>
   fst (spec_ops app_spec demo_app_ops [False, False, False, False, True, False, False]
     \<lparr>av_keys = Map.empty, av_version = Map.empty, av_macs = (\<lambda>_. Map.empty)\<rparr>) = demo_app_answers"
proof -
  let ?db = "empty_app_db (\<lambda>n. n = 8)"
  have safe: "all_safe app_safe app_step demo_app_ops ?db" by code_simp
  have run: "fst (run_ops app_step demo_app_ops ?db) = demo_app_answers" by code_simp
  obtain rs db' where rs: "run_ops app_step demo_app_ops ?db = (rs, db')" by fastforce
  from app_tables_refine_maps [OF safe rs] run rs show ?thesis by (simp add: demo_app_answers_def)
qed

end
