(* ===== verification/Cache.thy ===== *)
theory Cache
  imports Prelude
begin

text \<open>
  \<open>src/cache.go\<close> and \<open>setBoundedCacheEntry\<close> of \<open>src/store/sqlstore/store.go\<close>: maps of bounded
  size, counters with a time window, and pruning by age. Go leaves the iteration order of a map
  open, so the entry an insertion evicts is an argument: \<open>pick\<close> chooses a position among the entries.
  The locale \<open>bounded_cache\<close> is what the stores rely on; times are nanoseconds, and the zero
  \<open>time.Time\<close> of a reset time is \<open>None\<close>.
\<close>

section \<open>Bounded insertion\<close>

type_synonym ('k, 'v) pick = "('k \<times> 'v) list \<Rightarrow> nat"

definition picked :: "('k, 'v) pick \<Rightarrow> ('k \<times> 'v) list \<Rightarrow> 'k" where
  "picked pick m = fst (m ! (pick m mod length m))"

definition evict_one :: "('k, 'v) pick \<Rightarrow> ('k \<times> 'v) list \<Rightarrow> ('k \<times> 'v) list" where
  "evict_one pick m = (if m = [] then [] else adel (picked pick m) m)"

definition putBoundedCache :: "('k, 'v) pick \<Rightarrow> nat \<Rightarrow> 'k \<Rightarrow> 'v \<Rightarrow> ('k \<times> 'v) list \<Rightarrow> ('k \<times> 'v) list" where
  "putBoundedCache pick limit key value cache =
     (let cache = (if map_of cache key = None \<and> limit \<le> length cache then evict_one pick cache else cache)
      in aset key value cache)"

definition setBoundedCacheEntry :: "('k, 'v) pick \<Rightarrow> nat \<Rightarrow> 'k \<Rightarrow> 'v \<Rightarrow> ('k \<times> 'v) list \<Rightarrow> ('k \<times> 'v) list" where
  "setBoundedCacheEntry pick limit key value cache =
     (let cache = (if map_of cache key = None \<and> limit \<le> length cache then evict_one pick cache else cache)
      in aset key value cache)"

section \<open>Counters and ages\<close>

abbreviation (input) retryCounterWindow :: int where
  "retryCounterWindow \<equiv> 3600000000000"

text \<open>Go's \<open>int\<close> on 64 bit platforms: sums wrap around.\<close>

definition wrap_int :: "int \<Rightarrow> int" where
  "wrap_int n = sint (word_of_int n :: 64 word)"

definition window_over :: "int option \<Rightarrow> int \<Rightarrow> bool" where
  "window_over resetAt now = (case resetAt of None \<Rightarrow> True | Some t \<Rightarrow> retryCounterWindow \<le> now - t)"

definition incrementBoundedCounter ::
  "('k \<times> int) list \<Rightarrow> 'k \<Rightarrow> nat \<Rightarrow> int option \<Rightarrow> int \<Rightarrow> (int \<times> bool) \<times> ('k \<times> int) list \<times> int option" where
  "incrementBoundedCounter cache key limit resetAt now =
     (let (cache, resetAt) = (if window_over resetAt now then ([], Some now) else (cache, resetAt)) in
      if map_of cache key = None \<and> limit \<le> length cache then ((0, False), cache, resetAt)
      else
        (let count = wrap_int ((case map_of cache key of None \<Rightarrow> 0 | Some c \<Rightarrow> c) + 1);
             cache = aset key count cache
         in ((count, True), cache, resetAt)))"

definition pruneExpiredCache :: "('k \<times> int) list \<Rightarrow> int \<Rightarrow> ('k \<times> int) list" where
  "pruneExpiredCache cache cutoff = filter (\<lambda>(key, timestamp). \<not> timestamp < cutoff) cache"

section \<open>The contract of a bounded cache\<close>

locale bounded_cache =
  fixes put :: "nat \<Rightarrow> 'k \<Rightarrow> 'v \<Rightarrow> ('k \<times> 'v) list \<Rightarrow> ('k \<times> 'v) list"
  assumes put_same: "map_of (put n k v m) k = Some v"
    and put_other: "k' \<noteq> k \<Longrightarrow> map_of (put n k v m) k' = None \<or> map_of (put n k v m) k' = map_of m k'"
    and put_update: "map_of m k \<noteq> None \<Longrightarrow> map_of (put n k v m) = (map_of m)(k \<mapsto> v)"
    and put_amap: "amap m \<Longrightarrow> amap (put n k v m)"
    and put_bound: "amap m \<Longrightarrow> 0 < n \<Longrightarrow> length m \<le> n \<Longrightarrow> length (put n k v m) \<le> n"
    and put_room: "length m < n \<Longrightarrow> map_of (put n k v m) = (map_of m)(k \<mapsto> v)"
begin

text \<open>What holds of every entry keeps holding when it holds of the entry put.\<close>

lemma put_entries:
  assumes "\<And>a x. map_of m a = Some x \<Longrightarrow> a \<noteq> k \<Longrightarrow> P a x" and "P k v" and "map_of (put n k v m) a = Some x"
  shows "P a x"
proof (cases "a = k")
  case True
  with assms(2,3) put_same [of n k v m] show ?thesis by simp
next
  case False
  with put_other [OF False, of n v m] assms(1,3) show ?thesis by auto
qed

lemma put_subset: "map_of (put n k v m) \<subseteq>\<^sub>m (map_of m)(k \<mapsto> v)"
  unfolding map_le_def
proof
  fix a
  assume "a \<in> dom (map_of (put n k v m))"
  then show "map_of (put n k v m) a = ((map_of m)(k \<mapsto> v)) a"
    using put_same [of n k v m] put_other [of a k n v m] by (cases "a = k") auto
qed

end

lemma picked_in: "m \<noteq> [] \<Longrightarrow> map_of m (picked pick m) \<noteq> None"
  unfolding picked_def map_of_eq_None_fst by simp

lemma map_of_evict: "map_of (evict_one pick m) k = None \<or> map_of (evict_one pick m) k = map_of m k"
  by (simp add: evict_one_def)

lemma evict_amap [simp]: "amap m \<Longrightarrow> amap (evict_one pick m)"
  by (simp add: evict_one_def)

lemma evict_length: "amap m \<Longrightarrow> m \<noteq> [] \<Longrightarrow> Suc (length (evict_one pick m)) = length m"
  using length_adel_present picked_in by (fastforce simp: evict_one_def)

lemma evict_absent: "map_of m k = None \<Longrightarrow> map_of (evict_one pick m) k = None"
  using map_of_evict [of pick m k] by auto

lemma setBoundedCacheEntry_eq: "setBoundedCacheEntry = putBoundedCache"
  by (intro ext) (simp add: setBoundedCacheEntry_def putBoundedCache_def)

lemma putBoundedCache_bound:
  assumes "amap m" and "0 < n" and "length m \<le> n"
  shows "length (putBoundedCache pick n k v m) \<le> n"
proof (cases "map_of m k = None")
  case False
  with assms show ?thesis by (auto simp: putBoundedCache_def length_aset_present)
next
  case new: True
  show ?thesis
  proof (cases "n \<le> length m")
    case True
    then have "m \<noteq> []" using assms by auto
    with evict_length [OF assms(1)] new True assms show ?thesis
      using evict_absent [OF new, of pick] by (simp add: putBoundedCache_def length_aset_absent)
  next
    case False
    with new assms show ?thesis by (simp add: putBoundedCache_def length_aset_absent)
  qed
qed

interpretation pb: bounded_cache "putBoundedCache pick" for pick
proof
  fix m :: "('a \<times> 'b) list" and n k v k'
  show "map_of (putBoundedCache pick n k v m) k = Some v" by (simp add: putBoundedCache_def Let_def)
  show "k' \<noteq> k \<Longrightarrow> map_of (putBoundedCache pick n k v m) k' = None \<or>
    map_of (putBoundedCache pick n k v m) k' = map_of m k'"
    using map_of_evict [of pick m k'] by (auto simp: putBoundedCache_def Let_def)
  show "map_of m k \<noteq> None \<Longrightarrow> map_of (putBoundedCache pick n k v m) = (map_of m)(k \<mapsto> v)"
    by (auto simp: putBoundedCache_def Let_def)
  show "amap m \<Longrightarrow> amap (putBoundedCache pick n k v m)" by (simp add: putBoundedCache_def Let_def)
  show "amap m \<Longrightarrow> 0 < n \<Longrightarrow> length m \<le> n \<Longrightarrow> length (putBoundedCache pick n k v m) \<le> n"
    by (rule putBoundedCache_bound)
  show "length m < n \<Longrightarrow> map_of (putBoundedCache pick n k v m) = (map_of m)(k \<mapsto> v)"
    by (simp add: putBoundedCache_def Let_def)
qed

interpretation sb: bounded_cache "setBoundedCacheEntry pick" for pick
  unfolding setBoundedCacheEntry_eq by (rule pb.bounded_cache_axioms)

section \<open>Counting within a window\<close>

lemma wrap_int_id: "- (2 ^ 63) \<le> n \<Longrightarrow> n < 2 ^ 63 \<Longrightarrow> wrap_int n = n"
  unfolding wrap_int_def by (simp add: sint_sbintrunc' signed_take_bit_int_eq_self)

lemma wrap_int_max: "wrap_int (2 ^ 63) = - (2 ^ 63)"
  by (simp add: wrap_int_def)

lemma amap_single: "amap [kv]"
  by (simp add: amap_def)

lemma incrementBoundedCounter_amap:
  assumes "amap cache" and "incrementBoundedCounter cache key limit resetAt now = (r, cache', resetAt')"
  shows "amap cache'"
  using assms by (auto simp: incrementBoundedCounter_def Let_def amap_single split: if_splits option.splits)

lemma incrementBoundedCounter_bound:
  assumes "length cache \<le> limit" and "incrementBoundedCounter cache key limit resetAt now = (r, cache', resetAt')"
  shows "length cache' \<le> limit"
  using assms
  by (auto simp: incrementBoundedCounter_def Let_def length_aset_present length_aset_absent
      split: if_splits option.splits)

lemma pruneExpiredCache_amap [simp]: "amap m \<Longrightarrow> amap (pruneExpiredCache m cutoff)"
  by (auto simp: amap_def pruneExpiredCache_def distinct_map inj_on_def)

lemma pruneExpiredCache_length: "length (pruneExpiredCache m cutoff) \<le> length m"
  by (simp add: pruneExpiredCache_def)

lemma map_of_pruneExpiredCache:
  "amap m \<Longrightarrow> map_of (pruneExpiredCache m cutoff) k =
     (case map_of m k of None \<Rightarrow> None | Some t \<Rightarrow> if t < cutoff then None else Some t)"
proof (induction m)
  case (Cons kv m)
  obtain k' t where kv: "kv = (k', t)" by fastforce
  from Cons.prems kv have nk: "map_of m k' = None" and am: "amap m" by (auto simp: amap_def map_of_eq_None_fst)
  from Cons.IH [OF am] nk kv show ?case
    by (cases "k' = k") (auto simp: pruneExpiredCache_def split: option.splits)
qed (simp add: pruneExpiredCache_def)

end
