(* ===== verification/SignalDb.thy ===== *)
theory SignalDb
  imports Sql Cache Jid "HOL-Library.Sublist" "HOL-Library.List_Lexorder" "HOL-Library.Char_ord"
begin

text \<open>
  The Signal tables of \<open>src/store/sqlstore/store.go\<close> with the constraints of the schema
  (\<open>src/store/sqlstore/upgrades/00-latest-schema.sql\<close>), for the device the store belongs to, and the
  SQL text operations the queries use: \<open>LIKE\<close>, \<open>replace\<close>, and the comparison of addresses, which is
  bytewise (SQLite's \<open>BINARY\<close> and Postgres's \<open>C\<close> collation). The record \<open>SQLStore\<close> is the Go struct: the
  database and the caches kept beside it, which a rolled back transaction does not touch.
\<close>

section \<open>Text operations\<close>

datatype dialect = Postgres | SQLite

definition ascii_fold :: "char \<Rightarrow> nat" where
  "ascii_fold c = (let n = of_char c in if 65 \<le> n \<and> n \<le> 90 then n + 32 else n)"

definition like_char :: "dialect \<Rightarrow> char \<Rightarrow> char \<Rightarrow> bool" where
  "like_char dia p c = (case dia of Postgres \<Rightarrow> p = c | SQLite \<Rightarrow> ascii_fold p = ascii_fold c)"

text \<open>\<open>LIKE\<close>: SQLite ignores the case of ASCII letters, Postgres has the backslash as escape character.\<close>

fun sql_like :: "dialect \<Rightarrow> string \<Rightarrow> string \<Rightarrow> bool" where
  "sql_like dia [] s = (s = [])"
| "sql_like dia (p # ps) s =
     (if p = CHR ''%'' then sql_like dia ps s \<or> (case s of [] \<Rightarrow> False | c # cs \<Rightarrow> sql_like dia (p # ps) cs)
      else if p = CHR ''_'' then (case s of [] \<Rightarrow> False | c # cs \<Rightarrow> sql_like dia ps cs)
      else if p = CHR 0x5C \<and> dia = Postgres then
        (case (ps, s) of (q # qs, c # cs) \<Rightarrow> q = c \<and> sql_like dia qs cs | _ \<Rightarrow> False)
      else (case s of [] \<Rightarrow> False | c # cs \<Rightarrow> like_char dia p c \<and> sql_like dia ps cs))"

function sql_replace :: "string \<Rightarrow> string \<Rightarrow> string \<Rightarrow> string" where
  "sql_replace old new s =
     (if old = [] \<or> s = [] then s
      else if prefix old s then new @ sql_replace old new (drop (length old) s)
      else hd s # sql_replace old new (tl s))"
  by auto
termination by (relation "measure (\<lambda>(old, new, s). length s)") auto

declare sql_replace.simps [simp del]

definition signalAddressRange :: "string \<Rightarrow> string \<times> string" where
  "signalAddressRange user = (user @ '':'', user @ '';'')"

definition in_range :: "string \<times> string \<Rightarrow> string \<Rightarrow> bool" where
  "in_range r s \<longleftrightarrow> fst r \<le> s \<and> s < snd r"

text \<open>The range of the query is the set of addresses of the user.\<close>

lemma between_colon: "CHR '':'' \<le> c \<Longrightarrow> c < CHR '';'' \<Longrightarrow> c = CHR '':''"
proof (rule of_char_eqI [where 'a = nat])
  assume "CHR '':'' \<le> c" "c < CHR '';''"
  then show "of_char c = (of_char CHR '':'' :: nat)"
    by (simp add: less_eq_char_def less_char_def)
qed

lemma signalAddressRange_prefix: "in_range (signalAddressRange user) s \<longleftrightarrow> prefix (user @ '':'') s"
proof (induction user arbitrary: s)
  case Nil
  show ?case
  proof (cases s)
    case (Cons c cs)
    have "CHR '':'' < CHR '';''" by (simp add: less_char_def)
    with Cons between_colon [of c] show ?thesis
      by (auto simp: in_range_def signalAddressRange_def less_le_not_le)
  qed (simp add: in_range_def signalAddressRange_def)
next
  case (Cons u user)
  show ?case
  proof (cases s)
    case (Cons c cs)
    with Cons.IH [of cs] show ?thesis
      by (cases "c = u") (auto simp: in_range_def signalAddressRange_def)
  qed (simp add: in_range_def signalAddressRange_def)
qed

lemma like_char_below: "(of_char c :: nat) < 65 \<Longrightarrow> like_char dia c d \<longleftrightarrow> c = d"
  by (auto simp: like_char_def ascii_fold_def Let_def intro: of_char_eqI [where 'a = nat]
      split: dialect.splits if_splits)

lemma digit_plain:
  assumes "digit_val c \<noteq> None"
  shows "c \<noteq> CHR ''%''" "c \<noteq> CHR ''_''" "c \<noteq> CHR 0x5C" "c \<noteq> CHR '':''" "like_char dia c d \<longleftrightarrow> c = d"
proof -
  from assms have n: "48 \<le> (of_char c :: nat) \<and> (of_char c :: nat) \<le> 57"
    by (auto simp: digit_val_def Let_def split: if_splits)
  then show "c \<noteq> CHR ''%''" "c \<noteq> CHR ''_''" "c \<noteq> CHR 0x5C" "c \<noteq> CHR '':''" by auto
  from n show "like_char dia c d \<longleftrightarrow> c = d" by (intro like_char_below) simp
qed

lemma like_all: "sql_like dia ''%'' s"
  by (induction s) auto

lemma sql_like_user:
  assumes "all_digits user"
  shows "sql_like dia (user @ '':%'') s \<longleftrightarrow> prefix (user @ '':'') s"
  using assms
proof (induction user arbitrary: s)
  case Nil
  have "like_char dia CHR '':'' c \<longleftrightarrow> CHR '':'' = c" for c
    by (rule like_char_below) simp
  then show ?case using like_all [of dia] by (cases s) auto
next
  case (Cons u user)
  then have u: "digit_val u \<noteq> None" and us: "all_digits user" by (auto simp: all_digits_def)
  show ?case using Cons.IH [OF us] digit_plain [OF u] by (cases s) auto
qed

lemma sql_replace_absent: "\<not> sublist old s \<Longrightarrow> sql_replace old new s = s"
proof (induction s)
  case (Cons c s)
  then have "\<not> prefix old (c # s)" "\<not> sublist old s" by (auto simp: sublist_Cons_right)
  with Cons.IH show ?case by (subst sql_replace.simps) simp
qed (simp add: sql_replace.simps)

lemma sql_replace_prefix:
  assumes "old \<noteq> []" and "\<not> sublist old rest"
  shows "sql_replace old new (old @ rest) = new @ rest"
  using assms sql_replace_absent [OF assms(2)] by (subst sql_replace.simps) simp

text \<open>The address of a device of a user whose name is longer than the device number.\<close>

lemma not_in_device:
  assumes "all_digits user" and "user \<noteq> []" and "length dev < length user"
  shows "\<not> sublist user (CHR '':'' # dev)"
proof
  assume "sublist user (CHR '':'' # dev)"
  then consider "prefix user (CHR '':'' # dev)" | "sublist user dev" by (auto simp: sublist_Cons_right)
  then show False
  proof cases
    case 1
    with assms obtain u where "u \<in> set user" "u = CHR '':''" by (cases user) auto
    with assms digit_plain(4) show False by (auto simp: all_digits_def list_all_iff)
  next
    case 2
    with sublist_length_le assms(3) show False by fastforce
  qed
qed

section \<open>Tables and the store\<close>

text \<open>
  Rows by primary key. A pre key row has its key and whether it was uploaded; a buffered event its
  plaintext (\<open>NULL\<close> once it was cleared), the server's and the insertion time; a sent message its
  format, plaintext and time.
\<close>

record signal_db = sql_db +
  identity_keys :: "(string \<times> bytes) list"
  sessions :: "(string \<times> bytes) list"
  sender_keys :: "((string \<times> string) \<times> bytes) list"
  pre_keys :: "(32 word \<times> bytes \<times> bool) list"
  event_buffer :: "(bytes \<times> bytes option \<times> int \<times> int) list"
  retry_buffer :: "((string \<times> string) \<times> string \<times> bytes \<times> int) list"

record identityCacheEntry =
  ic_Key :: bytes
  ic_Present :: bool

record SQLStore =
  s_db :: signal_db
  identityCache :: "(string \<times> identityCacheEntry) list"
  identityDeleteGen :: "64 word"
  migratedPNSessionsCache :: "(string \<times> unit) list"
  emptyPNMigrationCache :: "(string \<times> int) list"
  migratingPNSessions :: "string list"

abbreviation (input) "maxIdentityCacheEntries \<equiv> (2048 :: nat)"
abbreviation (input) "maxMigratedPNEntries \<equiv> (1024 :: nat)"
abbreviation (input) "emptyPNMigrationTTL \<equiv> (60000000000 :: int)"

type_synonym 'a store_op = "(SQLStore, db_error, 'a) sr"

definition on_db :: "(signal_db, db_error, 'a) sr \<Rightarrow> 'a store_op" where
  "on_db m s = (let (r, d) = m (s_db s) in (r, s\<lparr>s_db := d\<rparr>))"

definition smod :: "('s \<Rightarrow> 's) \<Rightarrow> ('s, 'e, unit) sr" where
  "smod f s = (Inr (), f s)"

definition empty_signal_db :: "(nat \<Rightarrow> bool) \<Rightarrow> signal_db" where
  "empty_signal_db fails =
     \<lparr>db_fails = fails, db_clock = 0, identity_keys = [], sessions = [], sender_keys = [], pre_keys = [],
      event_buffer = [], retry_buffer = []\<rparr>"

definition NewSQLStore :: "signal_db \<Rightarrow> SQLStore" where
  "NewSQLStore d =
     \<lparr>s_db = d, identityCache = [], identityDeleteGen = 0, migratedPNSessionsCache = [],
      emptyPNMigrationCache = [], migratingPNSessions = []\<rparr>"

text \<open>Two states of the tables agree, whatever the number of statements run.\<close>

definition same_signal :: "signal_db \<Rightarrow> signal_db \<Rightarrow> bool" where
  "same_signal a b \<longleftrightarrow> a\<lparr>db_clock := 0\<rparr> = b\<lparr>db_clock := 0\<rparr>"

lemma same_signal_iff:
  "same_signal a b \<longleftrightarrow>
     db_fails a = db_fails b \<and> identity_keys a = identity_keys b \<and> sessions a = sessions b \<and>
     sender_keys a = sender_keys b \<and> pre_keys a = pre_keys b \<and> event_buffer a = event_buffer b \<and>
     retry_buffer a = retry_buffer b"
  by (cases a, cases b) (auto simp: same_signal_def)

lemma signal_tick [simp]:
  "identity_keys (tick d) = identity_keys d" "sessions (tick d) = sessions d"
  "sender_keys (tick d) = sender_keys d" "pre_keys (tick d) = pre_keys d"
  "event_buffer (tick d) = event_buffer d" "retry_buffer (tick d) = retry_buffer d"
  by (simp_all add: tick_def)

lemma signal_rolled_back [simp]:
  "identity_keys (rolled_back a b) = identity_keys a" "sessions (rolled_back a b) = sessions a"
  "sender_keys (rolled_back a b) = sender_keys a" "pre_keys (rolled_back a b) = pre_keys a"
  "event_buffer (rolled_back a b) = event_buffer a" "retry_buffer (rolled_back a b) = retry_buffer a"
  by (simp_all add: rolled_back_def)

lemma same_signal_refl [simp]: "same_signal d d"
  by (simp add: same_signal_def)

lemma same_signal_tick [simp]: "same_signal (tick d) d" "same_signal d (tick d)"
  by (simp_all add: same_signal_iff)

lemma same_signal_trans: "same_signal a b \<Longrightarrow> same_signal b c \<Longrightarrow> same_signal a c"
  by (simp add: same_signal_def)

lemma same_signal_sym: "same_signal a b \<Longrightarrow> same_signal b a"
  by (simp add: same_signal_def)

lemma same_signal_rolled_back [simp]: "same_signal (rolled_back a b) a"
  by (simp add: same_signal_iff)

lemma on_db_Inr: "on_db m s = (Inr x, s') \<longleftrightarrow> (\<exists>d. m (s_db s) = (Inr x, d) \<and> s' = s\<lparr>s_db := d\<rparr>)"
  by (auto simp: on_db_def Let_def split: prod.splits)

lemma on_db_Inl: "on_db m s = (Inl e, s') \<longleftrightarrow> (\<exists>d. m (s_db s) = (Inl e, d) \<and> s' = s\<lparr>s_db := d\<rparr>)"
  by (auto simp: on_db_def Let_def split: prod.splits)

lemma smod_app [simp]: "smod f s = (Inr (), f s)"
  by (simp add: smod_def)

section \<open>Sessions and sender keys\<close>

definition GetSession :: "string \<Rightarrow> bytes option store_op" where
  "GetSession address = on_db (sql_query (\<lambda>d. map_of (sessions d) address))"

definition HasSession :: "string \<Rightarrow> bool store_op" where
  "HasSession address = on_db (sql_query (\<lambda>d. map_of (sessions d) address \<noteq> None))"

definition PutSession :: "string \<Rightarrow> bytes \<Rightarrow> unit store_op" where
  "PutSession address session = on_db (sql_exec (\<lambda>d. Inr (d\<lparr>sessions := aset address session (sessions d)\<rparr>)))"

definition DeleteSession :: "string \<Rightarrow> unit store_op" where
  "DeleteSession address = on_db (sql_exec (\<lambda>d. Inr (d\<lparr>sessions := adel address (sessions d)\<rparr>)))"

text \<open>The query in the body of a transaction as well (\<open>deleteAllSessions\<close>).\<close>

definition deleteAllSessionsQuery :: "string \<Rightarrow> (signal_db, db_error, unit) sr" where
  "deleteAllSessionsQuery phone = sql_exec (\<lambda>d.
     Inr (d\<lparr>sessions := filter (\<lambda>(a, v). \<not> in_range (signalAddressRange phone) a) (sessions d)\<rparr>))"

definition DeleteAllSessions :: "string \<Rightarrow> unit store_op" where
  "DeleteAllSessions phone = on_db (deleteAllSessionsQuery phone)"

text \<open>One result per address, \<open>None\<close> where there is no row.\<close>

definition GetManySessions :: "string list \<Rightarrow> (string \<times> bytes option) list store_op" where
  "GetManySessions addresses =
     (if addresses = [] then sret []
      else sbind (on_db (sql_query (\<lambda>d. filter (\<lambda>(a, v). a \<in> set addresses) (sessions d)))) (\<lambda>rows.
        let result = fold (\<lambda>a m. aset a None m) addresses [] in
        sret (fold (\<lambda>(a, v) m. aset a (Some v) m) rows result)))"

definition putManySessionsChunk :: "string list \<Rightarrow> (string \<times> bytes) list \<Rightarrow> (signal_db, db_error, unit) sr" where
  "putManySessionsChunk addresses ss = sql_exec (\<lambda>d.
     Inr (d\<lparr>sessions := fold (\<lambda>a t. aset a (case map_of ss a of None \<Rightarrow> [] | Some v \<Rightarrow> v) t) addresses (sessions d)\<rparr>))"

text \<open>\<open>native\<close> says that the Postgres driver takes arrays, where one statement inserts all the rows.\<close>

definition PutManySessions :: "bool \<Rightarrow> (string \<times> bytes) list \<Rightarrow> unit store_op" where
  "PutManySessions native ss =
     (if ss = [] then sret ()
      else
        (let addresses = sort (map fst ss) in
         if length addresses = 1 then
           PutSession (addresses ! 0) (case map_of ss (addresses ! 0) of None \<Rightarrow> [] | Some v \<Rightarrow> v)
         else if native \<or> length addresses \<le> 1000 then on_db (putManySessionsChunk addresses ss)
         else on_db (DoTxn (sseq (\<lambda>batch. putManySessionsChunk batch ss) (chunks 1000 addresses)))))"

definition PutSenderKey :: "string \<Rightarrow> string \<Rightarrow> bytes \<Rightarrow> unit store_op" where
  "PutSenderKey chat user session =
     on_db (sql_exec (\<lambda>d. Inr (d\<lparr>sender_keys := aset (chat, user) session (sender_keys d)\<rparr>)))"

definition GetSenderKey :: "string \<Rightarrow> string \<Rightarrow> bytes option store_op" where
  "GetSenderKey chat user = on_db (sql_query (\<lambda>d. map_of (sender_keys d) (chat, user)))"

subsection \<open>Storing many sessions\<close>

lemma fold_put_sessions:
  "map_of (fold (\<lambda>a t. aset a (f a) t) as t) = (\<lambda>a. if a \<in> set as then Some (f a) else map_of t a)"
  by (induction as arbitrary: t) (auto simp: fun_eq_iff)

lemma put_chunks:
  "sseq (\<lambda>batch. putManySessionsChunk batch ss) css d = (Inr u, d') \<Longrightarrow>
   same_signal (d'\<lparr>sessions := []\<rparr>) (d\<lparr>sessions := []\<rparr>) \<and>
   sessions d' =
     fold (\<lambda>a t. aset a (case map_of ss a of None \<Rightarrow> [] | Some v \<Rightarrow> v) t) (concat css) (sessions d)"
proof (induction css arbitrary: d)
  case (Cons cs css)
  from Cons.prems obtain d1 where
    "putManySessionsChunk cs ss d = (Inr (), d1)" "sseq (\<lambda>batch. putManySessionsChunk batch ss) css d1 = (Inr u, d')"
    by (auto simp: sbind_eq_Inr)
  with Cons.IH [of d1] show ?case
    by (auto simp: putManySessionsChunk_def sql_exec_Inr same_signal_iff)
qed simp

lemma stored_sessions:
  assumes "set as = fst ` set ss"
  shows "map_of (fold (\<lambda>a t. aset a (case map_of ss a of None \<Rightarrow> [] | Some v \<Rightarrow> v) t) as t) = map_of t ++ map_of ss"
  using assms
  by (auto simp: fold_put_sessions fun_eq_iff map_add_def map_of_eq_None_fst split: option.splits)
    (metis map_of_eq_None_fst not_None_eq)+

lemma DoTxn_failed: "DoTxn body d = (Inl e, d') \<Longrightarrow> same_signal d' d"
  by (auto simp: DoTxn_def split: prod.splits sum.splits dest: sql_exec_Inl)

lemma PutManySessions_folds:
  assumes "PutManySessions native ss s = (Inr u, s')"
  shows "\<exists>d. s' = s\<lparr>s_db := d\<rparr> \<and> same_signal (d\<lparr>sessions := []\<rparr>) ((s_db s)\<lparr>sessions := []\<rparr>) \<and>
    sessions d = fold (\<lambda>a t. aset a (case map_of ss a of None \<Rightarrow> [] | Some v \<Rightarrow> v) t) (sort (map fst ss)) (sessions (s_db s))"
proof -
  define addresses where "addresses = sort (map fst ss)"
  consider "ss = []" | "ss \<noteq> []" "length addresses = 1"
    | "ss \<noteq> []" "length addresses \<noteq> 1" "native \<or> length addresses \<le> 1000"
    | "ss \<noteq> []" "length addresses \<noteq> 1" "\<not> (native \<or> length addresses \<le> 1000)" by blast
  then show ?thesis
  proof cases
    case 1
    with assms show ?thesis by (auto simp: PutManySessions_def intro!: exI [of _ "s_db s"])
  next
    case 2
    then obtain a where "addresses = [a]" by (auto simp: length_Suc_conv)
    with assms 2 show ?thesis
      by (auto simp: PutManySessions_def PutSession_def on_db_Inr sql_exec_Inr same_signal_iff
          simp flip: addresses_def)
  next
    case 3
    with assms show ?thesis
      by (auto simp: PutManySessions_def putManySessionsChunk_def on_db_Inr sql_exec_Inr same_signal_iff Let_def
          simp flip: addresses_def)
  next
    case 4
    with assms obtain d where s': "s' = s\<lparr>s_db := d\<rparr>"
      and txn: "DoTxn (sseq (\<lambda>batch. putManySessionsChunk batch ss) (chunks 1000 addresses)) (s_db s) = (Inr (), d)"
      by (auto simp: PutManySessions_def on_db_Inr Let_def simp flip: addresses_def)
    from DoTxn_Inr [OF txn] obtain d1 where
      "sseq (\<lambda>batch. putManySessionsChunk batch ss) (chunks 1000 addresses) (tick (s_db s)) = (Inr (), d1)" "d = tick d1" .
    with put_chunks [OF this(1)] s' show ?thesis
      by (auto simp: concat_chunks same_signal_iff simp flip: addresses_def)
  qed
qed

lemma PutManySessions_Inr:
  assumes "PutManySessions native ss s = (Inr u, s')"
  shows "map_of (sessions (s_db s')) = map_of (sessions (s_db s)) ++ map_of ss"
    and "same_signal ((s_db s')\<lparr>sessions := []\<rparr>) ((s_db s)\<lparr>sessions := []\<rparr>)"
    and "s' = s\<lparr>s_db := s_db s'\<rparr>"
  using PutManySessions_folds [OF assms] by (auto simp: stored_sessions)

lemma PutManySessions_Inl:
  assumes "PutManySessions native ss s = (Inl e, s')"
  shows "same_signal (s_db s') (s_db s)" and "s' = s\<lparr>s_db := s_db s'\<rparr>"
  using assms
  by (auto simp: PutManySessions_def PutSession_def putManySessionsChunk_def on_db_Inl Let_def
      split: if_splits dest!: sql_exec_Inl intro: DoTxn_failed)

section \<open>Transactions around operations of the store\<close>

text \<open>
  A rollback restores the tables and leaves the caches as the operations of the body left them. The
  error of the database is passed on as the caller's error type has it (\<open>wrap\<close>); the result of the
  body is what its closure leaves in the variables of the caller.
\<close>

definition DoDecryptionTxn :: "(db_error \<Rightarrow> 'e) \<Rightarrow> (SQLStore, 'e, 'a) sr \<Rightarrow> (SQLStore, 'e, 'a) sr" where
  "DoDecryptionTxn wrap fn s =
     (case sql_exec Inr (s_db s) of
        (Inl e, d0) \<Rightarrow> (Inl (wrap e), s\<lparr>s_db := d0\<rparr>)
      | (Inr _, d0) \<Rightarrow>
          (case fn (s\<lparr>s_db := d0\<rparr>) of
             (Inl e, s1) \<Rightarrow> (Inl e, s1\<lparr>s_db := rolled_back (s_db s) (s_db s1)\<rparr>)
           | (Inr x, s1) \<Rightarrow>
               (case sql_exec Inr (s_db s1) of
                  (Inl e, d2) \<Rightarrow> (Inl (wrap e), s1\<lparr>s_db := rolled_back (s_db s) d2\<rparr>)
                | (Inr _, d2) \<Rightarrow> (Inr x, s1\<lparr>s_db := d2\<rparr>))))"

lemma DoDecryptionTxn_Inr:
  assumes "DoDecryptionTxn wrap fn s = (Inr x, s')"
  obtains s1 where "fn (s\<lparr>s_db := tick (s_db s)\<rparr>) = (Inr x, s1)" and "s' = s1\<lparr>s_db := tick (s_db s1)\<rparr>"
  using assms
  by (auto simp: DoDecryptionTxn_def sql_exec_Inr split: prod.splits sum.splits)

lemma DoDecryptionTxn_Inl:
  assumes "DoDecryptionTxn wrap fn s = (Inl e, s')"
  shows "same_signal (s_db s') (s_db s)"
  using assms by (auto simp: DoDecryptionTxn_def split: prod.splits sum.splits dest!: sql_exec_Inl)

end
