(* ===== verification/Identity.thy ===== *)
theory Identity
  imports SignalDb
begin

text \<open>
  The identity key store of \<open>src/store/sqlstore/store.go\<close>: every operation on
  \<open>whatsmeow_identity_keys\<close> with the cache of keys in front of it. The source takes the cache lock
  and looks again after a first look under the read lock; run in sequence, both looks agree. The
  lemmas show that the cache never disagrees with the table, so that the answers are those of the
  table, except after a transaction around the operations is rolled back.
\<close>

section \<open>Operations\<close>

definition absentEntry :: identityCacheEntry where
  "absentEntry = \<lparr>ic_Key = replicate 32 0, ic_Present = False\<rparr>"

definition presentEntry :: "bytes \<Rightarrow> identityCacheEntry" where
  "presentEntry key = \<lparr>ic_Key = key, ic_Present = True\<rparr>"

type_synonym id_pick = "(string, identityCacheEntry) pick"

definition setCachedIdentityLocked :: "id_pick \<Rightarrow> string \<Rightarrow> identityCacheEntry \<Rightarrow> SQLStore \<Rightarrow> SQLStore" where
  "setCachedIdentityLocked pick address entry s =
     s\<lparr>identityCache := setBoundedCacheEntry pick maxIdentityCacheEntries address entry (identityCache s)\<rparr>"

definition present_key :: "SQLStore \<Rightarrow> string \<Rightarrow> bytes option" where
  "present_key s address =
     (case map_of (identityCache s) address of
        None \<Rightarrow> None | Some c \<Rightarrow> if ic_Present c then Some (ic_Key c) else None)"

definition putIdentityQuery :: "string \<Rightarrow> bytes \<Rightarrow> signal_db \<Rightarrow> db_error + signal_db" where
  "putIdentityQuery address key d =
     (if length key \<noteq> 32 then Inl CheckViolation
      else Inr (d\<lparr>identity_keys := aset address key (identity_keys d)\<rparr>))"

definition PutIdentity :: "id_pick \<Rightarrow> string \<Rightarrow> bytes \<Rightarrow> unit store_op" where
  "PutIdentity pick address key s =
     (if present_key s address = Some key then (Inr (), s)
      else sbind (on_db (sql_exec (putIdentityQuery address key)))
        (\<lambda>_. smod (setCachedIdentityLocked pick address (presentEntry key))) s)"

definition deleteAllIdentitiesQuery :: "string \<Rightarrow> signal_db \<Rightarrow> db_error + signal_db" where
  "deleteAllIdentitiesQuery phone d =
     Inr (d\<lparr>identity_keys := filter (\<lambda>(a, k). \<not> in_range (signalAddressRange phone) a) (identity_keys d)\<rparr>)"

text \<open>Deleting the keys of a user: the cached entries of the user's devices become absent.\<close>

definition forget :: "id_pick \<Rightarrow> string \<Rightarrow> string list \<Rightarrow> SQLStore \<Rightarrow> SQLStore" where
  "forget pick phone as s =
     fold (\<lambda>a s. if prefix (phone @ '':'') a then setCachedIdentityLocked pick a absentEntry s else s) as s"

definition DeleteAllIdentities :: "id_pick \<Rightarrow> string \<Rightarrow> unit store_op" where
  "DeleteAllIdentities pick phone =
     sbind (on_db (sql_exec (deleteAllIdentitiesQuery phone))) (\<lambda>_. smod (\<lambda>s.
       forget pick phone (map fst (identityCache s)) (s\<lparr>identityDeleteGen := identityDeleteGen s + 1\<rparr>)))"

definition DeleteIdentity :: "id_pick \<Rightarrow> string \<Rightarrow> unit store_op" where
  "DeleteIdentity pick address =
     sbind (on_db (sql_exec (\<lambda>d. Inr (d\<lparr>identity_keys := adel address (identity_keys d)\<rparr>)))) (\<lambda>_. smod (\<lambda>s.
       setCachedIdentityLocked pick address absentEntry (s\<lparr>identityDeleteGen := identityDeleteGen s + 1\<rparr>)))"

definition getIdentityQuery :: "string \<Rightarrow> bytes option store_op" where
  "getIdentityQuery address = on_db (sql_query (\<lambda>d. map_of (identity_keys d) address))"

definition IsTrustedIdentity :: "id_pick \<Rightarrow> string \<Rightarrow> bytes \<Rightarrow> bool store_op" where
  "IsTrustedIdentity pick address key s =
     (case map_of (identityCache s) address of
        Some c \<Rightarrow> (Inr (\<not> ic_Present c \<or> ic_Key c = key), s)
      | None \<Rightarrow>
          sbind (getIdentityQuery address) (\<lambda>r.
            case r of
              None \<Rightarrow> sbind (smod (setCachedIdentityLocked pick address absentEntry)) (\<lambda>_. sret True)
            | Some existing \<Rightarrow>
                if length existing \<noteq> 32 then serr ErrInvalidLength
                else sbind (smod (setCachedIdentityLocked pick address (presentEntry existing)))
                  (\<lambda>_. sret (existing = key))) s)"

definition ensureIdentityQuery :: "string \<Rightarrow> bytes \<Rightarrow> signal_db \<Rightarrow> db_error + signal_db" where
  "ensureIdentityQuery address key d =
     (if length key \<noteq> 32 then Inl CheckViolation
      else if map_of (identity_keys d) address \<noteq> None then Inr d
      else Inr (d\<lparr>identity_keys := aset address key (identity_keys d)\<rparr>))"

definition EnsureIdentity :: "id_pick \<Rightarrow> string \<Rightarrow> bytes \<Rightarrow> 64 word \<Rightarrow> bool store_op" where
  "EnsureIdentity pick address key deleteGeneration s =
     (if deleteGeneration \<noteq> identityDeleteGen s then (Inr False, s)
      else case present_key s address of
        Some k \<Rightarrow> (Inr (k = key), s)
      | None \<Rightarrow>
          sbind (on_db (sql_exec (ensureIdentityQuery address key))) (\<lambda>_.
          sbind (getIdentityQuery address) (\<lambda>r.
            case r of
              None \<Rightarrow> serr ErrNoRows
            | Some existing \<Rightarrow>
                if length existing \<noteq> 32 then serr ErrInvalidLength
                else sbind (smod (setCachedIdentityLocked pick address (presentEntry existing)))
                  (\<lambda>_. sret (existing = key)))) s)"

text \<open>The addresses not seen before: their keys if cached, otherwise they are missing.\<close>

fun scan_cached ::
  "(string \<times> identityCacheEntry) list \<Rightarrow> string list \<Rightarrow> string list \<Rightarrow> (string \<rightharpoonup> bytes) \<Rightarrow> string list \<Rightarrow>
   (string \<rightharpoonup> bytes) \<times> string list" where
  "scan_cached cache seen [] result missing = (result, missing)"
| "scan_cached cache seen (a # addresses) result missing =
     (if a \<in> set seen then scan_cached cache seen addresses result missing
      else case map_of cache a of
        Some c \<Rightarrow> scan_cached cache (a # seen) addresses (if ic_Present c then result(a \<mapsto> ic_Key c) else result) missing
      | None \<Rightarrow> scan_cached cache (a # seen) addresses result (missing @ [a]))"

definition queryManyIdentities :: "string list \<Rightarrow> (string \<times> bytes) list store_op" where
  "queryManyIdentities addresses =
     on_db (sql_query (\<lambda>d. filter (\<lambda>(a, i). a \<in> set addresses) (identity_keys d)))"

fun read_identities ::
  "(string \<times> bytes) list \<Rightarrow> (string \<times> identityCacheEntry) list \<Rightarrow> (string \<rightharpoonup> bytes) \<Rightarrow>
   db_error + (string \<times> identityCacheEntry) list \<times> (string \<rightharpoonup> bytes)" where
  "read_identities [] fetched result = Inr (fetched, result)"
| "read_identities ((a, i) # rows) fetched result =
     (if length i \<noteq> 32 then Inl ErrInvalidLength
      else read_identities rows (aset a (presentEntry i) fetched) (result(a \<mapsto> i)))"

fun cacheFetchedIdentitiesLocked ::
  "id_pick \<Rightarrow> (string \<rightharpoonup> bytes) \<Rightarrow> (string \<times> identityCacheEntry) list \<Rightarrow> SQLStore \<Rightarrow> (string \<rightharpoonup> bytes) \<times> SQLStore" where
  "cacheFetchedIdentitiesLocked pick result [] s = (result, s)"
| "cacheFetchedIdentitiesLocked pick result ((a, entry) # fetched) s =
     (case map_of (identityCache s) a of
        Some current \<Rightarrow>
          cacheFetchedIdentitiesLocked pick
            (if ic_Present current then result(a \<mapsto> ic_Key current) else result(a := None)) fetched s
      | None \<Rightarrow> cacheFetchedIdentitiesLocked pick result fetched (setCachedIdentityLocked pick a entry s))"

definition fetch_identities :: "id_pick \<Rightarrow> string list \<Rightarrow> (string \<rightharpoonup> bytes) \<Rightarrow> (string \<rightharpoonup> bytes) store_op" where
  "fetch_identities pick missing result =
     sbind (queryManyIdentities missing) (\<lambda>rows.
     let fetched = fold (\<lambda>a m. aset a absentEntry m) missing [] in
     sbind (slift (read_identities rows fetched result)) (\<lambda>(fetched, result) s.
       let (result, s) = cacheFetchedIdentitiesLocked pick result fetched s in (Inr result, s)))"

definition GetManyIdentities :: "id_pick \<Rightarrow> string list \<Rightarrow> ((string \<rightharpoonup> bytes) \<times> 64 word) store_op" where
  "GetManyIdentities pick addresses s =
     (let generation = identityDeleteGen s in
      if addresses = [] then (Inr (Map.empty, generation), s)
      else
        (let (result, missing) = scan_cached (identityCache s) [] addresses Map.empty [] in
         if missing = [] then (Inr (result, generation), s)
         else
           (let (result, missing) = scan_cached (identityCache s) [] missing result [] in
            if missing = [] then (Inr (result, generation), s)
            else sbind (fetch_identities pick missing result) (\<lambda>result. sret (result, generation)) s)))"

section \<open>The cache agrees with the table\<close>

abbreviation ids :: "SQLStore \<Rightarrow> string \<rightharpoonup> bytes" where
  "ids s \<equiv> map_of (identity_keys (s_db s))"

definition entry_of :: "bytes option \<Rightarrow> identityCacheEntry \<Rightarrow> bool" where
  "entry_of r e \<longleftrightarrow> r = (if ic_Present e then Some (ic_Key e) else None)"

definition id_coherent :: "SQLStore \<Rightarrow> bool" where
  "id_coherent s \<longleftrightarrow> (\<forall>a e. map_of (identityCache s) a = Some e \<longrightarrow> entry_of (ids s a) e)"

definition id_ok :: "SQLStore \<Rightarrow> bool" where
  "id_ok s \<longleftrightarrow>
     amap (identityCache s) \<and> length (identityCache s) \<le> maxIdentityCacheEntries \<and> id_coherent s \<and>
     amap (identity_keys (s_db s)) \<and> (\<forall>a k. ids s a = Some k \<longrightarrow> length k = 32)"

lemma entry_of_simps [simp]: "entry_of r (presentEntry k) \<longleftrightarrow> r = Some k" "entry_of r absentEntry \<longleftrightarrow> r = None"
  by (simp_all add: entry_of_def presentEntry_def absentEntry_def)

lemma setCached_simps [simp]:
  "s_db (setCachedIdentityLocked pick a e s) = s_db s"
  "identityDeleteGen (setCachedIdentityLocked pick a e s) = identityDeleteGen s"
  by (simp_all add: setCachedIdentityLocked_def)

lemma id_ok_set:
  assumes "id_ok s" and "entry_of (ids s a) e"
  shows "id_ok (setCachedIdentityLocked pick a e s)"
proof -
  let ?m = "setBoundedCacheEntry pick maxIdentityCacheEntries a e (identityCache s)"
  have "entry_of (ids s b) x" if "map_of ?m b = Some x" for b x
    by (rule sb.put_entries [where P = "\<lambda>b x. entry_of (ids s b) x", OF _ assms(2) that]) (use assms(1) in \<open>auto simp: id_ok_def id_coherent_def\<close>)
  moreover have "amap ?m" "length ?m \<le> maxIdentityCacheEntries"
    using assms(1) by (auto simp: id_ok_def intro!: sb.put_amap sb.put_bound)
  ultimately show ?thesis
    using assms(1) by (simp add: id_ok_def id_coherent_def setCachedIdentityLocked_def)
qed

lemma id_ok_db: "id_ok s \<Longrightarrow> identity_keys d = identity_keys (s_db s) \<Longrightarrow> id_ok (s\<lparr>s_db := d\<rparr>)"
  by (simp add: id_ok_def id_coherent_def)

lemma id_ok_amap: "id_ok s \<Longrightarrow> amap (identity_keys (s_db s))"
  by (simp add: id_ok_def)

lemma id_ok_lookup:
  assumes "id_ok s"
  shows "present_key s a = Some k \<Longrightarrow> ids s a = Some k"
    and "map_of (identityCache s) a = Some e \<Longrightarrow> ids s a = (if ic_Present e then Some (ic_Key e) else None)"
  using assms by (auto simp: id_ok_def id_coherent_def entry_of_def present_key_def split: option.splits if_splits)

lemma on_db_exec_cases:
  assumes "on_db (sql_exec st) s = (r, s')"
  obtains e where "r = Inl e" and "s' = s\<lparr>s_db := tick (s_db s)\<rparr>"
  | d where "r = Inr ()" and "st (s_db s) = Inr d" and "s' = s\<lparr>s_db := tick d\<rparr>"
  using assms by (auto simp: on_db_def sql_exec_def Let_def split: if_splits sum.splits)

lemma on_db_query_cases:
  assumes "on_db (sql_query q) s = (r, s')"
  shows "s' = s\<lparr>s_db := tick (s_db s)\<rparr>" and "r = Inl DbFailed \<or> r = Inr (q (s_db s))"
  using assms by (auto simp: on_db_def sql_query_def Let_def split: if_splits)

text \<open>The cache holds no entry for the addresses a statement changes the rows of.\<close>

lemma id_ok_change:
  assumes "id_ok s" and "\<forall>b. b \<noteq> a \<longrightarrow> map_of (identity_keys d) b = ids s b"
    and "\<forall>k. map_of (identity_keys d) a = Some k \<longrightarrow> length k = 32" and "entry_of (map_of (identity_keys d) a) e"
    and "amap (identity_keys d)"
  shows "id_ok (setCachedIdentityLocked pick a e (s\<lparr>s_db := d\<rparr>))"
proof -
  let ?m = "setBoundedCacheEntry pick maxIdentityCacheEntries a e (identityCache s)"
  have "entry_of (map_of (identity_keys d) b) x" if "map_of ?m b = Some x" for b x
    by (rule sb.put_entries [where P = "\<lambda>b x. entry_of (map_of (identity_keys d) b) x", OF _ assms(4) that])
      (use assms(1,2) in \<open>auto simp: id_ok_def id_coherent_def\<close>)
  moreover have "amap ?m" "length ?m \<le> maxIdentityCacheEntries"
    using assms(1) by (auto simp: id_ok_def intro!: sb.put_amap sb.put_bound)
  moreover have "length k = 32" if "map_of (identity_keys d) b = Some k" for b k
    using assms(1-3) that by (cases "b = a") (auto simp: id_ok_def)
  ultimately show ?thesis
    using assms(5) by (simp add: id_ok_def id_coherent_def setCachedIdentityLocked_def)
qed

lemma PutIdentity_ok:
  assumes "id_ok s" and "PutIdentity pick a key s = (r, s')"
  shows "id_ok s'" and "ids s' = (if \<exists>e. r = Inl e then ids s else (ids s)(a \<mapsto> key))"
    and "identityDeleteGen s' = identityDeleteGen s"
proof -
  have "id_ok s' \<and> ids s' = (if \<exists>e. r = Inl e then ids s else (ids s)(a \<mapsto> key)) \<and>
    identityDeleteGen s' = identityDeleteGen s"
  proof (cases "present_key s a = Some key")
    case True
    with assms id_ok_lookup(1) [OF assms(1) True] show ?thesis by (auto simp: PutIdentity_def fun_upd_idem)
  next
    case False
    obtain r1 s1 where 1: "on_db (sql_exec (putIdentityQuery a key)) s = (r1, s1)" by fastforce
    then show ?thesis
    proof (cases rule: on_db_exec_cases)
      case (1 e)
      with \<open>on_db _ s = _\<close> False assms show ?thesis by (auto simp: PutIdentity_def intro!: id_ok_db)
    next
      case (2 d)
      with \<open>on_db _ s = _\<close> False assms(2) have r: "r = Inr ()"
        and s': "s' = setCachedIdentityLocked pick a (presentEntry key) (s\<lparr>s_db := tick d\<rparr>)"
        by (auto simp: PutIdentity_def)
      have d: "length key = 32" "map_of (identity_keys d) = (ids s)(a \<mapsto> key)" "amap (identity_keys d)"
        using 2(2) assms(1) id_ok_amap by (auto simp: putIdentityQuery_def split: if_splits)
      show ?thesis
        unfolding s' using r d by (auto intro!: id_ok_change [OF assms(1)])
    qed
  qed
  then show "id_ok s'" "ids s' = (if \<exists>e. r = Inl e then ids s else (ids s)(a \<mapsto> key))"
    "identityDeleteGen s' = identityDeleteGen s" by blast+
qed

lemma id_ok_gen [simp]: "id_ok (s\<lparr>identityDeleteGen := g\<rparr>) \<longleftrightarrow> id_ok s"
  by (simp add: id_ok_def id_coherent_def)

lemma setCached_gen [simp]:
  "setCachedIdentityLocked pick a e (s\<lparr>identityDeleteGen := g\<rparr>) = (setCachedIdentityLocked pick a e s)\<lparr>identityDeleteGen := g\<rparr>"
  by (cases s) (simp add: setCachedIdentityLocked_def)

lemma DeleteIdentity_ok:
  assumes "id_ok s" and "DeleteIdentity pick a s = (r, s')"
  shows "id_ok s'" and "ids s' = (if \<exists>e. r = Inl e then ids s else (ids s)(a := None))"
    and "identityDeleteGen s' = identityDeleteGen s + (if \<exists>e. r = Inl e then 0 else 1)"
proof -
  let ?st = "\<lambda>d. Inr (d\<lparr>identity_keys := adel a (identity_keys d)\<rparr>) :: db_error + signal_db"
  obtain r1 s1 where 1: "on_db (sql_exec ?st) s = (r1, s1)" by fastforce
  then have "id_ok s' \<and> ids s' = (if \<exists>e. r = Inl e then ids s else (ids s)(a := None)) \<and>
    identityDeleteGen s' = identityDeleteGen s + (if \<exists>e. r = Inl e then 0 else 1)"
  proof (cases rule: on_db_exec_cases)
    case (1 e)
    with \<open>on_db _ s = _\<close> assms show ?thesis by (auto simp: DeleteIdentity_def intro!: id_ok_db)
  next
    case (2 d)
    with \<open>on_db _ s = _\<close> assms(2) have r: "r = Inr ()"
      and s': "s' = (setCachedIdentityLocked pick a absentEntry (s\<lparr>s_db := tick d\<rparr>))
        \<lparr>identityDeleteGen := identityDeleteGen s + 1\<rparr>"
      by (auto simp: DeleteIdentity_def)
    have d: "map_of (identity_keys d) = (ids s)(a := None)" "amap (identity_keys d)"
      using 2(2) id_ok_amap [OF assms(1)] by auto
    show ?thesis unfolding s' using r d by (auto intro!: id_ok_change [OF assms(1)])
  qed
  then show "id_ok s'" "ids s' = (if \<exists>e. r = Inl e then ids s else (ids s)(a := None))"
    "identityDeleteGen s' = identityDeleteGen s + (if \<exists>e. r = Inl e then 0 else 1)" by blast+
qed

lemma set_cached_known:
  assumes "map_of (identityCache s) a \<noteq> None"
  shows "map_of (identityCache (setCachedIdentityLocked pick a e s)) = (map_of (identityCache s))(a \<mapsto> e)"
  using sb.put_update [OF assms] by (simp add: setCachedIdentityLocked_def)

lemma forget_cache:
  "(\<forall>a \<in> set as. map_of (identityCache s) a \<noteq> None) \<Longrightarrow>
   map_of (identityCache (forget pick phone as s)) =
     (\<lambda>a. if a \<in> set as \<and> prefix (phone @ '':'') a then Some absentEntry else map_of (identityCache s) a)"
proof (induction as arbitrary: s)
  case (Cons a as)
  let ?s1 = "if prefix (phone @ '':'') a then setCachedIdentityLocked pick a absentEntry s else s"
  from Cons.prems have "map_of (identityCache ?s1) =
    (if prefix (phone @ '':'') a then (map_of (identityCache s))(a \<mapsto> absentEntry) else map_of (identityCache s))"
    by (simp add: set_cached_known)
  moreover from this Cons.prems have "\<forall>b \<in> set as. map_of (identityCache ?s1) b \<noteq> None" by auto
  moreover have "forget pick phone (a # as) s = forget pick phone as ?s1" by (simp add: forget_def)
  ultimately show ?case using Cons.IH [of ?s1] by (auto simp: fun_eq_iff)
qed (simp add: forget_def)

lemma forget_simps [simp]:
  "s_db (forget pick phone as s) = s_db s" "identityDeleteGen (forget pick phone as s) = identityDeleteGen s"
  by (induction as arbitrary: s) (simp_all add: forget_def)

lemma forget_bounds:
  "amap (identityCache s) \<Longrightarrow> length (identityCache s) \<le> maxIdentityCacheEntries \<Longrightarrow>
   amap (identityCache (forget pick phone as s)) \<and>
   length (identityCache (forget pick phone as s)) \<le> maxIdentityCacheEntries"
proof (induction as arbitrary: s)
  case (Cons a as)
  let ?s1 = "if prefix (phone @ '':'') a then setCachedIdentityLocked pick a absentEntry s else s"
  have "amap (identityCache ?s1)" "length (identityCache ?s1) \<le> maxIdentityCacheEntries"
    using Cons.prems by (auto simp: setCachedIdentityLocked_def intro!: sb.put_amap sb.put_bound)
  moreover have "forget pick phone (a # as) s = forget pick phone as ?s1" by (simp add: forget_def)
  ultimately show ?case using Cons.IH [of ?s1] by metis
qed (simp add: forget_def)

lemma map_of_filter_key: "map_of (filter (\<lambda>(a, k). P a) m) a = (if P a then map_of m a else None)"
  by (induction m) auto

lemma id_ok_forget:
  assumes "id_ok s" and "map_of (identity_keys d) = (\<lambda>a. if prefix (phone @ '':'') a then None else ids s a)"
    and "amap (identity_keys d)"
  shows "id_ok (forget pick phone (map fst (identityCache s)) (s\<lparr>s_db := d\<rparr>))"
proof -
  let ?s = "forget pick phone (map fst (identityCache s)) (s\<lparr>s_db := d\<rparr>)"
  have "map_of (identityCache ?s) = (\<lambda>a. if map_of (identityCache s) a \<noteq> None \<and> prefix (phone @ '':'') a
    then Some absentEntry else map_of (identityCache s) a)"
    by (subst forget_cache) (auto simp: map_of_eq_None_fst fun_eq_iff)
  then have "entry_of (ids ?s a) e" if "map_of (identityCache ?s) a = Some e" for a e
    using that assms by (cases "prefix (phone @ '':'') a") (auto simp: id_ok_def id_coherent_def split: if_splits)
  moreover have "amap (identityCache ?s) \<and> length (identityCache ?s) \<le> maxIdentityCacheEntries"
    using assms(1) by (intro forget_bounds) (auto simp: id_ok_def)
  moreover have "length k = 32" if "ids ?s a = Some k" for a k
    using that assms by (auto simp: id_ok_def split: if_splits)
  ultimately show ?thesis using assms(3) by (simp add: id_ok_def id_coherent_def)
qed

lemma forget_gen [simp]:
  "forget pick phone as (s\<lparr>identityDeleteGen := g\<rparr>) = (forget pick phone as s)\<lparr>identityDeleteGen := g\<rparr>"
  by (induction as arbitrary: s) (simp_all add: forget_def)

lemma DeleteAllIdentities_ok:
  assumes "id_ok s" and "DeleteAllIdentities pick phone s = (r, s')"
  shows "id_ok s'"
    and "ids s' = (if \<exists>e. r = Inl e then ids s else (\<lambda>a. if prefix (phone @ '':'') a then None else ids s a))"
    and "identityDeleteGen s' = identityDeleteGen s + (if \<exists>e. r = Inl e then 0 else 1)"
proof -
  obtain r1 s1 where 1: "on_db (sql_exec (deleteAllIdentitiesQuery phone)) s = (r1, s1)" by fastforce
  then have "id_ok s' \<and>
    ids s' = (if \<exists>e. r = Inl e then ids s else (\<lambda>a. if prefix (phone @ '':'') a then None else ids s a)) \<and>
    identityDeleteGen s' = identityDeleteGen s + (if \<exists>e. r = Inl e then 0 else 1)"
  proof (cases rule: on_db_exec_cases)
    case (1 e)
    with \<open>on_db _ s = _\<close> assms show ?thesis by (auto simp: DeleteAllIdentities_def intro!: id_ok_db)
  next
    case (2 d)
    have d: "map_of (identity_keys d) = (\<lambda>a. if prefix (phone @ '':'') a then None else ids s a)"
      "amap (identity_keys d)"
      using 2(2) id_ok_amap [OF assms(1)] by (auto simp: deleteAllIdentitiesQuery_def map_of_filter_key fun_eq_iff
          signalAddressRange_prefix amap_filter)
    have "s' = (forget pick phone (map fst (identityCache s)) (s\<lparr>s_db := tick d\<rparr>))
        \<lparr>identityDeleteGen := identityDeleteGen s + 1\<rparr>" "r = Inr ()"
      using 2 \<open>on_db _ s = _\<close> assms(2) by (auto simp: DeleteAllIdentities_def)
    then show ?thesis using d by (auto intro!: id_ok_forget [OF assms(1)])
  qed
  then show "id_ok s'"
    "ids s' = (if \<exists>e. r = Inl e then ids s else (\<lambda>a. if prefix (phone @ '':'') a then None else ids s a))"
    "identityDeleteGen s' = identityDeleteGen s + (if \<exists>e. r = Inl e then 0 else 1)" by blast+
qed

definition trusted_by :: "bytes option \<Rightarrow> bytes \<Rightarrow> bool" where
  "trusted_by stored key = (case stored of None \<Rightarrow> True | Some k \<Rightarrow> k = key)"

lemma IsTrustedIdentity_ok:
  assumes "id_ok s" and "IsTrustedIdentity pick a key s = (r, s')"
  shows "id_ok s'" and "ids s' = ids s" and "identityDeleteGen s' = identityDeleteGen s"
    and "r = Inl DbFailed \<or> r = Inr (trusted_by (ids s a) key)"
proof -
  have "id_ok s' \<and> ids s' = ids s \<and> identityDeleteGen s' = identityDeleteGen s \<and>
    (r = Inl DbFailed \<or> r = Inr (trusted_by (ids s a) key))"
  proof (cases "map_of (identityCache s) a")
    case (Some c)
    with assms id_ok_lookup(2) [OF assms(1) Some] show ?thesis
      by (auto simp: IsTrustedIdentity_def trusted_by_def)
  next
    case None
    obtain r1 s1 where q: "getIdentityQuery a s = (r1, s1)" by fastforce
    note q' = on_db_query_cases [OF q [unfolded getIdentityQuery_def]]
    then have ok: "id_ok s1" "ids s1 = ids s" "identityDeleteGen s1 = identityDeleteGen s"
      using assms(1) by (auto intro: id_ok_db)
    have "length k = 32" if "ids s a = Some k" for k using assms(1) that by (simp add: id_ok_def)
    with q' q None assms(2) ok show ?thesis
      by (auto simp: IsTrustedIdentity_def trusted_by_def sbind_def intro!: id_ok_set split: option.splits)
  qed
  then show "id_ok s'" "ids s' = ids s" "identityDeleteGen s' = identityDeleteGen s"
    "r = Inl DbFailed \<or> r = Inr (trusted_by (ids s a) key)" by blast+
qed

lemma EnsureIdentity_ok:
  assumes "id_ok s" and "EnsureIdentity pick a key g s = (Inr b, s')"
  shows "id_ok s'" and "identityDeleteGen s' = identityDeleteGen s"
    and "ids s' = (if g = identityDeleteGen s \<and> ids s a = None then (ids s)(a \<mapsto> key) else ids s)"
    and "b \<longleftrightarrow> g = identityDeleteGen s \<and> ids s' a = Some key"
proof -
  have "id_ok s' \<and> identityDeleteGen s' = identityDeleteGen s \<and>
    ids s' = (if g = identityDeleteGen s \<and> ids s a = None then (ids s)(a \<mapsto> key) else ids s) \<and>
    (b \<longleftrightarrow> g = identityDeleteGen s \<and> ids s' a = Some key)"
  proof (cases "g = identityDeleteGen s \<and> present_key s a = None")
    case False
    with assms id_ok_lookup(1) [OF assms(1)] show ?thesis
      by (auto simp: EnsureIdentity_def split: if_splits option.splits)
  next
    case True
    from assms(2) True obtain s1 r s2 where e: "on_db (sql_exec (ensureIdentityQuery a key)) s = (Inr (), s1)"
      and q: "getIdentityQuery a s1 = (Inr r, s2)"
      and rest: "(case r of None \<Rightarrow> serr ErrNoRows | Some existing \<Rightarrow>
        if length existing \<noteq> 32 then serr ErrInvalidLength
        else sbind (smod (setCachedIdentityLocked pick a (presentEntry existing))) (\<lambda>_. sret (existing = key))) s2 = (Inr b, s')"
      by (auto simp: EnsureIdentity_def sbind_eq_Inr)
    from e obtain d where s1: "s1 = s\<lparr>s_db := tick d\<rparr>" and d: "ensureIdentityQuery a key (s_db s) = Inr d"
      by (auto simp: on_db_Inr sql_exec_Inr)
    from q have s2: "s2 = s\<lparr>s_db := tick (tick d)\<rparr>" and r: "r = map_of (identity_keys d) a"
      by (auto simp: getIdentityQuery_def on_db_Inr sql_query_Inr s1)
    from d have ids: "map_of (identity_keys d) = (if ids s a = None then (ids s)(a \<mapsto> key) else ids s)"
      and len: "length key = 32" and am: "amap (identity_keys d)"
      using id_ok_amap [OF assms(1)] by (auto simp: ensureIdentityQuery_def split: if_splits)
    then obtain k where k: "map_of (identity_keys d) a = Some k" by (cases "ids s a") auto
    with ids len assms(1) have "length k = 32" by (auto simp: id_ok_def split: if_splits)
    with rest r k have b: "b = (k = key)"
      and s': "s' = setCachedIdentityLocked pick a (presentEntry k) (s\<lparr>s_db := tick (tick d)\<rparr>)"
      by (auto simp: s2)
    have "id_ok s'"
      unfolding s' using ids k am \<open>length k = 32\<close> by (intro id_ok_change [OF assms(1)]) auto
    with True ids k b s' show ?thesis by auto
  qed
  then show "id_ok s'" "identityDeleteGen s' = identityDeleteGen s"
    "ids s' = (if g = identityDeleteGen s \<and> ids s a = None then (ids s)(a \<mapsto> key) else ids s)"
    "b \<longleftrightarrow> g = identityDeleteGen s \<and> ids s' a = Some key" by blast+
qed

subsection \<open>Reading many keys\<close>

lemma scan_cached_missing:
  "set (snd (scan_cached cache seen as result missing)) =
     set missing \<union> {a \<in> set as - set seen. map_of cache a = None}"
  by (induction cache seen as result missing rule: scan_cached.induct) (auto split: option.splits)

lemma scan_cached_result:
  "fst (scan_cached cache seen as result missing) a =
     (if a \<in> set as - set seen then
        (case map_of cache a of Some c \<Rightarrow> if ic_Present c then Some (ic_Key c) else result a | None \<Rightarrow> result a)
      else result a)"
proof (induction cache seen as result missing rule: scan_cached.induct)
  case (2 cache seen b as result missing)
  show ?case
  proof (cases "b \<in> set seen")
    case True
    with 2(1) show ?thesis by auto
  next
    case False
    with 2(2,3) [OF False] show ?thesis by (cases "a = b") (auto split: option.split)
  qed
qed simp

lemma read_identities_amap: "read_identities rows fetched result = Inr (f, r) \<Longrightarrow> amap fetched \<Longrightarrow> amap f"
  by (induction rows fetched result rule: read_identities.induct) (auto split: if_splits)

lemma read_identities_result:
  "read_identities rows fetched result = Inr (f, r) \<Longrightarrow> amap rows \<Longrightarrow>
   r a = (case map_of rows a of Some i \<Rightarrow> Some i | None \<Rightarrow> result a) \<and>
   map_of f a = (case map_of rows a of Some i \<Rightarrow> Some (presentEntry i) | None \<Rightarrow> map_of fetched a)"
proof (induction rows fetched result rule: read_identities.induct)
  case (2 b i rows fetched result)
  from 2(3) have nb: "map_of rows b = None" and am: "amap rows" by (auto simp: amap_def map_of_eq_None_fst)
  from 2(2) have l: "length i = 32" and rd: "read_identities rows (aset b (presentEntry i) fetched) (result(b \<mapsto> i)) = Inr (f, r)"
    by (auto split: if_splits)
  from 2(1) [OF _ rd am] l nb show ?case by (cases "a = b") (auto split: option.split)
qed simp

lemma cacheFetched_ok:
  assumes "cacheFetchedIdentitiesLocked pick result fetched s = (result', s')" and "id_ok s"
    and "\<And>a e. (a, e) \<in> set fetched \<Longrightarrow> entry_of (ids s a) e \<and> result a = ids s a"
  shows "id_ok s'" and "s_db s' = s_db s" and "identityDeleteGen s' = identityDeleteGen s" and "result' = result"
proof -
  have "id_ok s' \<and> s_db s' = s_db s \<and> identityDeleteGen s' = identityDeleteGen s \<and> result' = result"
    using assms
  proof (induction pick result fetched s rule: cacheFetchedIdentitiesLocked.induct)
    case (2 pick result a e fetched s)
    from 2(5) have ae: "entry_of (ids s a) e" "result a = ids s a" by auto
    show ?case
    proof (cases "map_of (identityCache s) a")
      case None
      have "id_ok (setCachedIdentityLocked pick a e s)" by (rule id_ok_set [OF 2(4) ae(1)])
      with 2(1) [OF None] 2(3,5) None show ?thesis by auto
    next
      case (Some c)
      have eq: "(if ic_Present c then result(a \<mapsto> ic_Key c) else result(a := None)) = result"
        using id_ok_lookup(2) [OF 2(4) Some] ae(2) by (auto simp: fun_upd_idem)
      have "cacheFetchedIdentitiesLocked pick result fetched s = (result', s')"
        using 2(3) Some by (simp add: eq)
      with 2(2) [OF Some, unfolded eq] 2(4,5) show ?thesis by auto
    qed
  qed simp
  then show "id_ok s'" "s_db s' = s_db s" "identityDeleteGen s' = identityDeleteGen s" "result' = result" by blast+
qed

lemma map_of_fold_const: "map_of (fold (\<lambda>a m. aset a c m) as m) a = (if a \<in> set as then Some c else map_of m a)"
  by (induction as arbitrary: m) auto

lemma amap_fold_const: "amap m \<Longrightarrow> amap (fold (\<lambda>a m. aset a c m) as m)"
  by (induction as arbitrary: m) auto

lemma read_identities_fails: "read_identities rows fetched result = Inl e \<Longrightarrow> e = ErrInvalidLength"
  by (induction rows fetched result rule: read_identities.induct) (auto split: if_splits)

lemma fetch_identities_ok:
  assumes ok: "id_ok s" and run: "fetch_identities pick missing result s = (r, s')"
    and none: "\<forall>a \<in> set missing. result a = None"
  shows "id_ok s' \<and> ids s' = ids s \<and> identityDeleteGen s' = identityDeleteGen s \<and>
    (r = Inl DbFailed \<or> r = Inl ErrInvalidLength \<or> r = Inr (\<lambda>a. if a \<in> set missing then ids s a else result a))"
proof -
  let ?q = "\<lambda>d. filter (\<lambda>(a, i). a \<in> set missing) (identity_keys d)"
  let ?fetched = "fold (\<lambda>a m. aset a absentEntry m) missing []"
  obtain r1 s1 where q: "queryManyIdentities missing s = (r1, s1)" by fastforce
  note qc = on_db_query_cases [OF q [unfolded queryManyIdentities_def]]
  then have ok1: "id_ok s1" "ids s1 = ids s" "identityDeleteGen s1 = identityDeleteGen s"
    using ok by (auto intro: id_ok_db)
  show ?thesis
  proof (cases "r1 = Inl DbFailed")
    case True
    with run q ok1 show ?thesis by (auto simp: fetch_identities_def)
  next
    case False
    with qc have r1: "r1 = Inr (?q (s_db s))" by blast
    show ?thesis
    proof (cases "read_identities (?q (s_db s)) ?fetched result")
      case (Inl e)
      with run q r1 ok1 read_identities_fails [OF Inl] show ?thesis by (auto simp: fetch_identities_def Let_def sbind_def)
    next
      case (Inr fr)
      then obtain f rs where rd: "read_identities (?q (s_db s)) ?fetched result = Inr (f, rs)" by (cases fr) auto
      have am: "amap (?q (s_db s))" using id_ok_amap [OF ok] by (rule amap_filter)
      have row: "map_of (?q (s_db s)) a = (if a \<in> set missing then ids s a else None)" for a
        by (rule map_of_filter_key)
      have amf: "amap f" by (rule read_identities_amap [OF rd]) (simp add: amap_fold_const)
      have rs: "rs a = (if a \<in> set missing then ids s a else result a)"
        and fa: "map_of f a = (if a \<in> set missing then Some (case ids s a of None \<Rightarrow> absentEntry | Some i \<Rightarrow> presentEntry i) else None)" for a
        using read_identities_result [OF rd am, of a] none by (auto simp: row map_of_fold_const split: option.splits)
      obtain res s2 where c: "cacheFetchedIdentitiesLocked pick rs f s1 = (res, s2)" by fastforce
      have "entry_of (ids s1 a) e \<and> rs a = ids s1 a" if "(a, e) \<in> set f" for a e
      proof -
        have "map_of f a = Some e" using that amf by (simp add: amap_def)
        then show ?thesis using fa [of a] rs [of a] ok1 by (auto split: if_splits option.splits)
      qed
      from cacheFetched_ok [OF c ok1(1) this] run q r1 rd c ok1 rs show ?thesis
        by (auto simp: fetch_identities_def Let_def sbind_def fun_eq_iff)
    qed
  qed
qed

lemma GetManyIdentities_ok:
  assumes ok: "id_ok s" and run: "GetManyIdentities pick addresses s = (r, s')"
  shows "id_ok s'" and "ids s' = ids s" and "identityDeleteGen s' = identityDeleteGen s"
    and "r = Inl DbFailed \<or> r = Inl ErrInvalidLength \<or> r = Inr (ids s |` set addresses, identityDeleteGen s)"
proof -
  obtain result missing where sc: "scan_cached (identityCache s) [] addresses Map.empty [] = (result, missing)"
    by fastforce
  obtain result2 missing2 where sc2: "scan_cached (identityCache s) [] missing result [] = (result2, missing2)"
    by fastforce
  have m: "set missing = {a \<in> set addresses. map_of (identityCache s) a = None}"
    using scan_cached_missing [of "identityCache s" "[]" addresses Map.empty "[]"] by (simp add: sc)
  have m2: "set missing2 = set missing"
    using scan_cached_missing [of "identityCache s" "[]" missing result "[]"] by (auto simp: sc2 m)
  have res: "result a = (if a \<in> set addresses \<and> a \<notin> set missing then ids s a else None)" for a
    using scan_cached_result [of "identityCache s" "[]" addresses Map.empty "[]" a] id_ok_lookup(2) [OF ok]
    by (auto simp: sc m split: option.splits if_splits)
  have res2: "result2 = result"
  proof
    fix a
    show "result2 a = result a"
      using scan_cached_result [of "identityCache s" "[]" missing result "[]" a] m by (auto simp: sc2)
  qed
  have "id_ok s' \<and> ids s' = ids s \<and> identityDeleteGen s' = identityDeleteGen s \<and>
    (r = Inl DbFailed \<or> r = Inl ErrInvalidLength \<or> r = Inr (ids s |` set addresses, identityDeleteGen s))"
  proof (cases "missing = []")
    case True
    then have "result = ids s |` set addresses" by (auto simp: fun_eq_iff res restrict_map_def)
    with True run ok sc show ?thesis
      by (cases "addresses = []") (auto simp: GetManyIdentities_def fun_eq_iff restrict_map_def)
  next
    case False
    then have ne: "addresses \<noteq> []" "missing2 \<noteq> []" using m m2 by (auto simp flip: set_empty)
    obtain r1 s1 where f: "fetch_identities pick missing2 result s = (r1, s1)" by fastforce
    have "(\<lambda>a. if a \<in> set missing2 then ids s a else result a) = ids s |` set addresses"
      using m m2 by (auto simp: fun_eq_iff res restrict_map_def)
    moreover have "\<forall>a \<in> set missing2. result a = None" using m m2 by (simp add: res)
    ultimately show ?thesis using fetch_identities_ok [OF ok f] run sc sc2 f False ne
      by (auto simp: GetManyIdentities_def res2 sbind_def)
  qed
  then show "id_ok s'" "ids s' = ids s" "identityDeleteGen s' = identityDeleteGen s"
    "r = Inl DbFailed \<or> r = Inl ErrInvalidLength \<or> r = Inr (ids s |` set addresses, identityDeleteGen s)" by blast+
qed

section \<open>Where the cache and the table part\<close>

text \<open>
  \<open>EnsureIdentity\<close> inserts the row, and when the query after it fails returns before the cache is
  updated. An entry that said the address has no key stays, and the next check trusts any key.
\<close>

abbreviation (input) "demo_key \<equiv> \<lambda>n :: byte. replicate 32 n"

definition ensure_failed :: SQLStore where
  "ensure_failed =
     (let s = NewSQLStore (empty_signal_db (\<lambda>n. n = 2));
          s = snd (IsTrustedIdentity (\<lambda>_. 0) ''1:0'' (demo_key 1) s)
      in snd (EnsureIdentity (\<lambda>_. 0) ''1:0'' (demo_key 1) 0 s))"

lemma EnsureIdentity_leaves_stale_entry:
  "ids ensure_failed ''1:0'' = Some (demo_key 1) \<and> \<not> id_coherent ensure_failed \<and>
   fst (IsTrustedIdentity (\<lambda>_. 0) ''1:0'' (demo_key 2) ensure_failed) = Inr True"
proof -
  have "map_of (identityCache ensure_failed) ''1:0'' = Some absentEntry" "ids ensure_failed ''1:0'' = Some (demo_key 1)"
    "fst (IsTrustedIdentity (\<lambda>_. 0) ''1:0'' (demo_key 2) ensure_failed) = Inr True" by code_simp+
  moreover from this have "\<not> id_coherent ensure_failed" unfolding id_coherent_def by fastforce
  ultimately show ?thesis by simp
qed

text \<open>
  Messages are decrypted in a transaction, with the identity operations inside. When it is rolled
  back the cache still has the key: storing it again returns without a statement, so the key is not
  in the table although both calls of \<open>PutIdentity\<close> succeeded.
\<close>

definition txn_failed :: SQLStore where
  "txn_failed =
     snd (DoDecryptionTxn id (PutIdentity (\<lambda>_. 0) ''1:0'' (demo_key 1)) (NewSQLStore (empty_signal_db (\<lambda>n. n = 2))))"

lemma rollback_leaves_stale_entry:
  "fst (PutIdentity (\<lambda>_. 0) ''1:0'' (demo_key 1) txn_failed) = Inr () \<and>
   ids (snd (PutIdentity (\<lambda>_. 0) ''1:0'' (demo_key 1) txn_failed)) ''1:0'' = None \<and> \<not> id_coherent txn_failed"
proof -
  have "map_of (identityCache txn_failed) ''1:0'' = Some (presentEntry (demo_key 1))" "ids txn_failed ''1:0'' = None"
    "fst (PutIdentity (\<lambda>_. 0) ''1:0'' (demo_key 1) txn_failed) = Inr ()"
    "ids (snd (PutIdentity (\<lambda>_. 0) ''1:0'' (demo_key 1) txn_failed)) ''1:0'' = None" by code_simp+
  moreover from this have "\<not> id_coherent txn_failed" unfolding id_coherent_def by fastforce
  ultimately show ?thesis by simp
qed

end
