(* ===== verification/Migrate.thy ===== *)
theory Migrate
  imports Identity
begin

text \<open>
  \<open>MigratePNToLID\<close> of \<open>src/store/sqlstore/store.go\<close>: when a user known by phone number turns out to
  have a hidden identifier, the sessions, identity keys and sender keys stored for the number move
  to the identifier, in one transaction, once per user. The lemmas say what a completed migration
  leaves in the three tables, and that a failed one leaves them as they were.
\<close>

section \<open>Statements\<close>

definition upsert_all :: "dialect \<Rightarrow> ('k \<times> 'v) list \<Rightarrow> ('k \<times> 'v) list \<Rightarrow> db_error + ('k \<times> 'v) list" where
  "upsert_all dia rows tbl =
     (if dia = Postgres \<and> \<not> distinct (map fst rows) then Inl CardinalityViolation
      else Inr (fold (\<lambda>(k, v) t. aset k v t) rows tbl))"

definition pn_pattern :: "string \<Rightarrow> string" where
  "pn_pattern pn = pn @ '':%''"

definition migratePNToLIDSessionsQuery :: "dialect \<Rightarrow> string \<Rightarrow> string \<Rightarrow> signal_db \<Rightarrow> db_error + signal_db" where
  "migratePNToLIDSessionsQuery dia pn lid d =
     rbind (upsert_all dia
         (map (\<lambda>(a, v). (sql_replace pn lid a, v)) (filter (\<lambda>(a, v). sql_like dia (pn_pattern pn) a) (sessions d)))
         (sessions d))
       (\<lambda>tbl. Inr (d\<lparr>sessions := tbl\<rparr>))"

definition migratePNToLIDIdentityKeysQuery :: "dialect \<Rightarrow> string \<Rightarrow> string \<Rightarrow> signal_db \<Rightarrow> db_error + signal_db" where
  "migratePNToLIDIdentityKeysQuery dia pn lid d =
     rbind (upsert_all dia
         (map (\<lambda>(a, v). (sql_replace pn lid a, v)) (filter (\<lambda>(a, v). sql_like dia (pn_pattern pn) a) (identity_keys d)))
         (identity_keys d))
       (\<lambda>tbl. Inr (d\<lparr>identity_keys := tbl\<rparr>))"

definition migratePNToLIDSenderKeysQuery :: "dialect \<Rightarrow> string \<Rightarrow> string \<Rightarrow> signal_db \<Rightarrow> db_error + signal_db" where
  "migratePNToLIDSenderKeysQuery dia pn lid d =
     rbind (upsert_all dia
         (map (\<lambda>((chat, a), v). ((chat, sql_replace pn lid a), v))
           (filter (\<lambda>((chat, a), v). sql_like dia (pn_pattern pn) a) (sender_keys d)))
         (sender_keys d))
       (\<lambda>tbl. Inr (d\<lparr>sender_keys := tbl\<rparr>))"

definition deleteAllIdentityKeys :: "dialect \<Rightarrow> string \<Rightarrow> (signal_db, db_error, unit) sr" where
  "deleteAllIdentityKeys dia phone = sql_exec (\<lambda>d.
     Inr (d\<lparr>identity_keys := filter (\<lambda>(a, v). \<not> sql_like dia (pn_pattern phone) a) (identity_keys d)\<rparr>))"

definition deleteAllSenderKeys :: "dialect \<Rightarrow> string \<Rightarrow> (signal_db, db_error, unit) sr" where
  "deleteAllSenderKeys dia phone = sql_exec (\<lambda>d.
     Inr (d\<lparr>sender_keys := filter (\<lambda>((chat, a), v). \<not> sql_like dia (pn_pattern phone) a) (sender_keys d)\<rparr>))"

definition hasPNRowsToMigrate :: "dialect \<Rightarrow> string \<Rightarrow> signal_db \<Rightarrow> bool" where
  "hasPNRowsToMigrate dia pn d =
     (let hit = (\<lambda>a. case dia of SQLite \<Rightarrow> in_range (pn @ '':'', pn @ '';'') a | Postgres \<Rightarrow> sql_like dia (pn_pattern pn) a)
      in list_ex (\<lambda>(a, v). hit a) (sessions d) \<or> list_ex (\<lambda>(a, v). hit a) (identity_keys d) \<or>
         list_ex (\<lambda>((chat, a), v). hit a) (sender_keys d))"

text \<open>The count of affected rows is only logged, but asking for it may fail.\<close>

definition RowsAffected :: "(signal_db, db_error, unit) sr" where
  "RowsAffected = sql_query (\<lambda>_. ())"

definition migration_txn :: "dialect \<Rightarrow> string \<Rightarrow> string \<Rightarrow> (signal_db, db_error, unit) sr" where
  "migration_txn dia pn lid =
     sseq id
       [sql_exec (migratePNToLIDSessionsQuery dia pn lid), RowsAffected, deleteAllSessionsQuery pn,
        sql_exec (migratePNToLIDIdentityKeysQuery dia pn lid), RowsAffected, deleteAllIdentityKeys dia pn,
        sql_exec (migratePNToLIDSenderKeysQuery dia pn lid), RowsAffected, deleteAllSenderKeys dia pn]"

section \<open>The migration\<close>

definition finishPNMigration :: "(string, unit) pick \<Rightarrow> string \<Rightarrow> bool \<Rightarrow> SQLStore \<Rightarrow> SQLStore" where
  "finishPNMigration pick pnSignal markMigrated s =
     (let s = s\<lparr>migratingPNSessions := removeAll pnSignal (migratingPNSessions s),
                emptyPNMigrationCache := adel pnSignal (emptyPNMigrationCache s)\<rparr> in
      if markMigrated then
        s\<lparr>migratedPNSessionsCache := setBoundedCacheEntry pick maxMigratedPNEntries pnSignal () (migratedPNSessionsCache s)\<rparr>
      else s)"

definition finishEmptyPNMigration :: "(string, int) pick \<Rightarrow> int \<Rightarrow> string \<Rightarrow> SQLStore \<Rightarrow> SQLStore" where
  "finishEmptyPNMigration pick now pnSignal s =
     s\<lparr>migratingPNSessions := removeAll pnSignal (migratingPNSessions s),
       emptyPNMigrationCache :=
         setBoundedCacheEntry pick maxMigratedPNEntries pnSignal (now + emptyPNMigrationTTL) (emptyPNMigrationCache s)\<rparr>"

text \<open>
  A failing check for rows is only logged, and the migration goes on. \<open>later\<close> is the time at which an
  empty result is remembered.
\<close>

definition run_migration ::
  "dialect \<Rightarrow> (string, unit) pick \<Rightarrow> (string, int) pick \<Rightarrow> int \<Rightarrow> string \<Rightarrow> string \<Rightarrow> unit store_op" where
  "run_migration dia pick pick' later pnSignal lidSignal s =
     (let (hasRows, s) = on_db (sql_query (hasPNRowsToMigrate dia pnSignal)) s in
      if hasRows = Inr False then (Inr (), finishEmptyPNMigration pick' later pnSignal s)
      else
        (let (r, s) = on_db (DoTxn (migration_txn dia pnSignal lidSignal)) s in
         case r of
           Inl e \<Rightarrow> (Inl e, finishPNMigration pick pnSignal False s)
         | Inr _ \<Rightarrow> (Inr (), (finishPNMigration pick pnSignal True s)\<lparr>identityCache := []\<rparr>)))"

definition empty_marker :: "int \<Rightarrow> string \<Rightarrow> SQLStore \<Rightarrow> bool" where
  "empty_marker now pnSignal s =
     (case map_of (emptyPNMigrationCache s) pnSignal of None \<Rightarrow> False | Some emptyUntil \<Rightarrow> now < emptyUntil)"

definition drop_expired :: "int \<Rightarrow> string \<Rightarrow> SQLStore \<Rightarrow> SQLStore" where
  "drop_expired now pnSignal s =
     (if empty_marker now pnSignal s then s
      else s\<lparr>emptyPNMigrationCache := adel pnSignal (emptyPNMigrationCache s)\<rparr>)"

lemma drop_expired_simps [simp]:
  "s_db (drop_expired now p s) = s_db s" "identityCache (drop_expired now p s) = identityCache s"
  "migratedPNSessionsCache (drop_expired now p s) = migratedPNSessionsCache s"
  "migratingPNSessions (drop_expired now p s) = migratingPNSessions s"
  by (simp_all add: drop_expired_def)

definition MigratePNToLID ::
  "dialect \<Rightarrow> (string, unit) pick \<Rightarrow> (string, int) pick \<Rightarrow> int \<Rightarrow> int \<Rightarrow> JID \<Rightarrow> JID \<Rightarrow> unit store_op" where
  "MigratePNToLID dia pick pick' now later pn lid s =
     (let pnSignal = SignalAddressUser pn;
          migrated = map_of (migratedPNSessionsCache s) pnSignal \<noteq> None;
          migrating = pnSignal \<in> set (migratingPNSessions s);
          empty = empty_marker now pnSignal s;
          s = drop_expired now pnSignal s
      in
      if migrated \<or> migrating \<or> empty then (Inr (), s)
      else run_migration dia pick pick' later pnSignal (SignalAddressUser lid)
             (s\<lparr>migratingPNSessions := pnSignal # migratingPNSessions s\<rparr>))"

section \<open>Moving the rows of one table\<close>




text \<open>
  The table after rows with a key in \<open>P\<close> were copied to the key \<open>f\<close> gives and then deleted.
\<close>

definition moved :: "('k \<Rightarrow> bool) \<Rightarrow> ('k \<Rightarrow> 'k) \<Rightarrow> ('k \<rightharpoonup> 'v) \<Rightarrow> ('k \<rightharpoonup> 'v) \<Rightarrow> bool" where
  "moved P f old new \<longleftrightarrow>
     (\<forall>k. P k \<longrightarrow> new k = None) \<and>
     (\<forall>k. P k \<longrightarrow> new (f k) = (case old k of Some v \<Rightarrow> Some v | None \<Rightarrow> old (f k))) \<and>
     (\<forall>k. \<not> P k \<longrightarrow> (\<forall>k'. P k' \<longrightarrow> f k' \<noteq> k) \<longrightarrow> new k = old k)"


section \<open>Addresses of phone numbers and identifiers\<close>
















section \<open>What a migration leaves\<close>

lemma migration_txn_Inr:
  assumes "migration_txn dia pn lid d = (Inr u, d')"
  obtains t1 t2 t3 where
    "upsert_all dia (map (\<lambda>(a, v). (sql_replace pn lid a, v)) (filter (\<lambda>(a, v). sql_like dia (pn_pattern pn) a) (sessions d)))
       (sessions d) = Inr t1"
    and "sessions d' = filter (\<lambda>(a, v). \<not> in_range (signalAddressRange pn) a) t1"
    and "upsert_all dia (map (\<lambda>(a, v). (sql_replace pn lid a, v)) (filter (\<lambda>(a, v). sql_like dia (pn_pattern pn) a) (identity_keys d)))
       (identity_keys d) = Inr t2"
    and "identity_keys d' = filter (\<lambda>(a, v). \<not> sql_like dia (pn_pattern pn) a) t2"
    and "upsert_all dia (map (\<lambda>((chat, a), v). ((chat, sql_replace pn lid a), v))
       (filter (\<lambda>((chat, a), v). sql_like dia (pn_pattern pn) a) (sender_keys d))) (sender_keys d) = Inr t3"
    and "sender_keys d' = filter (\<lambda>((chat, a), v). \<not> sql_like dia (pn_pattern pn) a) t3"
proof -
  from assms obtain d1 d2 d3 d4 d5 d6 d7 d8 where
    s: "sql_exec (migratePNToLIDSessionsQuery dia pn lid) d = (Inr (), d1)" "RowsAffected d1 = (Inr (), d2)"
      "deleteAllSessionsQuery pn d2 = (Inr (), d3)"
    and i: "sql_exec (migratePNToLIDIdentityKeysQuery dia pn lid) d3 = (Inr (), d4)" "RowsAffected d4 = (Inr (), d5)"
      "deleteAllIdentityKeys dia pn d5 = (Inr (), d6)"
    and k: "sql_exec (migratePNToLIDSenderKeysQuery dia pn lid) d6 = (Inr (), d7)" "RowsAffected d7 = (Inr (), d8)"
      "deleteAllSenderKeys dia pn d8 = (Inr (), d')"
    by (auto simp: migration_txn_def sbind_eq_Inr)
  from s(1) obtain t1 where t1: "upsert_all dia (map (\<lambda>(a, v). (sql_replace pn lid a, v))
      (filter (\<lambda>(a, v). sql_like dia (pn_pattern pn) a) (sessions d))) (sessions d) = Inr t1"
    and d1: "d1 = tick (d\<lparr>sessions := t1\<rparr>)"
    by (auto simp: sql_exec_Inr migratePNToLIDSessionsQuery_def rbind_eq_Inr)
  from s(2,3) have d3: "d3 = tick ((tick d1)\<lparr>sessions := filter (\<lambda>(a, v). \<not> in_range (signalAddressRange pn) a) t1\<rparr>)"
    by (simp add: RowsAffected_def sql_query_Inr deleteAllSessionsQuery_def sql_exec_Inr d1)
  from i(1) obtain t2 where t2: "upsert_all dia (map (\<lambda>(a, v). (sql_replace pn lid a, v))
      (filter (\<lambda>(a, v). sql_like dia (pn_pattern pn) a) (identity_keys d3))) (identity_keys d3) = Inr t2"
    and d4: "d4 = tick (d3\<lparr>identity_keys := t2\<rparr>)"
    by (auto simp: sql_exec_Inr migratePNToLIDIdentityKeysQuery_def rbind_eq_Inr)
  from i(2,3) have d6: "d6 = tick ((tick d4)\<lparr>identity_keys := filter (\<lambda>(a, v). \<not> sql_like dia (pn_pattern pn) a) t2\<rparr>)"
    by (simp add: RowsAffected_def sql_query_Inr deleteAllIdentityKeys_def sql_exec_Inr d4)
  from k(1) obtain t3 where t3: "upsert_all dia (map (\<lambda>((chat, a), v). ((chat, sql_replace pn lid a), v))
      (filter (\<lambda>((chat, a), v). sql_like dia (pn_pattern pn) a) (sender_keys d6))) (sender_keys d6) = Inr t3"
    and d7: "d7 = tick (d6\<lparr>sender_keys := t3\<rparr>)"
    by (auto simp: sql_exec_Inr migratePNToLIDSenderKeysQuery_def rbind_eq_Inr)
  from k(2,3) have d': "d' = tick ((tick d7)\<lparr>sender_keys := filter (\<lambda>((chat, a), v). \<not> sql_like dia (pn_pattern pn) a) t3\<rparr>)"
    by (simp add: RowsAffected_def sql_query_Inr deleteAllSenderKeys_def sql_exec_Inr d7)
  have "identity_keys d3 = identity_keys d" "sender_keys d6 = sender_keys d" by (simp_all add: d1 d3 d4 d6)
  with t1 t2 t3 show thesis by (intro that [of t1 t2 t3]) (simp_all add: d1 d3 d4 d6 d7 d')
qed








lemma run_migration_cases:
  assumes "run_migration dia pick pick' later pn lid s = (r, s')" and "map_of (migratedPNSessionsCache s) pn = None"
  obtains (skipped) "r = Inr ()" and "same_signal (s_db s') (s_db s)" and "identityCache s' = identityCache s"
      and "map_of (migratedPNSessionsCache s') pn = None" and "\<not> hasPNRowsToMigrate dia pn (s_db s)"
  | (failed) e where "r = Inl e" and "same_signal (s_db s') (s_db s)" and "identityCache s' = identityCache s"
      and "map_of (migratedPNSessionsCache s') pn = None" and "pn \<notin> set (migratingPNSessions s')"
  | (moved) d where "r = Inr ()" and "identityCache s' = []" and "migration_txn dia pn lid (tick (tick (s_db s))) = (Inr (), d)"
      and "s_db s' = tick d" and "map_of (migratedPNSessionsCache s') pn \<noteq> None"
proof -
  obtain h s1 where q: "on_db (sql_query (hasPNRowsToMigrate dia pn)) s = (h, s1)" by fastforce
  note s1 = on_db_query_cases(1) [OF q]
  obtain r2 s2 where t: "on_db (DoTxn (migration_txn dia pn lid)) s1 = (r2, s2)" by fastforce
  show thesis
  proof (cases "h = Inr False")
    case True
    with q have "\<not> hasPNRowsToMigrate dia pn (s_db s)" by (auto simp: on_db_Inr sql_query_Inr)
    with True assms q s1 show thesis
      by (intro skipped) (auto simp: run_migration_def finishEmptyPNMigration_def)
  next
    case False
    show thesis
    proof (cases r2)
      case (Inl e)
      with t obtain d where "DoTxn (migration_txn dia pn lid) (s_db s1) = (Inl e, d)" "s2 = s1\<lparr>s_db := d\<rparr>"
        by (auto simp: on_db_Inl)
      moreover from this DoTxn_failed have "same_signal d (s_db s)" using s1 same_signal_trans by fastforce
      ultimately show thesis
        using assms q s1 t False Inl by (intro failed [of e]) (auto simp: run_migration_def finishPNMigration_def)
    next
      case (Inr x)
      with t obtain d where "DoTxn (migration_txn dia pn lid) (s_db s1) = (Inr x, d)" and s2: "s2 = s1\<lparr>s_db := d\<rparr>"
        by (auto simp: on_db_Inr)
      from DoTxn_Inr [OF this(1)] obtain d1 where "migration_txn dia pn lid (tick (s_db s1)) = (Inr (), d1)" "d = tick d1" .
      then show thesis
        using assms q s1 t False Inr s2 sb.put_same
        by (intro moved [of d1]) (auto simp: run_migration_def finishPNMigration_def Let_def)
    qed
  qed
qed



abbreviation (input) "demo_pn \<equiv> NewJID ''1234567'' DefaultUserServer"
abbreviation (input) "demo_lid \<equiv> NewJID ''99'' HiddenUserServer"




section \<open>The identity cache after a migration\<close>

lemma aset_entries: "set (aset k v m) \<subseteq> insert (k, v) (set m)"
  by (induction k v m rule: aset.induct) auto

lemma fold_upsert_values: "snd ` set (fold (\<lambda>(k, v) t. aset k v t) rows tbl) \<subseteq> snd ` set rows \<union> snd ` set tbl"
proof (induction rows arbitrary: tbl)
  case (Cons kv rows)
  obtain k v where kv: "kv = (k, v)" by fastforce
  have "snd ` set (aset k v tbl) \<subseteq> insert v (snd ` set tbl)" using image_mono [OF aset_entries [of k v tbl], of snd] by simp
  with Cons.IH [of "aset k v tbl"] kv show ?case by simp blast
qed simp

lemma migrated_values:
  "snd ` set (map (\<lambda>(a, v). (f a, v)) (filter (\<lambda>(a, v). P a) tbl)) \<subseteq> snd ` set tbl"
  by (induction tbl) auto

lemma upsert_values: "upsert_all dia rows tbl = Inr t \<Longrightarrow> snd ` set t \<subseteq> snd ` set rows \<union> snd ` set tbl"
  using fold_upsert_values [of rows tbl] by (simp add: upsert_all_def split: if_split_asm)

lemma upsert_amap: "upsert_all dia rows tbl = Inr t \<Longrightarrow> amap tbl \<Longrightarrow> amap t"
  using fold_upsert_amap [of tbl rows] by (simp add: upsert_all_def split: if_split_asm)

lemma migration_txn_identity:
  assumes "migration_txn dia pn lid d = (Inr x, d')" and "amap (identity_keys d)"
  shows "amap (identity_keys d') \<and> snd ` set (identity_keys d') \<subseteq> snd ` set (identity_keys d)"
proof (rule migration_txn_Inr [OF assms(1)], goal_cases)
  case (1 t1 t2 t3)
  have "snd ` set t2 \<subseteq> snd ` set (identity_keys d)"
    by (rule subset_trans [OF upsert_values [OF 1(3)]]) (rule Un_least [OF migrated_values subset_refl])
  moreover have "snd ` set (identity_keys d') \<subseteq> snd ` set t2" unfolding 1(4) by (rule image_mono) (rule filter_is_subset)
  ultimately show ?case
    unfolding 1(4) using amap_filter [OF upsert_amap [OF 1(3) assms(2)]] by blast
qed

lemma id_ok_values: "id_ok s \<Longrightarrow> \<forall>k \<in> snd ` set (identity_keys (s_db s)). length k = 32"
proof
  fix k
  assume "id_ok s" "k \<in> snd ` set (identity_keys (s_db s))"
  then obtain a where "(a, k) \<in> set (identity_keys (s_db s))" by auto
  then have "ids s a = Some k" using id_ok_amap [OF \<open>id_ok s\<close>] by (simp add: amap_def)
  with \<open>id_ok s\<close> show "length k = 32" by (simp add: id_ok_def)
qed

lemma MigratePNToLID_id_ok:
  assumes ok: "id_ok s" and run: "MigratePNToLID dia pick pick' now later pn lid s = (r, s')"
  shows "id_ok s'"
proof -
  let ?p = "SignalAddressUser pn"
  let ?s = "drop_expired now ?p s"
  let ?t = "?s\<lparr>migratingPNSessions := ?p # migratingPNSessions ?s\<rparr>"
  have keep: "id_ok x" if "same_signal (s_db x) (s_db s)" "identityCache x = identityCache s" for x
    using ok that by (simp add: id_ok_def id_coherent_def same_signal_iff)
  show ?thesis
  proof (cases "map_of (migratedPNSessionsCache s) ?p = None \<and> \<not> (?p \<in> set (migratingPNSessions s) \<or> empty_marker now ?p s)")
    case False
    with run have "s' = ?s" by (auto simp: MigratePNToLID_def Let_def split: if_splits)
    then show ?thesis by (intro keep) auto
  next
    case True
    with run have "run_migration dia pick pick' later ?p (SignalAddressUser lid) ?t = (r, s')"
      by (simp add: MigratePNToLID_def Let_def)
    moreover have "map_of (migratedPNSessionsCache ?t) ?p = None" using True by simp
    ultimately show ?thesis
    proof (cases rule: run_migration_cases)
      case (moved d)
      have "amap (identity_keys d)" "\<forall>k \<in> snd ` set (identity_keys d). length k = 32"
        using migration_txn_identity [OF moved(3)] id_ok_amap [OF ok] id_ok_values [OF ok] by (simp, simp, blast)
      then have "length k = 32" if "map_of (identity_keys d) a = Some k" for a k
        using map_of_SomeD [OF that] by force
      with moved \<open>amap (identity_keys d)\<close> show ?thesis by (simp add: id_ok_def id_coherent_def)
    qed (auto intro: keep)
  qed
qed

end
