(* ===== verification/IdentityRuns.thy ===== *)
theory IdentityRuns
  imports Migrate Refinement
begin

text \<open>
  Runs of the identity key store against its specification: a map from addresses to keys with a
  count of deletions. Whatever the cache evicts and whichever statements fail, the answers are those
  of the map, with failed operations leaving it alone; the one exception is \<open>EnsureIdentity\<close>, which
  may have written its row when it fails.
\<close>

section \<open>Operations and answers\<close>

datatype id_op =
    OpPut string bytes | OpDelete string | OpDeleteAll string | OpTrusted string bytes
  | OpEnsure string bytes "64 word" | OpGetMany "string list"

datatype id_answer = Done | Trusted bool | Identities "bytes option list" "64 word"

definition answer :: "('a \<Rightarrow> id_answer) \<Rightarrow> ('e + 'a) \<times> 's \<Rightarrow> id_answer option \<times> 's" where
  "answer f rs = (case fst rs of Inl e \<Rightarrow> None | Inr x \<Rightarrow> Some (f x), snd rs)"

fun id_step :: "id_pick \<Rightarrow> id_op \<Rightarrow> SQLStore \<Rightarrow> id_answer option \<times> SQLStore" where
  "id_step pick (OpPut a k) s = answer (\<lambda>_. Done) (PutIdentity pick a k s)"
| "id_step pick (OpDelete a) s = answer (\<lambda>_. Done) (DeleteIdentity pick a s)"
| "id_step pick (OpDeleteAll p) s = answer (\<lambda>_. Done) (DeleteAllIdentities pick p s)"
| "id_step pick (OpTrusted a k) s = answer Trusted (IsTrustedIdentity pick a k s)"
| "id_step pick (OpEnsure a k g) s = answer Trusted (EnsureIdentity pick a k g s)"
| "id_step pick (OpGetMany as) s = answer (\<lambda>(m, g). Identities (map m as) g) (GetManyIdentities pick as s)"

fun id_spec :: "id_op \<Rightarrow> (string \<rightharpoonup> bytes) \<times> 64 word \<Rightarrow> id_answer \<times> (string \<rightharpoonup> bytes) \<times> 64 word" where
  "id_spec (OpPut a k) (m, g) = (Done, m(a \<mapsto> k), g)"
| "id_spec (OpDelete a) (m, g) = (Done, m(a := None), g + 1)"
| "id_spec (OpDeleteAll p) (m, g) = (Done, (\<lambda>a. if prefix (p @ '':'') a then None else m a), g + 1)"
| "id_spec (OpTrusted a k) (m, g) = (Trusted (trusted_by (m a) k), m, g)"
| "id_spec (OpEnsure a k g') (m, g) =
     (let m' = (if g' = g \<and> m a = None then m(a \<mapsto> k) else m) in (Trusted (g' = g \<and> m' a = Some k), m', g))"
| "id_spec (OpGetMany as) (m, g) = (Identities (map m as) g, m, g)"

definition id_abs :: "SQLStore \<Rightarrow> (string \<rightharpoonup> bytes) \<times> 64 word" where
  "id_abs s = (ids s, identityDeleteGen s)"

text \<open>The condition of a step: it is not an \<open>EnsureIdentity\<close> that fails after its row was written.\<close>

definition id_safe :: "id_pick \<Rightarrow> id_op \<Rightarrow> SQLStore \<Rightarrow> bool" where
  "id_safe pick op s \<longleftrightarrow> 
     (case op of
        OpEnsure a k g \<Rightarrow> fst (id_step pick op s) \<noteq> None \<or> ids (snd (id_step pick op s)) a = ids s a
      | _ \<Rightarrow> True)"

section \<open>Refinement\<close>

lemma answer_Some: "answer f rs = (Some a, s') \<longleftrightarrow> (\<exists>x. rs = (Inr x, s') \<and> a = f x)"
  by (cases rs) (auto simp: answer_def split: sum.splits)

lemma answer_None: "answer f rs = (None, s') \<longleftrightarrow> (\<exists>e. rs = (Inl e, s'))"
  by (cases rs) (auto simp: answer_def split: sum.splits)

lemma id_step_answered:
  assumes "id_ok s" and "id_step pick op s = (Some r, s')"
  shows "id_ok s' \<and> id_spec op (id_abs s) = (r, id_abs s')"
proof (cases op)
  case (OpPut a k)
  with assms(2) obtain x where "PutIdentity pick a k s = (Inr x, s')" "r = Done" by (auto simp: answer_Some)
  with PutIdentity_ok [OF assms(1) this(1)] OpPut show ?thesis by (simp add: id_abs_def)
next
  case (OpDelete a)
  with assms(2) obtain x where "DeleteIdentity pick a s = (Inr x, s')" "r = Done" by (auto simp: answer_Some)
  with DeleteIdentity_ok [OF assms(1) this(1)] OpDelete show ?thesis by (simp add: id_abs_def)
next
  case (OpDeleteAll p)
  with assms(2) obtain x where "DeleteAllIdentities pick p s = (Inr x, s')" "r = Done" by (auto simp: answer_Some)
  with DeleteAllIdentities_ok [OF assms(1) this(1)] OpDeleteAll show ?thesis by (simp add: id_abs_def)
next
  case (OpTrusted a k)
  with assms(2) obtain x where "IsTrustedIdentity pick a k s = (Inr x, s')" "r = Trusted x" by (auto simp: answer_Some)
  with IsTrustedIdentity_ok [OF assms(1) this(1)] OpTrusted show ?thesis by (simp add: id_abs_def)
next
  case (OpEnsure a k g)
  with assms(2) obtain x where "EnsureIdentity pick a k g s = (Inr x, s')" "r = Trusted x" by (auto simp: answer_Some)
  with EnsureIdentity_ok [OF assms(1) this(1)] OpEnsure show ?thesis by (simp add: id_abs_def Let_def)
next
  case (OpGetMany as)
  with assms(2) obtain m g where "GetManyIdentities pick as s = (Inr (m, g), s')" "r = Identities (map m as) g"
    by (auto simp: answer_Some)
  with GetManyIdentities_ok [OF assms(1) this(1)] OpGetMany show ?thesis by (simp add: id_abs_def)
qed

lemma sbind_Inl_cases:
  assumes "sbind m f s = (Inl e, s')"
  obtains "m s = (Inl e, s')" | x u where "m s = (Inr x, u)" and "f x u = (Inl e, s')"
  using assms by (auto simp: sbind_def split: prod.splits sum.splits)

lemma identity_read_failed:
  assumes "sbind (getIdentityQuery a) (\<lambda>r. case r of None \<Rightarrow> serr ErrNoRows | Some existing \<Rightarrow>
      if length existing \<noteq> 32 then serr ErrInvalidLength
      else sbind (smod (setCachedIdentityLocked pick a (presentEntry existing))) (\<lambda>_. sret (existing = key))) s = (Inl e, s')"
  shows "s' = s\<lparr>s_db := tick (s_db s)\<rparr>"
  using assms
  by (rule sbind_Inl_cases)
    (auto simp: getIdentityQuery_def on_db_Inl on_db_Inr sql_query_Inr sql_query_def sbind_def serr_def
      split: option.splits if_splits)

lemma EnsureIdentity_failed:
  assumes "id_ok s" and "EnsureIdentity pick a key g s = (Inl e, s')" and same: "ids s' a = ids s a"
  shows "id_ok s'" and "ids s' = ids s" and "identityDeleteGen s' = identityDeleteGen s"
proof -
  from assms(2) have run: "sbind (on_db (sql_exec (ensureIdentityQuery a key))) (\<lambda>_.
      sbind (getIdentityQuery a) (\<lambda>r. case r of None \<Rightarrow> serr ErrNoRows | Some existing \<Rightarrow>
        if length existing \<noteq> 32 then serr ErrInvalidLength
        else sbind (smod (setCachedIdentityLocked pick a (presentEntry existing))) (\<lambda>_. sret (existing = key)))) s = (Inl e, s')"
    by (simp add: EnsureIdentity_def split: if_splits option.splits)
  then have "\<exists>d. s' = s\<lparr>s_db := d\<rparr> \<and> (identity_keys d = identity_keys (s_db s) \<or>
      (ids s a = None \<and> identity_keys d = aset a key (identity_keys (s_db s))))"
  proof (rule sbind_Inl_cases)
    assume "on_db (sql_exec (ensureIdentityQuery a key)) s = (Inl e, s')"
    then show ?thesis by (auto simp: on_db_Inl dest!: sql_exec_Inl)
  next
    fix x u
    assume "on_db (sql_exec (ensureIdentityQuery a key)) s = (Inr x, u)"
      and "sbind (getIdentityQuery a) (\<lambda>r. case r of None \<Rightarrow> serr ErrNoRows | Some existing \<Rightarrow>
        if length existing \<noteq> 32 then serr ErrInvalidLength
        else sbind (smod (setCachedIdentityLocked pick a (presentEntry existing))) (\<lambda>_. sret (existing = key))) u = (Inl e, s')"
    from this(1) identity_read_failed [OF this(2)] show ?thesis
      by (auto simp: on_db_Inr sql_exec_Inr ensureIdentityQuery_def split: if_splits)
  qed
  with same have "ids s' = ids s \<and> identity_keys (s_db s') = identity_keys (s_db s) \<and> identityCache s' = identityCache s \<and>
      identityDeleteGen s' = identityDeleteGen s" by auto
  then show "id_ok s'" "ids s' = ids s" "identityDeleteGen s' = identityDeleteGen s"
    using assms(1) by (simp_all add: id_ok_def id_coherent_def)
qed

lemma id_step_failed:
  assumes "id_ok s" and "id_safe pick op s" and "id_step pick op s = (None, s')"
  shows "id_ok s' \<and> id_abs s' = id_abs s"
proof (cases op)
  case (OpPut a k)
  with assms(3) obtain e where "PutIdentity pick a k s = (Inl e, s')" by (auto simp: answer_None)
  from PutIdentity_ok [OF assms(1) this] show ?thesis by (simp add: id_abs_def)
next
  case (OpDelete a)
  with assms(3) obtain e where "DeleteIdentity pick a s = (Inl e, s')" by (auto simp: answer_None)
  from DeleteIdentity_ok [OF assms(1) this] show ?thesis by (simp add: id_abs_def)
next
  case (OpDeleteAll p)
  with assms(3) obtain e where "DeleteAllIdentities pick p s = (Inl e, s')" by (auto simp: answer_None)
  from DeleteAllIdentities_ok [OF assms(1) this] show ?thesis by (simp add: id_abs_def)
next
  case (OpTrusted a k)
  with assms(3) obtain e where "IsTrustedIdentity pick a k s = (Inl e, s')" by (auto simp: answer_None)
  from IsTrustedIdentity_ok [OF assms(1) this] show ?thesis by (simp add: id_abs_def)
next
  case (OpEnsure a k g)
  with assms(3) obtain e where run: "EnsureIdentity pick a k g s = (Inl e, s')" by (auto simp: answer_None)
  moreover have "ids s' a = ids s a" using assms(2, 3) OpEnsure by (simp add: id_safe_def)
  ultimately show ?thesis using EnsureIdentity_failed [OF assms(1)] by (simp add: id_abs_def)
next
  case (OpGetMany as)
  with assms(3) obtain e where "GetManyIdentities pick as s = (Inl e, s')" by (auto simp: answer_None)
  from GetManyIdentities_ok [OF assms(1) this] show ?thesis by (simp add: id_abs_def)
qed

interpretation idr: op_refinement id_ok id_abs "id_safe pick" "id_step pick" id_spec for pick
  by unfold_locales (rule id_step_answered, assumption+, rule id_step_failed, assumption+)

text \<open>
  C23: The identity key store behaves like a map from addresses to keys. For every sequence of its
  operations started on a new store, with any statements failing and any choice of evicted cache
  entries, the answers are those of the map run on the operations that succeeded, and the table is
  that map at the end. The one exception is an \<open>EnsureIdentity\<close> whose insert ran and whose read of
  the row then failed: it has stored the key and reports an error, and no such step is in the sequence.
\<close>

theorem identity_store_refines_map:
  assumes "all_safe (id_safe pick) (id_step pick) ops (NewSQLStore (empty_signal_db fails))"
    and "run_ops (id_step pick) ops (NewSQLStore (empty_signal_db fails)) = (rs, s')"
  shows "spec_ops id_spec ops (map (\<lambda>r. r = None) rs) (Map.empty, 0) = (rs, id_abs s')"
proof -
  have "id_ok (NewSQLStore (empty_signal_db fails))"
    by (simp add: id_ok_def id_coherent_def NewSQLStore_def empty_signal_db_def)
  from idr.runs [OF this assms] show ?thesis
    by (simp add: id_abs_def NewSQLStore_def empty_signal_db_def)
qed

definition demo_ops :: "id_op list" where
  "demo_ops =
     [OpPut ''1:0'' (demo_key 1), OpTrusted ''1:0'' (demo_key 2), OpDeleteAll ''1'', OpTrusted ''1:0'' (demo_key 2),
      OpEnsure ''1:0'' (demo_key 2) 1, OpTrusted ''1:0'' (demo_key 1),
      OpEnsure ''2:0'' (demo_key 2) 0, OpEnsure ''2:0'' (demo_key 2) 0]"

theorem identity_store_refines_map_witness:
  "fst (run_ops (id_step (\<lambda>_. 0)) demo_ops (NewSQLStore (empty_signal_db (\<lambda>n. n = 1 \<or> n = 2)))) =
     [Some Done, Some (Trusted False), None, Some (Trusted False), Some (Trusted False), Some (Trusted True),
      None, Some (Trusted True)] \<and>
   fst (spec_ops id_spec demo_ops [False, False, True, False, False, False, True, False] (Map.empty, 0)) =
     [Some Done, Some (Trusted False), None, Some (Trusted False), Some (Trusted False), Some (Trusted True),
      None, Some (Trusted True)]"
proof -
  let ?s = "NewSQLStore (empty_signal_db (\<lambda>n. n = 1 \<or> n = 2))"
  have safe: "all_safe (id_safe (\<lambda>_. 0)) (id_step (\<lambda>_. 0)) demo_ops ?s" by code_simp
  have run: "fst (run_ops (id_step (\<lambda>_. 0)) demo_ops ?s) =
     [Some Done, Some (Trusted False), None, Some (Trusted False), Some (Trusted False), Some (Trusted True),
      None, Some (Trusted True)]"
    by code_simp
  obtain rs s' where rs: "run_ops (id_step (\<lambda>_. 0)) demo_ops ?s = (rs, s')" by fastforce
  from identity_store_refines_map [OF safe rs] run rs show ?thesis by simp
qed

end
