(* ===== verification/PreKeys.thy ===== *)
theory PreKeys
  imports SignalDb Crypto AttrUtil
begin

text \<open>
  One-time pre keys: their table (\<open>src/store/sqlstore/store.go\<close>), their upload to the server and the
  elements that carry them (\<open>src/prekeys.go\<close>). The random bytes of a new key are an argument, indexed
  by the number of the key; the answers of the server are arguments of the upload. The lemmas show
  that handed out keys are fresh and in the table, that exactly the keys sent are marked as
  uploaded, and that a key survives the way through its element.
\<close>

section \<open>The table\<close>

abbreviation (input) maxPreKeyID :: nat where
  "maxPreKeyID \<equiv> 16777216"

definition insertPreKeyQuery :: "32 word \<Rightarrow> bytes \<Rightarrow> bool \<Rightarrow> signal_db \<Rightarrow> db_error + signal_db" where
  "insertPreKeyQuery keyid priv uploaded d =
     (if \<not> unat keyid < maxPreKeyID \<or> length priv \<noteq> 32 then Inl CheckViolation
      else if map_of (pre_keys d) keyid \<noteq> None then Inl UniqueViolation
      else Inr (d\<lparr>pre_keys := pre_keys d @ [(keyid, priv, uploaded)]\<rparr>))"

definition genOnePreKey :: "crypto \<Rightarrow> (32 word \<Rightarrow> bytes) \<Rightarrow> 32 word \<Rightarrow> bool \<Rightarrow> PreKey store_op" where
  "genOnePreKey c rnd keyid markUploaded =
     (let key = NewPreKey c (rnd keyid) keyid in
      sbind (on_db (sql_exec (insertPreKeyQuery (pk_KeyID key) (Priv key) markUploaded))) (\<lambda>_. sret key))"

text \<open>\<open>MAX\<close> of no row is \<open>NULL\<close>, which reads as zero.\<close>

definition last_id :: "signal_db \<Rightarrow> 32 word" where
  "last_id d = fold max (map fst (pre_keys d)) 0"

definition getNextPreKeyID :: "32 word store_op" where
  "getNextPreKeyID = sbind (on_db (sql_query last_id)) (\<lambda>lastKeyID. sret (lastKeyID + 1))"

definition GenOnePreKey :: "crypto \<Rightarrow> (32 word \<Rightarrow> bytes) \<Rightarrow> PreKey store_op" where
  "GenOnePreKey c rnd = sbind getNextPreKeyID (\<lambda>nextKeyID. genOnePreKey c rnd nextKeyID True)"

definition scanPreKey :: "crypto \<Rightarrow> 32 word \<times> bytes \<times> bool \<Rightarrow> db_error + PreKey" where
  "scanPreKey c row =
     (let (keyid, priv, uploaded) = row in
      if length priv \<noteq> 32 then Inl ErrInvalidLength
      else Inr (KeyPair.extend (NewKeyPairFromPrivateKey c priv) \<lparr>pk_KeyID = keyid, pk_Signature = None\<rparr>))"

fun scan_rows :: "crypto \<Rightarrow> (32 word \<times> bytes \<times> bool) list \<Rightarrow> db_error + PreKey list" where
  "scan_rows c [] = Inr []"
| "scan_rows c (row # rows) =
     rbind (scanPreKey c row) (\<lambda>key. rbind (scan_rows c rows) (\<lambda>keys. Inr (key # keys)))"

definition unuploaded :: "signal_db \<Rightarrow> (32 word \<times> bytes \<times> bool) list" where
  "unuploaded d = sort_key fst (filter (\<lambda>(keyid, priv, uploaded). \<not> uploaded) (pre_keys d))"

fun gen_loop :: "crypto \<Rightarrow> (32 word \<Rightarrow> bytes) \<Rightarrow> nat \<Rightarrow> 32 word \<Rightarrow> PreKey list store_op" where
  "gen_loop c rnd 0 nextKeyID = sret []"
| "gen_loop c rnd (Suc n) nextKeyID =
     sbind (genOnePreKey c rnd nextKeyID False) (\<lambda>key.
     sbind (gen_loop c rnd n (nextKeyID + 1)) (\<lambda>keys. sret (key # keys)))"

definition GetOrGenPreKeys :: "crypto \<Rightarrow> (32 word \<Rightarrow> bytes) \<Rightarrow> 32 word \<Rightarrow> PreKey list store_op" where
  "GetOrGenPreKeys c rnd wanted =
     sbind (on_db (sql_query (\<lambda>d. take (unat wanted) (unuploaded d)))) (\<lambda>rows.
     sbind (slift (scan_rows c rows)) (\<lambda>newKeys.
       let alreadyGeneratedCount = word_of_nat (length newKeys) in
       if wanted > alreadyGeneratedCount then
         sbind getNextPreKeyID (\<lambda>nextKeyID.
         sbind (gen_loop c rnd (unat (wanted - alreadyGeneratedCount)) nextKeyID) (\<lambda>keys. sret (newKeys @ keys)))
       else sret newKeys))"

definition GetPreKey :: "crypto \<Rightarrow> 32 word \<Rightarrow> PreKey option store_op" where
  "GetPreKey c keyid =
     sbind (on_db (sql_query (\<lambda>d. map_of (pre_keys d) keyid))) (\<lambda>r.
       case r of
         None \<Rightarrow> sret None
       | Some row \<Rightarrow> slift (rbind (scanPreKey c (keyid, row)) (\<lambda>key. Inr (Some key))))"

definition RemovePreKey :: "32 word \<Rightarrow> unit store_op" where
  "RemovePreKey keyid = on_db (sql_exec (\<lambda>d. Inr (d\<lparr>pre_keys := adel keyid (pre_keys d)\<rparr>)))"

definition MarkPreKeysAsUploaded :: "32 word \<Rightarrow> unit store_op" where
  "MarkPreKeysAsUploaded upToID = on_db (sql_exec (\<lambda>d.
     Inr (d\<lparr>pre_keys := map (\<lambda>(keyid, priv, uploaded). (keyid, priv, uploaded \<or> keyid \<le> upToID)) (pre_keys d)\<rparr>)))"

definition UploadedPreKeyCount :: "nat store_op" where
  "UploadedPreKeyCount =
     on_db (sql_query (\<lambda>d. length (filter (\<lambda>(keyid, priv, uploaded). uploaded) (pre_keys d))))"

section \<open>Elements\<close>

definition PutUint32 :: "32 word \<Rightarrow> bytes" where
  "PutUint32 w = [ucast (drop_bit 24 w), ucast (drop_bit 16 w), ucast (drop_bit 8 w), ucast w]"

definition be_Uint32 :: "bytes \<Rightarrow> 32 word" where
  "be_Uint32 b =
     push_bit 24 (ucast (b ! 0)) OR push_bit 16 (ucast (b ! 1)) OR push_bit 8 (ucast (b ! 2)) OR ucast (b ! 3)"

definition preKeyToNode :: "PreKey \<Rightarrow> node" where
  "preKeyToNode key =
     (let content = [Node ''id'' [] (VBytes (tl (PutUint32 (pk_KeyID key)))), Node ''value'' [] (VBytes (Pub key))] in
      case pk_Signature key of
        None \<Rightarrow> Node ''key'' [] (VNodes content)
      | Some sig \<Rightarrow> Node ''skey'' [] (VNodes (content @ [Node ''signature'' [] (VBytes sig)])))"

definition preKeysToNodes :: "PreKey list \<Rightarrow> node list" where
  "preKeysToNodes prekeys = map preKeyToNode prekeys"

text \<open>A key read from an element: there is no private part, and the signature may be missing.\<close>

record NodeKey =
  nk_KeyID :: "32 word"
  nk_Pub :: bytes
  nk_Signature :: "bytes option"

datatype prekey_error =
    GotErrorNode | InvalidRegistration | InvalidIdentity | MissingTag string | BadContent string
  | BadLength string nat | InvalidPreKey prekey_error | InvalidSignedPreKey prekey_error | NilSignature

definition child_bytes :: "string \<Rightarrow> nat \<Rightarrow> node \<Rightarrow> prekey_error + bytes" where
  "child_bytes tag n node =
     (let child = GetChildByTag [tag] node in
      if Tag child \<noteq> tag then Inl (MissingTag tag)
      else case Content child of
        VBytes b \<Rightarrow> if length b \<noteq> n then Inl (BadLength tag (length b)) else Inr b
      | _ \<Rightarrow> Inl (BadContent tag))"

definition nodeToPreKey :: "node \<Rightarrow> prekey_error + NodeKey" where
  "nodeToPreKey node =
     rbind (child_bytes ''id'' 3 node) (\<lambda>idBytes.
     rbind (child_bytes ''value'' 32 node) (\<lambda>pubkeyBytes.
     let key = \<lparr>nk_KeyID = be_Uint32 (0 # idBytes), nk_Pub = pubkeyBytes, nk_Signature = None\<rparr> in
     if Tag node = ''skey'' then
       rbind (child_bytes ''signature'' 64 node) (\<lambda>sigBytes. Inr (key\<lparr>nk_Signature := Some sigBytes\<rparr>))
     else Inr key))"

record Bundle =
  b_registrationID :: "32 word"
  b_deviceID :: "32 word"
  b_preKey :: "(32 word \<times> bytes) option"
  b_signedPreKeyID :: "32 word"
  b_signedPreKey :: bytes
  b_signature :: bytes
  b_identityKey :: bytes

definition content_bytes :: "nat \<Rightarrow> prekey_error \<Rightarrow> node \<Rightarrow> prekey_error + bytes" where
  "content_bytes n e node =
     (case Content node of VBytes b \<Rightarrow> if length b \<noteq> n then Inl e else Inr b | _ \<Rightarrow> Inl e)"

text \<open>The signature of the signed key is dereferenced without a look at it: \<open>NilSignature\<close> is the panic.\<close>

definition nodeToPreKeyBundle :: "32 word \<Rightarrow> node \<Rightarrow> prekey_error + Bundle" where
  "nodeToPreKeyBundle deviceID node =
     (let (errorNode, ok) = GetOptionalChildByTag [''error''] node in
      if ok \<and> Tag errorNode = ''error'' then Inl GotErrorNode
      else
        rbind (content_bytes 4 InvalidRegistration (GetChildByTag [''registration''] node)) (\<lambda>registrationBytes.
        let (found, ok) = GetOptionalChildByTag [''keys''] node;
            keysNode = (if ok then found else node) in
        rbind (content_bytes 32 InvalidIdentity (GetChildByTag [''identity''] keysNode)) (\<lambda>identityKeyPub.
        let (preKeyNode, ok) = GetOptionalChildByTag [''key''] keysNode in
        rbind (if ok then rwrap InvalidPreKey (rbind (nodeToPreKey preKeyNode) (\<lambda>k. Inr (Some (nk_KeyID k, nk_Pub k))))
               else Inr None) (\<lambda>preKey.
        rbind (rwrap InvalidSignedPreKey (nodeToPreKey (GetChildByTag [''skey''] keysNode))) (\<lambda>signedPreKey.
          case nk_Signature signedPreKey of
            None \<Rightarrow> Inl NilSignature
          | Some sig \<Rightarrow>
              Inr \<lparr>b_registrationID = be_Uint32 registrationBytes, b_deviceID = deviceID, b_preKey = preKey,
                   b_signedPreKeyID = nk_KeyID signedPreKey, b_signedPreKey = nk_Pub signedPreKey,
                   b_signature = sig, b_identityKey = identityKeyPub\<rparr>)))))"

section \<open>Upload\<close>

record upload_device =
  ud_RegistrationID :: "32 word"
  ud_IdentityPub :: bytes
  ud_SignedPreKey :: PreKey

text \<open>The store, the time of the last upload, the \<open>PreKeysUploaded\<close> event, and the requests sent.\<close>

record upload_state =
  up_store :: SQLStore
  lastPreKeyUpload :: "int option"
  PreKeysUploaded :: bool
  up_sent :: "node list list"

datatype upload_result =
    UploadSkipped | NoPreKeys db_error | UploadNotSent | NotMarked db_error | UploadDone | IndexPanic

abbreviation (input) "WantedPreKeyCount \<equiv> (50 :: nat)"
abbreviation (input) "ten_minutes \<equiv> (600000000000 :: int)"

text \<open>The count is zero when the request fails or the answer has no number.\<close>

definition getServerPreKeyCount :: "'e + node \<Rightarrow> int" where
  "getServerPreKeyCount answer =
     (case answer of
        Inl e \<Rightarrow> 0
      | Inr resp \<Rightarrow> fst (au_Int ''value'' (AttrGetter (GetChildByTag [''count''] resp))))"

definition upload_content :: "upload_device \<Rightarrow> PreKey list \<Rightarrow> node list" where
  "upload_content dev preKeys =
     [Node ''registration'' [] (VBytes (PutUint32 (ud_RegistrationID dev))),
      Node ''type'' [] (VBytes [DjbType]),
      Node ''identity'' [] (VBytes (ud_IdentityPub dev)),
      Node ''list'' [] (VNodes (preKeysToNodes preKeys)),
      preKeyToNode (ud_SignedPreKey dev)]"

definition uploadPreKeys ::
  "crypto \<Rightarrow> (32 word \<Rightarrow> bytes) \<Rightarrow> upload_device \<Rightarrow> bool \<Rightarrow> bool \<Rightarrow> int \<Rightarrow> 'e + node \<Rightarrow> bool \<Rightarrow> bool \<Rightarrow>
   upload_state \<Rightarrow> upload_result \<times> upload_state" where
  "uploadPreKeys c rnd dev isShadow disabled now countAnswer delivered initialUpload u =
     (if isShadow \<or> disabled then (UploadSkipped, u)
      else if (case lastPreKeyUpload u of None \<Rightarrow> False | Some t \<Rightarrow> now < t + ten_minutes) \<and>
              int WantedPreKeyCount \<le> getServerPreKeyCount countAnswer then (UploadSkipped, u)
      else
        (let wantedCount = (if initialUpload then 812 else WantedPreKeyCount) in
         case GetOrGenPreKeys c rnd (word_of_nat wantedCount) (up_store u) of
           (Inl e, s) \<Rightarrow> (NoPreKeys e, u\<lparr>up_store := s\<rparr>)
         | (Inr preKeys, s) \<Rightarrow>
             (let u = u\<lparr>up_store := s, up_sent := up_sent u @ [upload_content dev preKeys]\<rparr> in
              if \<not> delivered then (UploadNotSent, u)
              else if preKeys = [] then (IndexPanic, u)
              else case MarkPreKeysAsUploaded (pk_KeyID (last preKeys)) s of
                (Inl e, s) \<Rightarrow> (NotMarked e, u\<lparr>up_store := s\<rparr>)
              | (Inr _, s) \<Rightarrow> (UploadDone, u\<lparr>up_store := s, lastPreKeyUpload := Some now, PreKeysUploaded := True\<rparr>))))"

section \<open>Fresh keys\<close>

definition pk_ok :: "signal_db \<Rightarrow> bool" where
  "pk_ok d \<longleftrightarrow> amap (pre_keys d) \<and> (\<forall>(i, p, u) \<in> set (pre_keys d). unat i < maxPreKeyID \<and> length p = 32)"

lemma last_id_Max: "last_id d = Max (insert 0 (fst ` set (pre_keys d)))"
  using Max.set_eq_fold [of 0 "map fst (pre_keys d)"] by (simp add: last_id_def)

lemma last_id_ge: "i \<in> fst ` set (pre_keys d) \<Longrightarrow> i \<le> last_id d"
  unfolding last_id_Max by (rule Max_ge) auto

lemma last_id_bound:
  assumes "pk_ok d"
  shows "unat (last_id d) < maxPreKeyID"
proof -
  have "last_id d \<in> insert 0 (fst ` set (pre_keys d))" unfolding last_id_Max by (rule Max_in) auto
  with assms show ?thesis by (auto simp: pk_ok_def)
qed

lemma unat_next: "unat (w :: 32 word) < maxPreKeyID \<Longrightarrow> unat (w + 1) = unat w + 1"
  by (simp add: unat_word_ariths)

lemma genOnePreKey_Inr:
  assumes "genOnePreKey c rnd keyid up s = (Inr key, s')"
  shows "s' = s\<lparr>s_db := tick ((s_db s)\<lparr>pre_keys := pre_keys (s_db s) @ [(keyid, Priv key, up)]\<rparr>)\<rparr>"
    and "pk_KeyID key = keyid" and "key = NewPreKey c (rnd keyid) keyid"
    and "unat keyid < maxPreKeyID" and "length (Priv key) = 32" and "map_of (pre_keys (s_db s)) keyid = None"
  using assms
  by (auto simp: genOnePreKey_def Let_def sbind_eq_Inr on_db_Inr sql_exec_Inr insertPreKeyQuery_def NewPreKey_def
      KeyPair.extend_def simp del: not_None_eq split: if_splits)

text \<open>The tables besides the pre keys.\<close>

definition same_but_pre_keys :: "signal_db \<Rightarrow> signal_db \<Rightarrow> bool" where
  "same_but_pre_keys a b \<longleftrightarrow> same_signal (a\<lparr>pre_keys := []\<rparr>) (b\<lparr>pre_keys := []\<rparr>)"

lemma same_but_pre_keys_trans: "same_but_pre_keys a b \<Longrightarrow> same_but_pre_keys b d \<Longrightarrow> same_but_pre_keys a d"
  by (auto simp: same_but_pre_keys_def intro: same_signal_trans)

abbreviation key_row :: "PreKey \<Rightarrow> 32 word \<times> bytes \<times> bool" where
  "key_row k \<equiv> (pk_KeyID k, Priv k, False)"

lemma pk_ok_snoc:
  "pk_ok d \<Longrightarrow> map_of (pre_keys d) i = None \<Longrightarrow> unat i < maxPreKeyID \<Longrightarrow> length p = 32 \<Longrightarrow>
   pre_keys d' = pre_keys d @ [(i, p, u)] \<Longrightarrow> pk_ok d'"
  by (auto simp: pk_ok_def amap_def map_of_eq_None_fst)

lemma gen_loop_Inr:
  assumes "gen_loop c rnd n next s = (Inr keys, s')" and "pk_ok (s_db s)" and "unat next \<le> maxPreKeyID"
  shows "pk_ok (s_db s') \<and> pre_keys (s_db s') = pre_keys (s_db s) @ map key_row keys \<and>
    same_but_pre_keys (s_db s') (s_db s) \<and> s' = s\<lparr>s_db := s_db s'\<rparr> \<and>
    map (unat \<circ> pk_KeyID) keys = [unat next ..< unat next + n]"
  using assms
proof (induction n arbitrary: "next" s keys)
  case 0
  then show ?case by (simp add: same_but_pre_keys_def)
next
  case (Suc n)
  from Suc.prems(1) obtain k ks s1 where g: "genOnePreKey c rnd next False s = (Inr k, s1)"
    and l: "gen_loop c rnd n (next + 1) s1 = (Inr ks, s')" and keys: "keys = k # ks"
    by (auto simp: sbind_eq_Inr)
  note g' = genOnePreKey_Inr [OF g]
  have ok1: "pk_ok (s_db s1)"
    by (rule pk_ok_snoc [OF Suc.prems(2) g'(6,4,5), where u = False]) (simp add: g'(1))
  have nx: "unat (next + 1) = unat next + 1" using g'(4) by (rule unat_next)
  from Suc.IH [OF l ok1] g'(1,2,4) nx keys show ?case
    by (auto simp: same_but_pre_keys_def same_signal_iff upt_conv_Cons)
qed

lemma scan_rows_Inr:
  "scan_rows c rows = Inr keys \<Longrightarrow> map (\<lambda>k. (pk_KeyID k, Priv k)) keys = map (\<lambda>(i, p, u). (i, p)) rows"
  by (induction rows arbitrary: keys)
    (auto simp: rbind_eq_Inr scanPreKey_def Let_def KeyPair.extend_def NewKeyPairFromPrivateKey_def split: prod.splits if_splits)

text \<open>A list of rows in ascending order of distinct numbers: an initial segment has the smallest numbers.\<close>

lemma append_smallest:
  assumes "sorted (map f (as @ bs))" and "distinct (map f (as @ bs))" and "as \<noteq> []"
    and "x \<in> set (as @ bs)" and "f x \<le> f (last as)"
  shows "x \<in> set as"
proof (rule ccontr)
  assume "x \<notin> set as"
  with assms(4) have x: "x \<in> set bs" by simp
  with assms(1,3) have "f (last as) \<le> f x" by (simp add: sorted_append)
  moreover have "f (last as) \<noteq> f x" using assms(2) x last_in_set [OF assms(3)] by auto
  ultimately show False using assms(5) by simp
qed

lemma take_smallest:
  assumes "sorted (map f xs)" and "x \<in> set xs" and "f x \<le> f (last (take n xs))" and "distinct (map f xs)" and "0 < n"
  shows "x \<in> set (take n xs)"
  by (rule append_smallest [of f "take n xs" "drop n xs"])
    (use assms in \<open>auto simp del: take_map drop_map\<close>)

definition unmarked :: "signal_db \<Rightarrow> 32 word set" where
  "unmarked d = {i. \<exists>p. map_of (pre_keys d) i = Some (p, False)}"

lemma unuploaded_props:
  assumes "pk_ok d"
  shows "sorted (map fst (unuploaded d))" and "distinct (map fst (unuploaded d))"
    and "set (unuploaded d) = {(i, p, False) | i p. map_of (pre_keys d) i = Some (p, False)}"
proof -
  have am: "amap (pre_keys d)" using assms by (simp add: pk_ok_def)
  show "sorted (map fst (unuploaded d))" by (simp add: unuploaded_def)
  have "distinct (map fst (filter (\<lambda>(keyid, priv, uploaded). \<not> uploaded) (pre_keys d)))"
    using amap_filter [OF am] by (simp add: amap_def)
  then have "distinct (map fst (unuploaded d))"
    unfolding unuploaded_def by (metis distinct_map distinct_sort set_sort)
  then show "distinct (map fst (unuploaded d))" .
  show "set (unuploaded d) = {(i, p, False) | i p. map_of (pre_keys d) i = Some (p, False)}"
    using am by (auto simp: unuploaded_def amap_def)
qed

lemma word_length:
  assumes "n \<le> unat (w :: 32 word)"
  shows "unat (word_of_nat n :: 32 word) = n" and "w > word_of_nat n \<longleftrightarrow> n < unat w" and "unat (w - word_of_nat n) = unat w - n"
proof -
  have "n < 2 ^ 32" using assms unsigned_less [of w, where ?'a = nat] by simp
  then show n: "unat (word_of_nat n :: 32 word) = n" by (simp add: unat_of_nat)
  then show "w > word_of_nat n \<longleftrightarrow> n < unat w" by (simp add: word_less_nat_alt)
  have "(word_of_nat n :: 32 word) \<le> w" using assms n by (simp add: word_le_nat_alt)
  with n show "unat (w - word_of_nat n) = unat w - n" by (simp add: unat_sub)
qed

text \<open>What the caller gets: keys with ascending numbers, in the table and not uploaded.\<close>

definition handed_out :: "PreKey list \<Rightarrow> signal_db \<Rightarrow> bool" where
  "handed_out keys d \<longleftrightarrow>
     sorted_wrt (<) (map pk_KeyID keys) \<and> (\<forall>k \<in> set keys. map_of (pre_keys d) (pk_KeyID k) = Some (Priv k, False)) \<and>
     (keys \<noteq> [] \<longrightarrow> (\<forall>i \<in> unmarked d. i \<le> pk_KeyID (last keys) \<longrightarrow> i \<in> pk_KeyID ` set keys))"

lemma scanned_rows:
  assumes "scan_rows c rows = Inr keys"
  shows "map pk_KeyID keys = map fst rows" and "length keys = length rows"
    and "\<forall>(i, p, u) \<in> set rows. \<not> u \<Longrightarrow> map key_row keys = rows"
proof -
  have eq: "map (\<lambda>k. (pk_KeyID k, Priv k)) keys = map (\<lambda>(i, p, u). (i, p)) rows"
    by (rule scan_rows_Inr [OF assms])
  from arg_cong [OF eq, of "map fst"] show "map pk_KeyID keys = map fst rows" by (simp add: comp_def split_def)
  from arg_cong [OF eq, of length] show "length keys = length rows" by simp
  assume "\<forall>(i, p, u) \<in> set rows. \<not> u"
  then have "rows = map (\<lambda>(i, p). (i, p, False)) (map (\<lambda>(i, p, u). (i, p)) rows)" by (induction rows) auto
  then show "map key_row keys = rows" unfolding eq [symmetric] by (simp add: comp_def)
qed

lemma sorted_distinct_strict: "sorted xs \<Longrightarrow> distinct xs \<Longrightarrow> sorted_wrt (<) (xs :: 'a :: linorder list)"
  by (simp add: strict_sorted_iff)

lemma handed_out_rows:
  assumes "pk_ok d" and "scan_rows c rows = Inr keys" and "sorted (map fst rows)" and "distinct (map fst rows)"
    and sub: "set rows \<subseteq> set (unuploaded d)"
    and small: "\<And>x. x \<in> set (unuploaded d) \<Longrightarrow> rows \<noteq> [] \<Longrightarrow> fst x \<le> fst (last rows) \<Longrightarrow> x \<in> set rows"
  shows "handed_out keys d"
proof -
  note u = unuploaded_props(3) [OF assms(1)]
  note r = scanned_rows [OF assms(2)]
  have "sorted_wrt (<) (map pk_KeyID keys)"
    unfolding r(1) by (rule sorted_distinct_strict [OF assms(3,4)])
  moreover have "\<forall>(i, p, u) \<in> set rows. \<not> u" using u sub by blast
  then have rows: "map key_row keys = rows" by (rule r(3))
  have "map_of (pre_keys d) (pk_KeyID k) = Some (Priv k, False)" if "k \<in> set keys" for k
  proof -
    have "key_row k \<in> set rows" using that by (simp flip: rows)
    then have "key_row k \<in> set (unuploaded d)" using sub by blast
    then show ?thesis unfolding u by simp
  qed
  moreover have "i \<in> pk_KeyID ` set keys" if "keys \<noteq> []" "i \<in> unmarked d" "i \<le> pk_KeyID (last keys)" for i
  proof -
    from that(2) obtain p where p: "(i, p, False) \<in> set (unuploaded d)" by (auto simp: unmarked_def u)
    have "last rows = key_row (last keys)" using that(1) by (simp add: last_map flip: rows)
    with that(1,3) have "(i, p, False) \<in> set rows" by (intro small [OF p]) (auto simp flip: rows)
    then show ?thesis by (auto simp flip: rows)
  qed
  ultimately show ?thesis by (simp add: handed_out_def)
qed

lemma handed_out_existing:
  assumes "pk_ok d" and "scan_rows c (take n (unuploaded d)) = Inr keys"
  shows "handed_out keys d"
proof (rule handed_out_rows [OF assms])
  note u = unuploaded_props(1,2) [OF assms(1)]
  show "sorted (map fst (take n (unuploaded d)))" using sorted_wrt_take [OF u(1)] by (simp add: take_map)
  show "distinct (map fst (take n (unuploaded d)))" using distinct_take [OF u(2)] by (simp add: take_map)
  show "set (take n (unuploaded d)) \<subseteq> set (unuploaded d)" by (rule set_take_subset)
  show "x \<in> set (take n (unuploaded d))"
    if "x \<in> set (unuploaded d)" "take n (unuploaded d) \<noteq> []" "fst x \<le> fst (last (take n (unuploaded d)))" for x
    by (rule take_smallest [OF u(1) that(1,3) u(2)]) (use that(2) in \<open>cases n, auto\<close>)
qed

lemma pk_ids_below: "map_of (pre_keys d) i = Some r \<Longrightarrow> i \<le> last_id d"
  by (rule last_id_ge) (force dest: map_of_SomeD)

lemma handed_out_generated:
  assumes ok: "pk_ok d" and ok': "pk_ok d'" and scan: "scan_rows c (unuploaded d) = Inr keys"
    and d': "pre_keys d' = pre_keys d @ map key_row ks"
    and ids: "map (unat \<circ> pk_KeyID) ks = [unat (last_id d) + 1 ..< unat (last_id d) + 1 + n]"
  shows "handed_out (keys @ ks) d'"
proof -
  have old: "handed_out keys d"
    by (rule handed_out_existing [OF ok, where c = c and n = "length (unuploaded d)"]) (simp add: scan)
  have new: "last_id d < pk_KeyID k" if "k \<in> set ks" for k
  proof -
    have "unat (pk_KeyID k) \<in> set (map (unat \<circ> pk_KeyID) ks)" using that by simp
    then show ?thesis unfolding ids by (auto simp: word_less_nat_alt)
  qed
  have below: "pk_KeyID k \<le> last_id d" if "k \<in> set keys" for k
    using old that pk_ids_below unfolding handed_out_def by blast
  have "sorted_wrt (<) (map unat (map pk_KeyID ks))" unfolding map_map ids by (rule sorted_wrt_upt)
  then have "sorted_wrt (<) (map pk_KeyID ks)" by (simp add: sorted_wrt_map word_less_nat_alt)
  with old below new have "sorted_wrt (<) (map pk_KeyID (keys @ ks))"
    by (fastforce simp: handed_out_def sorted_wrt_append)
  moreover have look: "map_of (pre_keys d') i = (case map_of (pre_keys d) i of Some r \<Rightarrow> Some r | None \<Rightarrow> map_of (map key_row ks) i)" for i
    by (simp add: d' map_add_def)
  moreover have "map_of (map key_row ks) (pk_KeyID k) = Some (Priv k, False)" if "k \<in> set ks" for k
  proof -
    have "distinct (map fst (map key_row ks))"
      using ok' by (simp add: pk_ok_def amap_def d' comp_def)
    then show ?thesis by (rule map_of_is_SomeI) (use that in auto)
  qed
  moreover have "map_of (pre_keys d) (pk_KeyID k) = None" if "k \<in> set ks" for k
    using new [OF that] pk_ids_below [of d "pk_KeyID k"] by (cases "map_of (pre_keys d) (pk_KeyID k)") auto
  moreover have "map_of (pre_keys d) (pk_KeyID k) = Some (Priv k, False)" if "k \<in> set keys" for k
    using old that by (simp add: handed_out_def)
  ultimately have found: "\<forall>k \<in> set (keys @ ks). map_of (pre_keys d') (pk_KeyID k) = Some (Priv k, False)" by auto
  have "i \<in> pk_KeyID ` set (keys @ ks)" if "i \<in> unmarked d'" for i
  proof -
    from that obtain p where p: "map_of (pre_keys d') i = Some (p, False)" by (auto simp: unmarked_def)
    show ?thesis
    proof (cases "map_of (pre_keys d) i")
      case (Some r)
      then have "(i, p, False) \<in> set (unuploaded d)" using p look unuploaded_props(3) [OF ok] by auto
      then have "i \<in> fst ` set (unuploaded d)" by force
      then have "i \<in> set (map pk_KeyID keys)" by (simp add: scanned_rows(1) [OF scan])
      then show ?thesis by auto
    next
      case None
      then have "map_of (map key_row ks) i = Some (p, False)" using p look by simp
      then have "(i, p, False) \<in> set (map key_row ks)" by (rule map_of_SomeD)
      then show ?thesis by auto
    qed
  qed
  with found \<open>sorted_wrt (<) (map pk_KeyID (keys @ ks))\<close> show ?thesis by (simp add: handed_out_def)
qed

lemma GetOrGenPreKeys_Inr:
  assumes "GetOrGenPreKeys c rnd wanted s = (Inr keys, s')" and ok: "pk_ok (s_db s)"
  shows "length keys = unat wanted" and "handed_out keys (s_db s')" and "pk_ok (s_db s')"
    and "\<exists>new. pre_keys (s_db s') = pre_keys (s_db s) @ map key_row new" and "same_but_pre_keys (s_db s') (s_db s)"
proof -
  let ?n = "unat wanted" let ?d = "s_db s"
  from assms(1) obtain newKeys s1 where s1: "s1 = s\<lparr>s_db := tick ?d\<rparr>"
    and scan: "scan_rows c (take ?n (unuploaded ?d)) = Inr newKeys"
    and rest: "(let alreadyGeneratedCount = word_of_nat (length newKeys) in
       if wanted > alreadyGeneratedCount then
         sbind getNextPreKeyID (\<lambda>nextKeyID.
         sbind (gen_loop c rnd (unat (wanted - alreadyGeneratedCount)) nextKeyID) (\<lambda>keys. sret (newKeys @ keys)))
       else sret newKeys) s1 = (Inr keys, s')"
    by (auto simp: GetOrGenPreKeys_def sbind_eq_Inr on_db_Inr sql_query_Inr)
  have l: "length newKeys = min ?n (length (unuploaded ?d))" using scanned_rows(2) [OF scan] by (simp add: min.commute)
  note w = word_length [of "length newKeys" wanted]
  have "length keys = ?n \<and> handed_out keys (s_db s') \<and> pk_ok (s_db s') \<and>
    (\<exists>new. pre_keys (s_db s') = pre_keys ?d @ map key_row new) \<and> same_but_pre_keys (s_db s') ?d"
  proof (cases "length newKeys < ?n")
    case False
    with rest w(2) l have "keys = newKeys" "s' = s1" by (auto simp: Let_def)
    with handed_out_existing [OF ok scan] ok s1 False l show ?thesis
      by (auto simp: handed_out_def pk_ok_def unmarked_def same_but_pre_keys_def same_signal_iff)
  next
    case True
    then have all: "take ?n (unuploaded ?d) = unuploaded ?d" using l by simp
    from rest True w(2) obtain ks where keys: "keys = newKeys @ ks"
      and g: "gen_loop c rnd (?n - length newKeys) (last_id ?d + 1) (s\<lparr>s_db := tick (tick ?d)\<rparr>) = (Inr ks, s')"
      by (auto simp: Let_def getNextPreKeyID_def sbind_eq_Inr on_db_Inr sql_query_Inr s1 w(3) last_id_def)
    have nx: "unat (last_id ?d + 1) = unat (last_id ?d) + 1" by (rule unat_next [OF last_id_bound [OF ok]])
    let ?s2 = "s\<lparr>s_db := tick (tick ?d)\<rparr>"
    have ok2: "pk_ok (s_db ?s2)" using ok by (simp add: pk_ok_def)
    have "unat (last_id ?d + 1) \<le> maxPreKeyID" using last_id_bound [OF ok] nx by simp
    from gen_loop_Inr [OF g ok2 this] have ok': "pk_ok (s_db s')"
      and rows: "pre_keys (s_db s') = pre_keys ?d @ map key_row ks" and same: "same_but_pre_keys (s_db s') (s_db ?s2)"
      and ids: "map (unat \<circ> pk_KeyID) ks = [unat (last_id ?d) + 1 ..< unat (last_id ?d) + 1 + (?n - length newKeys)]"
      unfolding nx by simp_all
    have "length ks = ?n - length newKeys" using arg_cong [OF ids, of length] unfolding length_map length_upt by simp
    moreover have "handed_out (newKeys @ ks) (s_db s')"
      by (rule handed_out_generated [OF ok ok' scan [unfolded all] rows ids])
    moreover have "same_but_pre_keys (s_db s') ?d"
      using same by (auto simp: same_but_pre_keys_def same_signal_iff)
    ultimately show ?thesis using ok' rows True keys by auto
  qed
  then show "length keys = unat wanted" "handed_out keys (s_db s')" "pk_ok (s_db s')"
    "\<exists>new. pre_keys (s_db s') = pre_keys (s_db s) @ map key_row new" "same_but_pre_keys (s_db s') (s_db s)" by blast+
qed

section \<open>What the upload does\<close>

lemma MarkPreKeysAsUploaded_Inr:
  assumes "MarkPreKeysAsUploaded upTo s = (Inr x, s')"
  shows "map_of (pre_keys (s_db s')) i =
    (case map_of (pre_keys (s_db s)) i of None \<Rightarrow> None | Some (p, u) \<Rightarrow> Some (p, u \<or> i \<le> upTo))"
proof -
  have "map_of (map (\<lambda>(i, p, u). (i, p, u \<or> i \<le> upTo)) rows) i =
    (case map_of rows i of None \<Rightarrow> None | Some (p, u) \<Rightarrow> Some (p, u \<or> i \<le> upTo))" for rows :: "(32 word \<times> bytes \<times> bool) list"
    by (induction rows) auto
  with assms show ?thesis by (auto simp: MarkPreKeysAsUploaded_def on_db_Inr sql_exec_Inr)
qed

text \<open>
  C26: An upload that completes has sent the wanted number of keys in one request and marks exactly
  those keys: a key is unmarked afterwards if and only if it was unmarked in the table the request
  was built from and is not in the request. A key that was never sent to the server is never marked.
\<close>

theorem uploadPreKeys_marks_sent:
  assumes "pk_ok (s_db (up_store u))"
    and "uploadPreKeys c rnd dev sh dis now answer delivered initial u = (UploadDone, u')"
  shows "\<exists>keys d. up_sent u' = up_sent u @ [upload_content dev keys] \<and>
    length keys = (if initial then 812 else WantedPreKeyCount) \<and> distinct (map pk_KeyID keys) \<and>
    (\<exists>new. pre_keys d = pre_keys (s_db (up_store u)) @ map key_row new) \<and>
    (\<forall>k \<in> set keys. map_of (pre_keys d) (pk_KeyID k) = Some (Priv k, False)) \<and>
    unmarked (s_db (up_store u')) = unmarked d - pk_KeyID ` set keys"
proof -
  let ?w = "word_of_nat (if initial then 812 else WantedPreKeyCount) :: 32 word"
  from assms(2) obtain keys s1 x s2 where g: "GetOrGenPreKeys c rnd ?w (up_store u) = (Inr keys, s1)"
    and ne: "keys \<noteq> []" and m: "MarkPreKeysAsUploaded (pk_KeyID (last keys)) s1 = (Inr x, s2)"
    and u': "up_store u' = s2" "up_sent u' = up_sent u @ [upload_content dev keys]"
    by (auto simp: uploadPreKeys_def Let_def split: if_splits prod.splits sum.splits)
  note gg = GetOrGenPreKeys_Inr [OF g assms(1)]
  have len: "length keys = (if initial then 812 else WantedPreKeyCount)" using gg(1) by simp
  have srt: "sorted_wrt (<) (map pk_KeyID keys)" using gg(2) by (simp add: handed_out_def)
  then have "distinct (map pk_KeyID keys)" by (simp add: strict_sorted_iff)
  moreover have "\<forall>k \<in> set keys. pk_KeyID k \<le> pk_KeyID (last keys)"
    using srt ne by (induction keys) (auto simp: less_imp_le last_in_set)
  moreover have "unmarked (s_db s2) = {i \<in> unmarked (s_db s1). \<not> i \<le> pk_KeyID (last keys)}"
    using MarkPreKeysAsUploaded_Inr [OF m] by (auto simp: unmarked_def split: option.splits)
  ultimately show ?thesis
    using gg len ne u' unfolding handed_out_def
    by (intro exI [of _ keys] exI [of _ "s_db s1"]) (auto simp: unmarked_def)
qed

lemma uploadPreKeys_no_panic:
  assumes "pk_ok (s_db (up_store u))"
  shows "fst (uploadPreKeys c rnd dev sh dis now answer delivered initial u) \<noteq> IndexPanic"
proof -
  let ?w = "word_of_nat (if initial then 812 else WantedPreKeyCount) :: 32 word"
  have "keys \<noteq> []" if "GetOrGenPreKeys c rnd ?w (up_store u) = (Inr keys, s)" for keys s
    using GetOrGenPreKeys_Inr(1) [OF that assms] by (cases initial) auto
  then show ?thesis
    by (auto simp: uploadPreKeys_def Let_def split: prod.splits sum.splits if_splits)
qed

section \<open>Keys in elements\<close>

lemma be_Uint32_Put [simp]: "be_Uint32 (PutUint32 w) = w"
proof (rule bit_word_eqI)
  fix n
  assume "n < LENGTH(32)"
  then consider "n < 8" | "8 \<le> n" "n < 16" | "16 \<le> n" "n < 24" | "24 \<le> n" "n < 32" by fastforce
  then show "bit (be_Uint32 (PutUint32 w)) n = bit w n"
    by cases (auto simp: be_Uint32_def PutUint32_def bit_simps)
qed

lemma be_Uint32_tl:
  assumes "unat w < maxPreKeyID"
  shows "be_Uint32 (0 # tl (PutUint32 w)) = w"
proof -
  have "unat (drop_bit 24 w) = unat w div 2 ^ 24" by (simp only: unat_drop_bit_eq) (rule drop_bit_eq_div)
  then have "drop_bit 24 w = 0" using assms by (simp add: word_unat_eq_iff)
  then have "PutUint32 w = 0 # tl (PutUint32 w)" by (simp add: PutUint32_def)
  then show ?thesis using be_Uint32_Put [of w] by simp
qed

definition node_key :: "PreKey \<Rightarrow> NodeKey" where
  "node_key k = \<lparr>nk_KeyID = pk_KeyID k, nk_Pub = Pub k, nk_Signature = pk_Signature k\<rparr>"

definition sendable :: "PreKey \<Rightarrow> bool" where
  "sendable k \<longleftrightarrow> unat (pk_KeyID k) < maxPreKeyID \<and> length (Pub k) = 32 \<and>
     (case pk_Signature k of None \<Rightarrow> True | Some sig \<Rightarrow> length sig = 64)"

lemma nodeToPreKey_preKeyToNode:
  assumes "sendable k"
  shows "nodeToPreKey (preKeyToNode k) = Inr (node_key k)"
proof -
  have "length (tl (PutUint32 (pk_KeyID k))) = 3" by (simp add: PutUint32_def)
  with assms show ?thesis
    by (cases "pk_Signature k")
      (simp_all add: sendable_def preKeyToNode_def nodeToPreKey_def child_bytes_def GetChildByTag_def GetChildren_def
        be_Uint32_tl node_key_def Let_def)
qed

text \<open>
  A response whose keys have an identifier and a value but no signed key: the search for the signed
  key returns the element it searched, which has no signature, and dereferencing it panics.
\<close>

lemma nodeToPreKeyBundle_panics:
  "nodeToPreKeyBundle 0 (Node ''user'' []
     (VNodes [Node ''registration'' [] (VBytes [0, 0, 0, 1]), Node ''identity'' [] (VBytes (replicate 32 7)),
              Node ''id'' [] (VBytes [0, 0, 1]), Node ''value'' [] (VBytes (replicate 32 8))])) = Inl NilSignature"
  by code_simp

section \<open>An upload goes through\<close>

lemma genOnePreKey_succeeds:
  assumes "\<not> db_fails (s_db s) (db_clock (s_db s))" and "length (rnd keyid) = 32" and "unat keyid < maxPreKeyID"
    and "map_of (pre_keys (s_db s)) keyid = None"
  shows "\<exists>key s'. genOnePreKey c rnd keyid up s = (Inr key, s')"
proof -
  have "length (Priv (NewPreKey c (rnd keyid) keyid)) = 32" "pk_KeyID (NewPreKey c (rnd keyid) keyid) = keyid"
    using NewKeyPair_clamped(1) [OF assms(2)] by (simp_all add: NewPreKey_def KeyPair.extend_def)
  with assms show ?thesis
    by (simp add: genOnePreKey_def Let_def on_db_def sql_exec_def insertPreKeyQuery_def sbind_def)
qed

lemma gen_loop_succeeds:
  assumes "\<And>k. \<not> db_fails (s_db s) k" and "\<And>i. length (rnd i) = 32" and "pk_ok (s_db s)"
    and "\<And>i. i \<in> fst ` set (pre_keys (s_db s)) \<Longrightarrow> i < next" and "unat next + n \<le> maxPreKeyID"
  shows "\<exists>keys s'. gen_loop c rnd n next s = (Inr keys, s')"
  using assms
proof (induction n arbitrary: s "next")
  case (Suc n)
  have nx: "unat next < maxPreKeyID" using Suc.prems(5) by simp
  have "map_of (pre_keys (s_db s)) next = None" using Suc.prems(4) [of "next"] by (auto simp: map_of_eq_None_fst)
  from genOnePreKey_succeeds [of s rnd "next" c False, OF Suc.prems(1,2) nx this]
  obtain k s1 where g: "genOnePreKey c rnd next False s = (Inr k, s1)" by blast
  note g' = genOnePreKey_Inr [OF g]
  have "pk_ok (s_db s1)"
    by (rule pk_ok_snoc [OF Suc.prems(3) g'(6,4,5), where u = False]) (simp add: g'(1))
  moreover have "i < next + 1" if "i \<in> fst ` set (pre_keys (s_db s1))" for i
  proof -
    have "i \<in> fst ` set (pre_keys (s_db s)) \<or> i = next" using that by (simp add: g'(1) disj_commute)
    then have "i \<le> next" using Suc.prems(4) [of i] by (metis less_imp_le order_refl)
    then have "unat i \<le> unat next" by (simp add: word_le_nat_alt)
    then show ?thesis using unat_next [OF nx] by (simp add: word_less_nat_alt)
  qed
  ultimately have "\<exists>keys s'. gen_loop c rnd n (next + 1) s1 = (Inr keys, s')"
    using Suc.prems(1,2,5) unat_next [OF nx] by (intro Suc.IH) (auto simp: g'(1))
  with g show ?case by auto
qed simp

lemma scan_rows_succeeds: "\<forall>(i, p, u) \<in> set rows. length p = 32 \<Longrightarrow> \<exists>keys. scan_rows c rows = Inr keys"
  by (induction rows) (auto simp: scanPreKey_def)

lemma GetOrGenPreKeys_succeeds:
  assumes "\<And>k. \<not> db_fails (s_db s) k" and "\<And>i. length (rnd i) = 32" and ok: "pk_ok (s_db s)"
    and "unat (last_id (s_db s)) + unat wanted < maxPreKeyID"
  shows "\<exists>keys s'. GetOrGenPreKeys c rnd wanted s = (Inr keys, s')"
proof -
  let ?rows = "take (unat wanted) (unuploaded (s_db s))"
  have "set ?rows \<subseteq> set (pre_keys (s_db s))" using set_take_subset [of "unat wanted" "unuploaded (s_db s)"]
    by (auto simp: unuploaded_def)
  then have "\<forall>(i, p, u) \<in> set ?rows. length p = 32" using ok by (auto simp: pk_ok_def)
  from scan_rows_succeeds [OF this] obtain ks where ks: "scan_rows c ?rows = Inr ks" by blast
  have l: "length ks \<le> unat wanted" using scanned_rows(2) [OF ks] by simp
  let ?s2 = "s\<lparr>s_db := tick (tick (s_db s))\<rparr>"
  have nx: "unat (last_id (s_db s) + 1) = unat (last_id (s_db s)) + 1" by (rule unat_next [OF last_id_bound [OF ok]])
  have "\<exists>keys s'. gen_loop c rnd (unat wanted - length ks) (last_id (s_db s) + 1) ?s2 = (Inr keys, s')"
  proof (rule gen_loop_succeeds)
    show "pk_ok (s_db ?s2)" using ok by (simp add: pk_ok_def)
    show "i < last_id (s_db s) + 1" if "i \<in> fst ` set (pre_keys (s_db ?s2))" for i
      using last_id_ge [of i "s_db s"] that nx by (simp add: word_less_nat_alt word_le_nat_alt)
  qed (use assms nx in auto)
  then show ?thesis
    using assms(1) ks l word_length [OF l]
    by (auto simp: GetOrGenPreKeys_def sbind_def on_db_def sql_query_def getNextPreKeyID_def Let_def last_id_def)
qed

definition demo_device :: upload_device where
  "demo_device =
     \<lparr>ud_RegistrationID = 1, ud_IdentityPub = replicate 32 9, ud_SignedPreKey = NewPreKey plain_crypto (replicate 32 1) 1\<rparr>"

definition demo_upload :: upload_state where
  "demo_upload =
     \<lparr>up_store = NewSQLStore (empty_signal_db (\<lambda>_. False)), lastPreKeyUpload = None, PreKeysUploaded = False, up_sent = []\<rparr>"

definition demo_run :: "upload_result \<times> upload_state" where
  "demo_run = uploadPreKeys plain_crypto (\<lambda>_. replicate 32 1) demo_device False False 0 (Inl () :: unit + node) True False demo_upload"

lemma demo_upload_ok: "pk_ok (s_db (up_store demo_upload))"
  by (simp add: demo_upload_def NewSQLStore_def empty_signal_db_def pk_ok_def)

lemma demo_run_done: "fst demo_run = UploadDone"
proof -
  let ?s = "up_store demo_upload"
  have nf: "\<not> db_fails (s_db ?s) k" for k by (simp add: demo_upload_def NewSQLStore_def empty_signal_db_def)
  have "\<exists>keys s'. GetOrGenPreKeys plain_crypto (\<lambda>_. replicate 32 1) 50 ?s = (Inr keys, s')"
    by (rule GetOrGenPreKeys_succeeds [OF nf _ demo_upload_ok])
      (simp_all add: demo_upload_def NewSQLStore_def empty_signal_db_def last_id_def)
  then obtain keys s' where g: "GetOrGenPreKeys plain_crypto (\<lambda>_. replicate 32 1) 50 ?s = (Inr keys, s')" by blast
  note gg = GetOrGenPreKeys_Inr [OF g demo_upload_ok]
  have "\<not> db_fails (s_db s') k" for k
    using gg(5) nf by (simp add: same_but_pre_keys_def same_signal_iff)
  moreover have "keys \<noteq> []" using gg(1) by auto
  ultimately show ?thesis
    using g by (simp add: demo_run_def uploadPreKeys_def demo_upload_def MarkPreKeysAsUploaded_def on_db_def sql_exec_def)
qed

theorem uploadPreKeys_marks_sent_witness:
  "\<exists>keys d. up_sent (snd demo_run) = up_sent demo_upload @ [upload_content demo_device keys] \<and> length keys = 50 \<and>
     unmarked (s_db (up_store (snd demo_run))) = unmarked d - pk_KeyID ` set keys"
proof -
  have "demo_run = (UploadDone, snd demo_run)" using demo_run_done by (metis prod.collapse)
  from uploadPreKeys_marks_sent [OF demo_upload_ok this [unfolded demo_run_def]]
  show ?thesis unfolding demo_run_def by auto
qed

end
