(* ===== verification/SessionCache.thy ===== *)
theory SessionCache
  imports Identity PreKeys Refinement
begin

text \<open>
  The device's side of the Signal protocol library: \<open>src/store/signal.go\<close> over the SQL store, and the
  session cache of \<open>src/store/sessioncache.go\<close> that a message fanned out to many devices works on. The
  library's records are values of a type variable; how they are written as bytes is a parameter
  (\<open>codec\<close>), of which only that a written record can be read back is assumed, by name. The cache
  belongs to a context, so it is part of the state here. The lemmas show that working on the cache
  and writing it back is the same as working on the store.
\<close>

section \<open>Records, contexts and errors\<close>

record 'r codec =
  new_record :: 'r
  Serialize :: "'r \<Rightarrow> bytes"
  from_bytes :: "bytes \<Rightarrow> 'r option"

definition codec_correct :: "'r codec \<Rightarrow> bool" where
  "codec_correct cd \<longleftrightarrow> (\<forall>r. from_bytes cd (Serialize cd r) = Some r)"

record 'r sessionCacheEntry =
  sc_Dirty :: bool
  sc_Found :: bool
  sc_Record :: 'r

record 'r dev_state =
  dv_store :: SQLStore
  dv_cache :: "(string \<times> 'r sessionCacheEntry) list option"

datatype signal_error =
    SigDb string db_error | SigDeserialize string | UnsupportedSignalStoreOperation string | PanicRemoteKeys string

type_synonym ('r, 'a) dev_op = "('r dev_state, signal_error, 'a) sr"

definition on_store :: "string \<Rightarrow> 'a store_op \<Rightarrow> ('r, 'a) dev_op" where
  "on_store what m st =
     (let (r, s) = m (dv_store st) in
      (case r of Inl e \<Rightarrow> Inl (SigDb what e) | Inr x \<Rightarrow> Inr x, st\<lparr>dv_store := s\<rparr>))"

section \<open>The cache of a context\<close>

definition getSessionCache :: "'r dev_state \<Rightarrow> (string \<times> 'r sessionCacheEntry) list option" where
  "getSessionCache st = dv_cache st"

definition getCachedSession :: "string \<Rightarrow> 'r dev_state \<Rightarrow> 'r option" where
  "getCachedSession addr st =
     (case getSessionCache st of None \<Rightarrow> None | Some cache \<Rightarrow> map_option sc_Record (map_of cache addr))"

definition hasCachedSession :: "string \<Rightarrow> 'r dev_state \<Rightarrow> bool \<times> bool" where
  "hasCachedSession addr st =
     (case getSessionCache st of
        None \<Rightarrow> (False, False)
      | Some cache \<Rightarrow> (case map_of cache addr of None \<Rightarrow> (False, False) | Some sess \<Rightarrow> (sc_Found sess, True)))"

definition putCachedSession :: "string \<Rightarrow> 'r \<Rightarrow> 'r dev_state \<Rightarrow> bool \<times> 'r dev_state" where
  "putCachedSession addr rec st =
     (case getSessionCache st of
        None \<Rightarrow> (False, st)
      | Some cache \<Rightarrow>
          (True, st\<lparr>dv_cache := Some (aset addr \<lparr>sc_Dirty = True, sc_Found = True, sc_Record = rec\<rparr> cache)\<rparr>))"

text \<open>The callback that reads a row: a session that cannot be read is dropped from both maps.\<close>

definition load_row ::
  "'r codec \<Rightarrow> string \<times> bytes \<Rightarrow> (string \<times> 'r sessionCacheEntry) list \<times> (string \<times> bool) list \<Rightarrow>
   (string \<times> 'r sessionCacheEntry) list \<times> (string \<times> bool) list" where
  "load_row cd row we =
     (let (addr, rawSess) = row; (wrapped, existing) = we in
      case from_bytes cd rawSess of
        None \<Rightarrow> (adel addr wrapped, adel addr existing)
      | Some r \<Rightarrow> (aset addr \<lparr>sc_Dirty = False, sc_Found = True, sc_Record = r\<rparr> wrapped, aset addr True existing))"

definition IterateSessions :: "string list \<Rightarrow> (string \<times> bytes) list store_op" where
  "IterateSessions addresses =
     (if addresses = [] then sret []
      else on_db (sql_query (\<lambda>d. filter (\<lambda>(a, v). a \<in> set addresses) (sessions d))))"

definition IterateSession :: "string \<Rightarrow> bytes option store_op" where
  "IterateSession address = on_db (sql_query (\<lambda>d. map_of (sessions d) address))"

text \<open>
  The two type assertions on the session store (\<open>iterator\<close>, and \<open>loader\<close> below) are arguments: the SQL
  store meets both.
\<close>

definition WithCachedSessions :: "'r codec \<Rightarrow> bool \<Rightarrow> string list \<Rightarrow> ('r, (string \<times> bool) list) dev_op" where
  "WithCachedSessions cd iterator addresses =
     (if addresses = [] then sret []
      else
        (let wrapped = fold (\<lambda>a m. aset a \<lparr>sc_Dirty = False, sc_Found = False, sc_Record = new_record cd\<rparr> m) addresses [];
             existing = fold (\<lambda>a m. aset a False m) addresses []
         in
         sbind (if iterator then on_store ''prefetch'' (IterateSessions addresses)
                else sbind (on_store ''prefetch'' (GetManySessions addresses)) (\<lambda>ss.
                       sret (List.map_filter (\<lambda>(a, raw). map_option (Pair a) raw) ss)))
           (\<lambda>rows st.
              let (wrapped, existing) = fold (load_row cd) rows (wrapped, existing)
              in (Inr existing, st\<lparr>dv_cache := Some wrapped\<rparr>))))"

definition dirty_sessions :: "'r codec \<Rightarrow> (string \<times> 'r sessionCacheEntry) list \<Rightarrow> (string \<times> bytes) list" where
  "dirty_sessions cd cache =
     map (\<lambda>(a, e). (a, Serialize cd (sc_Record e))) (filter (\<lambda>(a, e). sc_Dirty e) cache)"

definition PutCachedSessions :: "'r codec \<Rightarrow> bool \<Rightarrow> ('r, unit) dev_op" where
  "PutCachedSessions cd native st =
     (case getSessionCache st of
        None \<Rightarrow> (Inr (), st)
      | Some cache \<Rightarrow>
          (let dirtySessions = dirty_sessions cd cache in
           sbind (if dirtySessions \<noteq> [] then on_store ''store cached'' (PutManySessions native dirtySessions) else sret ())
             (\<lambda>_. smod (\<lambda>st. st\<lparr>dv_cache := Some []\<rparr>)) st))"

section \<open>Sessions\<close>

definition LoadSession :: "'r codec \<Rightarrow> bool \<Rightarrow> string \<Rightarrow> ('r, 'r) dev_op" where
  "LoadSession cd loader addr st =
     (case getCachedSession addr st of
        Some sess \<Rightarrow> (Inr sess, st)
      | None \<Rightarrow>
          sbind (on_store ''load'' (if loader then IterateSession addr else GetSession addr)) (\<lambda>rawSess.
            case rawSess of
              None \<Rightarrow> sret (new_record cd)
            | Some raw \<Rightarrow> (case from_bytes cd raw of None \<Rightarrow> serr (SigDeserialize addr) | Some sess \<Rightarrow> sret sess)) st)"

definition StoreSession :: "'r codec \<Rightarrow> string \<Rightarrow> 'r \<Rightarrow> ('r, unit) dev_op" where
  "StoreSession cd addr rec st =
     (let (cached, st) = putCachedSession addr rec st in
      if cached then (Inr (), st) else on_store ''store'' (PutSession addr (Serialize cd rec)) st)"

definition ContainsSession :: "string \<Rightarrow> ('r, bool) dev_op" where
  "ContainsSession addr st =
     (let (found, cached) = hasCachedSession addr st in
      if cached then (Inr found, st) else on_store ''check'' (HasSession addr) st)"

definition dev_DeleteSession :: "string \<Rightarrow> ('r, unit) dev_op" where
  "dev_DeleteSession addr = on_store ''delete'' (DeleteSession addr)"

section \<open>Identities, sender keys and pre keys\<close>

definition SaveIdentity :: "id_pick \<Rightarrow> string \<Rightarrow> bytes \<Rightarrow> ('r, unit) dev_op" where
  "SaveIdentity pick addr key = on_store ''save identity'' (PutIdentity pick addr key)"

definition dev_IsTrustedIdentity :: "id_pick \<Rightarrow> string \<Rightarrow> bytes \<Rightarrow> ('r, bool) dev_op" where
  "dev_IsTrustedIdentity pick addr key = on_store ''check identity'' (IsTrustedIdentity pick addr key)"

definition StoreSenderKey :: "'k codec \<Rightarrow> string \<Rightarrow> string \<Rightarrow> 'k \<Rightarrow> ('r, unit) dev_op" where
  "StoreSenderKey kc groupID sender key = on_store ''store sender key'' (PutSenderKey groupID sender (Serialize kc key))"

definition LoadSenderKey :: "'k codec \<Rightarrow> string \<Rightarrow> string \<Rightarrow> ('r, 'k) dev_op" where
  "LoadSenderKey kc groupID sender =
     sbind (on_store ''load sender key'' (GetSenderKey groupID sender)) (\<lambda>rawKey.
       case rawKey of
         None \<Rightarrow> sret (new_record kc)
       | Some raw \<Rightarrow> (case from_bytes kc raw of None \<Rightarrow> serr (SigDeserialize sender) | Some key \<Rightarrow> sret key))"

definition LoadPreKey :: "crypto \<Rightarrow> 32 word \<Rightarrow> ('r, PreKey option) dev_op" where
  "LoadPreKey c keyid = on_store ''load prekey'' (GetPreKey c keyid)"

definition dev_RemovePreKey :: "32 word \<Rightarrow> ('r, unit) dev_op" where
  "dev_RemovePreKey keyid = on_store ''remove prekey'' (RemovePreKey keyid)"

definition ContainsPreKey :: "crypto \<Rightarrow> 32 word \<Rightarrow> ('r, bool) dev_op" where
  "ContainsPreKey c keyid = sbind (on_store ''check prekey'' (GetPreKey c keyid)) (\<lambda>k. sret (k \<noteq> None))"

record device_keys =
  RemoteKeys :: bool
  dk_RegistrationID :: "32 word"
  dk_IdentityKey :: KeyPair
  dk_SignedPreKey :: "PreKey option"

definition GetIdentityKeyPair :: "device_keys \<Rightarrow> signal_error + KeyPair" where
  "GetIdentityKeyPair device =
     (if RemoteKeys device then Inl (PanicRemoteKeys ''identity key'') else Inr (dk_IdentityKey device))"

definition GetLocalRegistrationID :: "device_keys \<Rightarrow> 32 word" where
  "GetLocalRegistrationID device = dk_RegistrationID device"

definition LoadSignedPreKey :: "device_keys \<Rightarrow> 32 word \<Rightarrow> signal_error + PreKey option" where
  "LoadSignedPreKey device signedPreKeyID =
     (case dk_SignedPreKey device of
        None \<Rightarrow> Inr None
      | Some key \<Rightarrow>
          if signedPreKeyID = pk_KeyID key then
            (if RemoteKeys device then Inl (PanicRemoteKeys ''signed prekey'') else Inr (Some key))
          else Inr None)"

definition LoadSignedPreKeys :: "device_keys \<Rightarrow> signal_error + PreKey list" where
  "LoadSignedPreKeys device =
     (case dk_SignedPreKey device of
        None \<Rightarrow> Inr []
      | Some key \<Rightarrow>
          rbind (LoadSignedPreKey device (pk_KeyID key)) (\<lambda>preKey.
            Inr (case preKey of None \<Rightarrow> [] | Some k \<Rightarrow> [k])))"

definition ContainsSignedPreKey :: "device_keys \<Rightarrow> 32 word \<Rightarrow> bool" where
  "ContainsSignedPreKey device signedPreKeyID =
     (case dk_SignedPreKey device of None \<Rightarrow> False | Some key \<Rightarrow> signedPreKeyID = pk_KeyID key)"

section \<open>What is read ahead\<close>

abbreviation stored :: "'r dev_state \<Rightarrow> string \<rightharpoonup> bytes" where
  "stored st \<equiv> map_of (sessions (s_db (dv_store st)))"

lemma on_store_Inr: "on_store w m st = (Inr x, st') \<longleftrightarrow> (\<exists>s. m (dv_store st) = (Inr x, s) \<and> st' = st\<lparr>dv_store := s\<rparr>)"
  by (auto simp: on_store_def Let_def split: prod.splits sum.splits)

lemma on_store_Inl: "on_store w m st = (Inl e, st') \<longleftrightarrow> (\<exists>s e'. m (dv_store st) = (Inl e', s) \<and> e = SigDb w e' \<and> st' = st\<lparr>dv_store := s\<rparr>)"
  by (auto simp: on_store_def Let_def split: prod.splits sum.splits)

lemma load_rows:
  assumes "fold (load_row cd) rows (w, x) = (w', x')" and "amap rows" and "amap w"
  shows "amap w' \<and>
    map_of w' a = (case map_of rows a of None \<Rightarrow> map_of w a
      | Some raw \<Rightarrow> map_option (\<lambda>r. \<lparr>sc_Dirty = False, sc_Found = True, sc_Record = r\<rparr>) (from_bytes cd raw)) \<and>
    map_of x' a = (case map_of rows a of None \<Rightarrow> map_of x a | Some raw \<Rightarrow> map_option (\<lambda>_. True) (from_bytes cd raw))"
  using assms
proof (induction rows arbitrary: w x)
  case (Cons row rows)
  obtain b raw where row: "row = (b, raw)" by fastforce
  with Cons.prems(2) have b: "map_of rows b = None" and am: "amap rows" by (auto simp: amap_def map_of_eq_None_fst)
  obtain w1 x1 where 1: "load_row cd row (w, x) = (w1, x1)" by fastforce
  then have f: "fold (load_row cd) rows (w1, x1) = (w', x')" using Cons.prems(1) by simp
  have w1: "amap w1" using 1 Cons.prems(3) by (auto simp: load_row_def row split: option.splits)
  from Cons.IH [OF f am w1] 1 row b show ?case
    by (cases "a = b") (auto simp: load_row_def split: option.splits)
qed simp

lemma IterateSessions_Inr:
  assumes "IterateSessions as s = (Inr rows, s')" and "amap (sessions (s_db s))"
  shows "amap rows" and "map_of rows a = (if a \<in> set as then map_of (sessions (s_db s)) a else None)"
    and "same_signal (s_db s') (s_db s)" and "s' = s\<lparr>s_db := s_db s'\<rparr>"
  using assms
  by (auto simp: IterateSessions_def on_db_Inr sql_query_Inr map_of_filter_key split: if_splits)

lemma GetManySessions_Inr:
  assumes "GetManySessions as s = (Inr ss, s')" and am: "amap (sessions (s_db s))" and "as \<noteq> []"
  shows "amap ss" and "map_of ss a = (if a \<in> set as then Some (map_of (sessions (s_db s)) a) else None)"
    and "same_signal (s_db s') (s_db s)" and "s' = s\<lparr>s_db := s_db s'\<rparr>"
proof -
  let ?rows = "filter (\<lambda>(a, v). a \<in> set as) (sessions (s_db s))"
  let ?opts = "map (\<lambda>(a, v). (a, Some v)) ?rows"
  let ?none = "fold (\<lambda>a m. aset a None m) as []"
  from assms(1,3) have ss: "ss = fold (\<lambda>(a, v) m. aset a (Some v) m) ?rows ?none"
    and s': "s' = s\<lparr>s_db := tick (s_db s)\<rparr>"
    by (auto simp: GetManySessions_def sbind_eq_Inr on_db_Inr sql_query_Inr)
  have fold: "fold (\<lambda>(a, v) m. aset a (Some v) m) ?rows ?none = fold (\<lambda>(k, v) t. aset k v t) ?opts ?none"
    by (simp add: fold_map comp_def split_def)
  have "map fst ?opts = map fst ?rows" by (simp add: split_def)
  then have d: "distinct (map fst ?opts)" using amap_filter [OF am] by (simp only: amap_def)
  have o: "map_of ?opts a = map_option Some (if a \<in> set as then map_of (sessions (s_db s)) a else None)"
    by (simp only: map_of_map [symmetric] map_of_map [of Some] o_def map_of_filter_key)
  show "amap ss" unfolding ss fold by (rule fold_upsert_amap) (rule amap_fold_const, simp)
  show "map_of ss a = (if a \<in> set as then Some (map_of (sessions (s_db s)) a) else None)"
    unfolding ss fold fold_upsert [OF d] map_add_def o by (auto simp: map_of_fold_const split: option.split)
  show "same_signal (s_db s') (s_db s)" "s' = s\<lparr>s_db := s_db s'\<rparr>" by (simp_all add: s')
qed

lemma map_of_present:
  "amap ss \<Longrightarrow> amap (List.map_filter (\<lambda>(a, raw). map_option (Pair a) raw) ss) \<and>
     map_of (List.map_filter (\<lambda>(a, raw). map_option (Pair a) raw) ss) a = (case map_of ss a of None \<Rightarrow> None | Some raw \<Rightarrow> raw) \<and>
     fst ` set (List.map_filter (\<lambda>(a, raw). map_option (Pair a) raw) ss) \<subseteq> fst ` set ss"
proof (induction ss)
  case (Cons x ss)
  obtain b raw where x: "x = (b, raw)" by fastforce
  with Cons.prems have "map_of ss b = None" "b \<notin> fst ` set ss" "amap ss" by (auto simp: amap_def map_of_eq_None_fst)
  with Cons.IH x show ?case by (cases raw; cases "a = b") (auto simp: amap_def map_filter_simps)
qed (simp add: map_filter_simps)

definition fresh_entry :: "'r codec \<Rightarrow> bytes option \<Rightarrow> 'r sessionCacheEntry \<Rightarrow> bool" where
  "fresh_entry cd raw e \<longleftrightarrow>
     \<not> sc_Dirty e \<and>
     (case raw of None \<Rightarrow> \<not> sc_Found e \<and> sc_Record e = new_record cd
      | Some b \<Rightarrow> sc_Found e \<and> from_bytes cd b = Some (sc_Record e))"

definition existing_answer :: "'r codec \<Rightarrow> bytes option \<Rightarrow> bool option" where
  "existing_answer cd raw = (case raw of None \<Rightarrow> Some False | Some b \<Rightarrow> map_option (\<lambda>_. True) (from_bytes cd b))"

lemma WithCachedSessions_Inr:
  assumes run: "WithCachedSessions cd it as st = (Inr existing, st')" and am: "amap (sessions (s_db (dv_store st)))"
    and ne: "as \<noteq> []"
  shows "same_signal (s_db (dv_store st')) (s_db (dv_store st))"
    and "\<exists>cache. dv_cache st' = Some cache \<and> amap cache \<and>
      (\<forall>a e. map_of cache a = Some e \<longrightarrow> fresh_entry cd (stored st a) e)"
    and "a \<in> set as \<Longrightarrow> map_of existing a = existing_answer cd (stored st a)"
proof -
  let ?w = "fold (\<lambda>a m. aset a \<lparr>sc_Dirty = False, sc_Found = False, sc_Record = new_record cd\<rparr> m) as []"
  let ?x = "fold (\<lambda>a m. aset a False m) as []"
  let ?src = "if it then on_store ''prefetch'' (IterateSessions as)
    else sbind (on_store ''prefetch'' (GetManySessions as)) (\<lambda>ss. sret (List.map_filter (\<lambda>(a, raw). map_option (Pair a) raw) ss))"
  from run ne obtain rows st1 where src: "?src st = (Inr rows, st1)"
    and rest: "(let (wrapped, existing) = fold (load_row cd) rows (?w, ?x)
      in (Inr existing :: signal_error + _, st1\<lparr>dv_cache := Some wrapped\<rparr>)) = (Inr existing, st')"
    by (auto simp: WithCachedSessions_def Let_def sbind_eq_Inr)
  obtain w' x' where f: "fold (load_row cd) rows (?w, ?x) = (w', x')" by fastforce
  from rest have out: "existing = x'" "st' = st1\<lparr>dv_cache := Some w'\<rparr>" by (simp_all add: f)
  have rows: "amap rows \<and> (\<forall>a. map_of rows a = (if a \<in> set as then stored st a else None)) \<and>
    same_signal (s_db (dv_store st1)) (s_db (dv_store st))"
  proof (cases it)
    case True
    with src obtain s1 where "IterateSessions as (dv_store st) = (Inr rows, s1)" "st1 = st\<lparr>dv_store := s1\<rparr>"
      by (auto simp: on_store_Inr)
    with IterateSessions_Inr [OF this(1) am] show ?thesis by simp
  next
    case False
    with src obtain ss s1 where g: "GetManySessions as (dv_store st) = (Inr ss, s1)" and "st1 = st\<lparr>dv_store := s1\<rparr>"
      and r: "rows = List.map_filter (\<lambda>(a, raw). map_option (Pair a) raw) ss"
      by (auto simp: on_store_Inr sbind_eq_Inr)
    with GetManySessions_Inr [OF g am ne] map_of_present [of ss] show ?thesis by auto
  qed
  have amw: "amap ?w" by (rule amap_fold_const) simp
  note l = load_rows [OF f _ amw]
  show "same_signal (s_db (dv_store st')) (s_db (dv_store st))" using rows out by simp
  have "fresh_entry cd (stored st a) e" if "map_of w' a = Some e" for a e
    using l [of a] rows that by (auto simp: fresh_entry_def map_of_fold_const map_option_case split: option.splits if_splits)
  then show "\<exists>cache. dv_cache st' = Some cache \<and> amap cache \<and> (\<forall>a e. map_of cache a = Some e \<longrightarrow> fresh_entry cd (stored st a) e)"
    using l rows out by (intro exI [of _ w']) simp
  show "map_of existing a = existing_answer cd (stored st a)" if "a \<in> set as"
    using l [of a] rows out that by (auto simp: existing_answer_def map_of_fold_const split: option.splits)
qed

section \<open>The cache and the store as one map\<close>

definition view :: "'r codec \<Rightarrow> 'r dev_state \<Rightarrow> string \<rightharpoonup> bytes" where
  "view cd st a =
     (case dv_cache st of
        None \<Rightarrow> stored st a
      | Some cache \<Rightarrow>
          (case map_of cache a of
             Some e \<Rightarrow> if sc_Dirty e then Some (Serialize cd (sc_Record e)) else stored st a
           | None \<Rightarrow> stored st a))"

definition entry_ok :: "'r codec \<Rightarrow> bytes option \<Rightarrow> 'r sessionCacheEntry \<Rightarrow> bool" where
  "entry_ok cd raw e \<longleftrightarrow> (if sc_Dirty e then sc_Found e else fresh_entry cd raw e)"

definition sc_ok :: "'r codec \<Rightarrow> 'r dev_state \<Rightarrow> bool" where
  "sc_ok cd st \<longleftrightarrow>
     amap (sessions (s_db (dv_store st))) \<and>
     (\<forall>cache. dv_cache st = Some cache \<longrightarrow>
        amap cache \<and> (\<forall>a e. map_of cache a = Some e \<longrightarrow> entry_ok cd (stored st a) e))"

definition cached_addr :: "'r dev_state \<Rightarrow> string \<Rightarrow> bool" where
  "cached_addr st a = (case dv_cache st of None \<Rightarrow> False | Some cache \<Rightarrow> map_of cache a \<noteq> None)"

definition nothing_dirty :: "'r dev_state \<Rightarrow> bool" where
  "nothing_dirty st = (case dv_cache st of None \<Rightarrow> True | Some cache \<Rightarrow> \<not> list_ex (\<lambda>(a, e). sc_Dirty e) cache)"

datatype 'r sess_op =
    OpLoad string | OpStore string 'r | OpHas string | OpRemove string | OpPrefetch "string list" | OpFlush

datatype 'r sess_answer = SDone | SSession 'r | SHas bool | SExisting "bool option list"

definition dev_answer :: "('a \<Rightarrow> 'r sess_answer) \<Rightarrow> ('e + 'a) \<times> 's \<Rightarrow> 'r sess_answer option \<times> 's" where
  "dev_answer f rs = (case fst rs of Inl e \<Rightarrow> None | Inr x \<Rightarrow> Some (f x), snd rs)"

fun sess_step :: "'r codec \<Rightarrow> bool \<Rightarrow> bool \<Rightarrow> bool \<Rightarrow> 'r sess_op \<Rightarrow> 'r dev_state \<Rightarrow> 'r sess_answer option \<times> 'r dev_state" where
  "sess_step cd ld it nv (OpLoad a) st = dev_answer SSession (LoadSession cd ld a st)"
| "sess_step cd ld it nv (OpStore a r) st = dev_answer (\<lambda>_. SDone) (StoreSession cd a r st)"
| "sess_step cd ld it nv (OpHas a) st = dev_answer SHas (ContainsSession a st)"
| "sess_step cd ld it nv (OpRemove a) st = dev_answer (\<lambda>_. SDone) (dev_DeleteSession a st)"
| "sess_step cd ld it nv (OpPrefetch as) st = dev_answer (\<lambda>x. SExisting (map (map_of x) as)) (WithCachedSessions cd it as st)"
| "sess_step cd ld it nv OpFlush st = dev_answer (\<lambda>_. SDone) (PutCachedSessions cd nv st)"

text \<open>The specification has no cache: one map from addresses to stored sessions.\<close>

fun sess_spec :: "'r codec \<Rightarrow> 'r sess_op \<Rightarrow> (string \<rightharpoonup> bytes) \<Rightarrow> 'r sess_answer \<times> (string \<rightharpoonup> bytes)" where
  "sess_spec cd (OpLoad a) m = (SSession (case m a of None \<Rightarrow> new_record cd | Some b \<Rightarrow> the (from_bytes cd b)), m)"
| "sess_spec cd (OpStore a r) m = (SDone, m(a \<mapsto> Serialize cd r))"
| "sess_spec cd (OpHas a) m = (SHas (m a \<noteq> None), m)"
| "sess_spec cd (OpRemove a) m = (SDone, m(a := None))"
| "sess_spec cd (OpPrefetch as) m = (SExisting (map (\<lambda>a. existing_answer cd (m a)) as), m)"
| "sess_spec cd OpFlush m = (SDone, m)"

text \<open>
  A session is deleted only while the cache has no entry for it, and a new cache replaces only one
  that holds nothing unsaved.
\<close>

fun sess_safe :: "'r sess_op \<Rightarrow> 'r dev_state \<Rightarrow> bool" where
  "sess_safe (OpRemove a) st \<longleftrightarrow> \<not> cached_addr st a"
| "sess_safe (OpPrefetch as) st \<longleftrightarrow> nothing_dirty st"
| "sess_safe op st \<longleftrightarrow> True"

lemma dev_answer_Some: "dev_answer f rs = (Some a, s') \<longleftrightarrow> (\<exists>x. rs = (Inr x, s') \<and> a = f x)"
  by (cases rs) (auto simp: dev_answer_def split: sum.splits)

lemma dev_answer_None: "dev_answer f rs = (None, s') \<longleftrightarrow> (\<exists>e. rs = (Inl e, s'))"
  by (cases rs) (auto simp: dev_answer_def split: sum.splits)

text \<open>Queries change neither the tables nor the cache.\<close>

definition same_sessions :: "'r dev_state \<Rightarrow> 'r dev_state \<Rightarrow> bool" where
  "same_sessions a b \<longleftrightarrow>
     sessions (s_db (dv_store a)) = sessions (s_db (dv_store b)) \<and> dv_cache a = dv_cache b"

lemma same_sessions_ok: "same_sessions st' st \<Longrightarrow> sc_ok cd st \<Longrightarrow> sc_ok cd st' \<and> view cd st' = view cd st"
  unfolding same_sessions_def sc_ok_def view_def fun_eq_iff by (simp only:) simp

lemma same_sessions_refl [simp]: "same_sessions st st"
  by (simp add: same_sessions_def)

lemma sc_ok_entry: "sc_ok cd st \<Longrightarrow> dv_cache st = Some cache \<Longrightarrow> map_of cache a = Some e \<Longrightarrow> entry_ok cd (stored st a) e"
  by (simp add: sc_ok_def)

lemma LoadSession_step:
  assumes ok: "sc_ok cd st" and cc: "codec_correct cd" and run: "LoadSession cd ld a st = (r, st')"
  shows "same_sessions st' st"
    and "r = Inr x \<Longrightarrow> x = (case view cd st a of None \<Rightarrow> new_record cd | Some b \<Rightarrow> the (from_bytes cd b))"
proof -
  have "same_sessions st' st \<and>
    (\<forall>x. r = Inr x \<longrightarrow> x = (case view cd st a of None \<Rightarrow> new_record cd | Some b \<Rightarrow> the (from_bytes cd b)))"
  proof (cases "getCachedSession a st")
    case (Some x)
    then obtain cache e where c: "dv_cache st = Some cache" "map_of cache a = Some e" "x = sc_Record e"
      by (auto simp: getCachedSession_def getSessionCache_def split: option.splits)
    from sc_ok_entry [OF ok c(1,2)] c cc Some run show ?thesis
      by (auto simp: LoadSession_def view_def entry_ok_def fresh_entry_def codec_correct_def split: option.splits if_splits)
  next
    case None
    then have v: "view cd st a = stored st a"
      by (auto simp: getCachedSession_def getSessionCache_def view_def split: option.splits)
    have "(if ld then IterateSession a else GetSession a) = on_db (sql_query (\<lambda>d. map_of (sessions d) a))"
      by (simp add: IterateSession_def GetSession_def)
    with None run v show ?thesis
      by (auto simp: LoadSession_def on_store_def on_db_def sql_query_def sbind_def Let_def same_sessions_def
          split: if_splits option.splits)
  qed
  then show "same_sessions st' st"
    "r = Inr x \<Longrightarrow> x = (case view cd st a of None \<Rightarrow> new_record cd | Some b \<Rightarrow> the (from_bytes cd b))" by blast+
qed

lemma ContainsSession_step:
  assumes ok: "sc_ok cd st" and run: "ContainsSession a st = (r, st')"
  shows "same_sessions st' st \<and> (\<forall>x. r = Inr x \<longrightarrow> x = (view cd st a \<noteq> None))"
proof (cases "snd (hasCachedSession a st)")
  case True
  then obtain cache e where c: "dv_cache st = Some cache" "map_of cache a = Some e"
    by (auto simp: hasCachedSession_def getSessionCache_def split: option.splits)
  from sc_ok_entry [OF ok c] c run show ?thesis
    by (auto simp: ContainsSession_def hasCachedSession_def getSessionCache_def view_def entry_ok_def fresh_entry_def
        split: option.splits if_splits)
next
  case False
  then have v: "view cd st a = stored st a"
    by (auto simp: hasCachedSession_def getSessionCache_def view_def split: option.splits)
  from False run v show ?thesis
    by (auto simp: ContainsSession_def HasSession_def on_store_def on_db_def sql_query_def Let_def same_sessions_def split_def
        split: if_splits)
qed

lemma StoreSession_step:
  assumes ok: "sc_ok cd st" and run: "StoreSession cd a x st = (r, st')"
  shows "(\<exists>u. r = Inr u) \<longrightarrow> sc_ok cd st' \<and> view cd st' = (view cd st)(a \<mapsto> Serialize cd x)"
    and "(\<exists>e. r = Inl e) \<longrightarrow> sc_ok cd st' \<and> view cd st' = view cd st"
proof -
  have "((\<exists>u. r = Inr u) \<longrightarrow> sc_ok cd st' \<and> view cd st' = (view cd st)(a \<mapsto> Serialize cd x)) \<and>
    ((\<exists>e. r = Inl e) \<longrightarrow> sc_ok cd st' \<and> view cd st' = view cd st)"
  proof (cases "dv_cache st")
    case (Some cache)
    with run have "r = Inr ()" "st' = st\<lparr>dv_cache := Some (aset a \<lparr>sc_Dirty = True, sc_Found = True, sc_Record = x\<rparr> cache)\<rparr>"
      by (auto simp: StoreSession_def putCachedSession_def getSessionCache_def)
    with ok Some show ?thesis by (auto simp: sc_ok_def view_def entry_ok_def fun_eq_iff split: option.split)
  next
    case None
    with run have "on_store ''store'' (PutSession a (Serialize cd x)) st = (r, st')"
      by (simp add: StoreSession_def putCachedSession_def getSessionCache_def)
    with ok None show ?thesis
      by (auto simp: sc_ok_def view_def on_store_def PutSession_def on_db_def sql_exec_def Let_def fun_eq_iff split: if_splits)
  qed
  then show "(\<exists>u. r = Inr u) \<longrightarrow> sc_ok cd st' \<and> view cd st' = (view cd st)(a \<mapsto> Serialize cd x)"
    "(\<exists>e. r = Inl e) \<longrightarrow> sc_ok cd st' \<and> view cd st' = view cd st" by blast+
qed

lemma DeleteSession_step:
  assumes ok: "sc_ok cd st" and safe: "\<not> cached_addr st a" and run: "dev_DeleteSession a st = (r, st')"
  shows "(\<exists>u. r = Inr u) \<longrightarrow> sc_ok cd st' \<and> view cd st' = (view cd st)(a := None)"
    and "(\<exists>e. r = Inl e) \<longrightarrow> sc_ok cd st' \<and> view cd st' = view cd st"
proof -
  let ?del = "\<lambda>st. st\<lparr>dv_store := (dv_store st)\<lparr>s_db := tick ((s_db (dv_store st))\<lparr>sessions := adel a (sessions (s_db (dv_store st)))\<rparr>)\<rparr>\<rparr>"
  from run consider (ran) "\<exists>u. r = Inr u" "st' = ?del st" | (failed) "\<exists>e. r = Inl e" "same_sessions st' st"
    by (auto simp: dev_DeleteSession_def on_store_def DeleteSession_def on_db_def sql_exec_def Let_def same_sessions_def split: if_splits)
  then have "((\<exists>u. r = Inr u) \<longrightarrow> sc_ok cd st' \<and> view cd st' = (view cd st)(a := None)) \<and>
    ((\<exists>e. r = Inl e) \<longrightarrow> sc_ok cd st' \<and> view cd st' = view cd st)"
  proof cases
    case ran
    have ne: "b \<noteq> a" if "dv_cache st = Some cache" "map_of cache b = Some e" for cache b e
      using safe that by (auto simp: cached_addr_def)
    from ok ran have "sc_ok cd st'" by (auto simp: sc_ok_def dest: ne)
    moreover have "view cd st' b = ((view cd st)(a := None)) b" for b
      using ran safe by (auto simp: view_def cached_addr_def split: option.splits)
    ultimately show ?thesis using ran(1) by (auto simp: fun_eq_iff)
  next
    case failed
    with same_sessions_ok ok show ?thesis by blast
  qed
  then show "(\<exists>u. r = Inr u) \<longrightarrow> sc_ok cd st' \<and> view cd st' = (view cd st)(a := None)"
    "(\<exists>e. r = Inl e) \<longrightarrow> sc_ok cd st' \<and> view cd st' = view cd st" by blast+
qed

lemma map_of_dirty:
  assumes "amap cache"
  shows "map_of (dirty_sessions cd cache) a =
    (case map_of cache a of Some e \<Rightarrow> if sc_Dirty e then Some (Serialize cd (sc_Record e)) else None | None \<Rightarrow> None)"
  using assms
proof (induction cache)
  case (Cons x cache)
  obtain b e where x: "x = (b, e)" by fastforce
  with Cons.prems have "map_of cache b = None" "amap cache" by (auto simp: amap_def map_of_eq_None_fst)
  with Cons.IH x show ?case by (cases "a = b") (auto simp: dirty_sessions_def split: option.splits)
qed (simp add: dirty_sessions_def)

lemma PutManySessions_amap:
  assumes "PutManySessions native ss s = (r, s')" and "amap (sessions (s_db s))"
  shows "amap (sessions (s_db s'))"
proof (cases r)
  case (Inl e)
  with PutManySessions_Inl(1) [of native ss s e s'] assms show ?thesis by (simp add: same_signal_iff)
next
  case (Inr u)
  have "amap (fold (\<lambda>a t. aset a (f a) t) as t)" if "amap t" for f :: "string \<Rightarrow> bytes" and as t
    using that by (induction as arbitrary: t) auto
  with PutManySessions_folds [of native ss s u s'] Inr assms show ?thesis by auto
qed

lemma PutCachedSessions_step:
  assumes ok: "sc_ok cd st" and run: "PutCachedSessions cd nv st = (r, st')"
  shows "sc_ok cd st' \<and> view cd st' = view cd st"
proof (cases "dv_cache st")
  case None
  with run ok show ?thesis by (auto simp: PutCachedSessions_def getSessionCache_def)
next
  case (Some cache)
  have am: "amap cache" "amap (sessions (s_db (dv_store st)))" using ok Some by (auto simp: sc_ok_def)
  have v: "view cd st = stored st ++ map_of (dirty_sessions cd cache)"
    using Some by (auto simp: fun_eq_iff view_def map_add_def map_of_dirty [OF am(1)] split: option.split)
  show ?thesis
  proof (cases "dirty_sessions cd cache = []")
    case True
    with run Some have "st' = st\<lparr>dv_cache := Some []\<rparr>" by (auto simp: PutCachedSessions_def getSessionCache_def Let_def)
    with v True am show ?thesis by (auto simp: sc_ok_def view_def fun_eq_iff)
  next
    case False
    obtain r1 s1 where p: "PutManySessions nv (dirty_sessions cd cache) (dv_store st) = (r1, s1)" by fastforce
    have am1: "amap (sessions (s_db s1))" by (rule PutManySessions_amap [OF p am(2)])
    show ?thesis
    proof (cases r1)
      case (Inl e)
      with run Some False p have "st' = st\<lparr>dv_store := s1\<rparr>"
        by (auto simp: PutCachedSessions_def getSessionCache_def Let_def sbind_def on_store_def)
      with PutManySessions_Inl(1) [OF p [unfolded Inl]] have "same_sessions st' st"
        by (simp add: same_sessions_def same_signal_iff)
      with same_sessions_ok ok show ?thesis by blast
    next
      case (Inr u)
      with run Some False p have "st' = st\<lparr>dv_store := s1, dv_cache := Some []\<rparr>"
        by (auto simp: PutCachedSessions_def getSessionCache_def Let_def sbind_def on_store_def)
      with PutManySessions_Inr(1) [OF p [unfolded Inr]] v am1 show ?thesis
        by (simp add: sc_ok_def view_def fun_eq_iff)
    qed
  qed
qed

lemma WithCachedSessions_failed:
  assumes "WithCachedSessions cd it as st = (Inl e, st')"
  shows "same_sessions st' st"
  using assms
  by (auto simp: WithCachedSessions_def Let_def sbind_def on_store_def IterateSessions_def GetManySessions_def on_db_def
      sql_query_def same_sessions_def split: if_splits prod.splits)

lemma nothing_dirty_view: "sc_ok cd st \<Longrightarrow> nothing_dirty st \<Longrightarrow> view cd st = stored st"
proof
  fix a
  assume "sc_ok cd st" "nothing_dirty st"
  then have "\<not> sc_Dirty e" if "dv_cache st = Some cache" "map_of cache a = Some e" for cache e
    using map_of_SomeD [OF that(2)] that(1) by (auto simp: nothing_dirty_def list_ex_iff)
  then show "view cd st a = stored st a" by (auto simp: view_def split: option.split)
qed

lemma WithCachedSessions_step:
  assumes ok: "sc_ok cd st" and clean: "nothing_dirty st" and run: "WithCachedSessions cd it as st = (Inr existing, st')"
  shows "sc_ok cd st' \<and> view cd st' = view cd st \<and> map (map_of existing) as = map (\<lambda>a. existing_answer cd (view cd st a)) as"
proof (cases "as = []")
  case True
  with run ok show ?thesis by (simp add: WithCachedSessions_def)
next
  case False
  have am: "amap (sessions (s_db (dv_store st)))" using ok by (simp add: sc_ok_def)
  note w = WithCachedSessions_Inr [OF run am False]
  have st: "sessions (s_db (dv_store st')) = sessions (s_db (dv_store st))" using w(1) by (simp add: same_signal_iff)
  from w(2) obtain cache where c: "dv_cache st' = Some cache" "amap cache"
    and fresh: "\<And>a e. map_of cache a = Some e \<Longrightarrow> fresh_entry cd (stored st a) e" by blast
  have "sc_ok cd st'" using c fresh am by (auto simp: sc_ok_def st entry_ok_def fresh_entry_def)
  moreover have "view cd st' a = stored st a" for a
    using c fresh [of a] by (auto simp: view_def st fresh_entry_def split: option.split)
  moreover have "map_of existing a = existing_answer cd (view cd st a)" if "a \<in> set as" for a
    using w(3) [OF that] nothing_dirty_view [OF ok clean] by simp
  ultimately show ?thesis using nothing_dirty_view [OF ok clean] by (auto simp: fun_eq_iff)
qed

lemma sess_answered:
  assumes inv: "codec_correct cd \<and> sc_ok cd st" and safe: "sess_safe op st"
    and run: "sess_step cd ld it nv op st = (Some r, st')"
  shows "(codec_correct cd \<and> sc_ok cd st') \<and> sess_spec cd op (view cd st) = (r, view cd st')"
proof -
  from inv have cc: "codec_correct cd" and ok: "sc_ok cd st" by auto
  show ?thesis
  proof (cases op)
    case (OpLoad a)
    with run obtain x where "LoadSession cd ld a st = (Inr x, st')" "r = SSession x" by (auto simp: dev_answer_Some)
    with LoadSession_step [OF ok cc this(1)] same_sessions_ok ok cc OpLoad show ?thesis by fastforce
  next
    case (OpStore a x)
    with run obtain u where "StoreSession cd a x st = (Inr u, st')" "r = SDone" by (auto simp: dev_answer_Some)
    with StoreSession_step(1) [OF ok this(1)] cc OpStore show ?thesis by simp
  next
    case (OpHas a)
    with run obtain x where "ContainsSession a st = (Inr x, st')" "r = SHas x" by (auto simp: dev_answer_Some)
    with ContainsSession_step [OF ok this(1)] same_sessions_ok ok cc OpHas show ?thesis by fastforce
  next
    case (OpRemove a)
    with run obtain u where "dev_DeleteSession a st = (Inr u, st')" "r = SDone" by (auto simp: dev_answer_Some)
    with DeleteSession_step(1) [OF ok _ this(1)] safe cc OpRemove show ?thesis by simp
  next
    case (OpPrefetch as)
    with run obtain x where "WithCachedSessions cd it as st = (Inr x, st')" "r = SExisting (map (map_of x) as)"
      by (auto simp: dev_answer_Some)
    with WithCachedSessions_step [OF ok _ this(1)] safe cc OpPrefetch show ?thesis by simp
  next
    case OpFlush
    with run obtain u where "PutCachedSessions cd nv st = (Inr u, st')" "r = SDone" by (auto simp: dev_answer_Some)
    with PutCachedSessions_step [OF ok this(1)] cc OpFlush show ?thesis by simp
  qed
qed

lemma sess_failed:
  assumes inv: "codec_correct cd \<and> sc_ok cd st" and safe: "sess_safe op st"
    and run: "sess_step cd ld it nv op st = (None, st')"
  shows "(codec_correct cd \<and> sc_ok cd st') \<and> view cd st' = view cd st"
proof -
  from inv have cc: "codec_correct cd" and ok: "sc_ok cd st" by auto
  have "sc_ok cd st' \<and> view cd st' = view cd st"
  proof (cases op)
    case (OpLoad a)
    with run obtain e where "LoadSession cd ld a st = (Inl e, st')" by (auto simp: dev_answer_None)
    from LoadSession_step(1) [OF ok cc this] same_sessions_ok ok show ?thesis by blast
  next
    case (OpStore a x)
    with run obtain e where "StoreSession cd a x st = (Inl e, st')" by (auto simp: dev_answer_None)
    from StoreSession_step(2) [OF ok this] show ?thesis by simp
  next
    case (OpHas a)
    with run obtain e where "ContainsSession a st = (Inl e, st')" by (auto simp: dev_answer_None)
    with ContainsSession_step [OF ok this] same_sessions_ok ok show ?thesis by blast
  next
    case (OpRemove a)
    with run obtain e where "dev_DeleteSession a st = (Inl e, st')" by (auto simp: dev_answer_None)
    with DeleteSession_step(2) [OF ok _ this] safe OpRemove show ?thesis by simp
  next
    case (OpPrefetch as)
    with run obtain e where "WithCachedSessions cd it as st = (Inl e, st')" by (auto simp: dev_answer_None)
    from WithCachedSessions_failed [OF this] same_sessions_ok ok show ?thesis by blast
  next
    case OpFlush
    with run obtain e where "PutCachedSessions cd nv st = (Inl e, st')" by (auto simp: dev_answer_None)
    from PutCachedSessions_step [OF ok this] show ?thesis by simp
  qed
  with cc show ?thesis by simp
qed

interpretation sess: op_refinement "\<lambda>st. codec_correct cd \<and> sc_ok cd st" "view cd" sess_safe "sess_step cd ld it nv" "sess_spec cd"
  for cd :: "'r codec" and ld it nv
  by unfold_locales (rule sess_answered, assumption+, rule sess_failed, assumption+)

lemma flushed_view: "PutCachedSessions cd nv st = (Inr u, st') \<Longrightarrow> view cd st' = stored st'"
  by (auto simp: PutCachedSessions_def getSessionCache_def sbind_eq_Inr Let_def view_def fun_eq_iff split: option.splits)

text \<open>
  C24: The session cache of a context is transparent. Take any sequence of loading, storing, checking,
  prefetching and deleting sessions that ends with writing the cache back, with any statements
  failing. If the final write succeeds, every answer is the one a plain map from addresses to
  sessions gives, and the sessions table is exactly that map: each session stored in the cache is in
  the table and nothing else changed. Sessions are deleted only while they are not cached, and a
  cache is replaced only when it has no unsaved session.
\<close>

theorem session_cache_transparent:
  assumes "codec_correct cd" and "dv_cache st = None" and "amap (sessions (s_db (dv_store st)))"
    and "all_safe sess_safe (sess_step cd ld it nv) (ops @ [OpFlush]) st"
    and "run_ops (sess_step cd ld it nv) (ops @ [OpFlush]) st = (rs, st')" and "last rs \<noteq> None"
  shows "spec_ops (sess_spec cd) (ops @ [OpFlush]) (map (\<lambda>r. r = None) rs) (stored st) = (rs, stored st')"
proof -
  have "sc_ok cd st" "view cd st = stored st" using assms(2,3) by (auto simp: sc_ok_def view_def fun_eq_iff)
  with sess.runs [OF _ assms(4,5)] assms(1)
  have "spec_ops (sess_spec cd) (ops @ [OpFlush]) (map (\<lambda>r. r = None) rs) (stored st) = (rs, view cd st')" by auto
  moreover obtain rs1 st1 where 1: "run_ops (sess_step cd ld it nv) ops st = (rs1, st1)" by fastforce
  obtain r where 2: "sess_step cd ld it nv OpFlush st1 = (r, st')" and "rs = rs1 @ [r]"
    using assms(5) by (auto simp: run_ops_append 1 simp del: sess_step.simps split: prod.splits)
  with assms(6) obtain u where "PutCachedSessions cd nv st1 = (Inr u, st')" by (auto simp: dev_answer_Some)
  from flushed_view [OF this] have "view cd st' = stored st'" .
  ultimately show ?thesis by simp
qed

text \<open>Sessions that are one byte long, for the concrete run.\<close>

definition byte_codec :: "byte codec" where
  "byte_codec = \<lparr>new_record = 0, Serialize = (\<lambda>b. [b]), from_bytes = (\<lambda>bs. case bs of [b] \<Rightarrow> Some b | _ \<Rightarrow> None)\<rparr>"

definition demo_device_state :: "byte dev_state" where
  "demo_device_state =
     \<lparr>dv_store = NewSQLStore ((empty_signal_db (\<lambda>_. False))\<lparr>sessions := [(''a:0'', [7]), (''b:0'', [8, 8])]\<rparr>), dv_cache = None\<rparr>"

definition demo_sess_ops :: "byte sess_op list" where
  "demo_sess_ops = [OpPrefetch [''a:0'', ''b:0'', ''c:0''], OpLoad ''a:0'', OpStore ''c:0'' 5, OpHas ''c:0'', OpLoad ''b:0'']"

theorem session_cache_transparent_witness:
  "\<exists>rs st'. run_ops (sess_step byte_codec True True False) (demo_sess_ops @ [OpFlush]) demo_device_state = (rs, st') \<and>
     rs = [Some (SExisting [Some True, None, Some False]), Some (SSession 7), Some SDone, Some (SHas True), None, Some SDone] \<and>
     spec_ops (sess_spec byte_codec) (demo_sess_ops @ [OpFlush]) (map (\<lambda>r. r = None) rs) (stored demo_device_state) = (rs, stored st') \<and>
     stored st' ''c:0'' = Some [5]"
proof -
  let ?run = "run_ops (sess_step byte_codec True True False) (demo_sess_ops @ [OpFlush]) demo_device_state"
  have cc: "codec_correct byte_codec" by (simp add: codec_correct_def byte_codec_def)
  have st: "dv_cache demo_device_state = None" "amap (sessions (s_db (dv_store demo_device_state)))"
    by (simp_all add: demo_device_state_def NewSQLStore_def amap_def)
  have safe: "all_safe sess_safe (sess_step byte_codec True True False) (demo_sess_ops @ [OpFlush]) demo_device_state" by code_simp
  have rs: "fst ?run = [Some (SExisting [Some True, None, Some False]), Some (SSession 7), Some SDone, Some (SHas True), None, Some SDone]"
    and c: "stored (snd ?run) ''c:0'' = Some [5]" by code_simp+
  obtain rs' st' where run: "?run = (rs', st')" by fastforce
  from session_cache_transparent [OF cc st safe run] rs c run show ?thesis by simp
qed

text \<open>
  Deleting a session does not touch the cache. With a cached session the deletion is reported as
  done, but the session is still found, and a session stored before it is written back to the table.
\<close>

lemma DeleteSession_ignores_cache:
  "let st = snd (run_ops (sess_step byte_codec True True False) [OpPrefetch [''a:0''], OpStore ''a:0'' 9, OpRemove ''a:0''] demo_device_state) in
   fst (ContainsSession ''a:0'' st) = Inr True \<and> fst (LoadSession byte_codec True ''a:0'' st) = Inr 9 \<and>
   stored (snd (PutCachedSessions byte_codec False st)) ''a:0'' = Some [9]"
  by code_simp

end
