(* ===== verification/EventBuffer.thy ===== *)
theory EventBuffer
  imports Identity AttrUtil Crypto
begin

text \<open>
  The buffers of events in \<open>src/store/sqlstore/store.go\<close> (decrypted incoming events and outgoing
  events kept for retries), and the decryption of messages of \<open>src/message.go\<close> that uses the first of
  them: \<open>bufferedDecrypt\<close>, \<open>decryptDM\<close>, \<open>decryptGroupMsg\<close>, \<open>clearUntrustedIdentity\<close> and the padding.
  The ciphers of the protocol library are parameters (\<open>signal_cipher\<close>). The property is that a
  ciphertext moves the ratchet at most once: the step and the buffered plaintext are committed
  together, and every later attempt is answered from the buffer.
\<close>

section \<open>Tables\<close>

text \<open>Times in the tables are milliseconds, those of the server seconds.\<close>

record BufferedEvent =
  be_Plaintext :: "bytes option"
  be_InsertTime :: int
  be_ServerTime :: int

definition GetBufferedEvent :: "bytes \<Rightarrow> BufferedEvent option store_op" where
  "GetBufferedEvent ciphertextHash = on_db (sql_query (\<lambda>d.
     map_option (\<lambda>(plaintext, serverTime, insertTime).
       \<lparr>be_Plaintext = plaintext, be_InsertTime = insertTime, be_ServerTime = serverTime\<rparr>)
       (map_of (event_buffer d) ciphertextHash)))"

definition PutBufferedEvent :: "int \<Rightarrow> bytes \<Rightarrow> bytes \<Rightarrow> int \<Rightarrow> unit store_op" where
  "PutBufferedEvent now ciphertextHash plaintext serverTimestamp = on_db (sql_exec (\<lambda>d.
     if length ciphertextHash \<noteq> 32 then Inl CheckViolation
     else if map_of (event_buffer d) ciphertextHash \<noteq> None then Inl UniqueViolation
     else Inr (d\<lparr>event_buffer := event_buffer d @ [(ciphertextHash, Some plaintext, serverTimestamp, now)]\<rparr>)))"

definition ClearBufferedEventPlaintext :: "bytes \<Rightarrow> unit store_op" where
  "ClearBufferedEventPlaintext ciphertextHash = on_db (sql_exec (\<lambda>d.
     Inr (d\<lparr>event_buffer := map (\<lambda>(h, plaintext, times).
       (h, if h = ciphertextHash then None else plaintext, times)) (event_buffer d)\<rparr>)))"

abbreviation (input) "bufferRetention \<equiv> (14 * 24 * 3600 * 1000 :: int)"

definition DeleteOldBufferedHashes :: "int \<Rightarrow> unit store_op" where
  "DeleteOldBufferedHashes now = on_db (sql_exec (\<lambda>d.
     Inr (d\<lparr>event_buffer := filter (\<lambda>(h, plaintext, serverTime, insertTime).
       \<not> insertTime < now - bufferRetention) (event_buffer d)\<rparr>)))"

text \<open>\<open>QueryRow\<close> reads the first row.\<close>

definition GetOutgoingEvent :: "string \<Rightarrow> string \<Rightarrow> string \<Rightarrow> (string \<times> bytes) store_op" where
  "GetOutgoingEvent chatJID altChatJID msgid =
     sbind (on_db (sql_query (\<lambda>d.
       filter (\<lambda>((chat, i), _). (chat = chatJID \<or> chat = altChatJID) \<and> i = msgid) (retry_buffer d)))) (\<lambda>rows.
       case rows of [] \<Rightarrow> serr ErrNoRows | (_, format, plaintext, _) # _ \<Rightarrow> sret (format, plaintext))"

definition AddOutgoingEvent :: "int \<Rightarrow> string \<Rightarrow> string \<Rightarrow> string \<Rightarrow> bytes \<Rightarrow> unit store_op" where
  "AddOutgoingEvent now chatJID msgid format plaintext = on_db (sql_exec (\<lambda>d.
     Inr (d\<lparr>retry_buffer := aset (chatJID, msgid) (format, plaintext, now) (retry_buffer d)\<rparr>)))"

definition DeleteOldOutgoingEvents :: "int \<Rightarrow> unit store_op" where
  "DeleteOldOutgoingEvents now = on_db (sql_exec (\<lambda>d.
     Inr (d\<lparr>retry_buffer := filter (\<lambda>(_, _, _, timestamp).
       \<not> timestamp < now - 7 * 24 * 3600 * 1000) (retry_buffer d)\<rparr>)))"

section \<open>Padding\<close>

datatype cipher_error = ErrUntrustedIdentity | OtherCipherError string

datatype msg_error =
    NotByteSlice | ParseFailed | GetBufferedFailed db_error | ErrEventAlreadyProcessed int
  | CipherFailed cipher_error | ClearFailed db_error | SaveFailed db_error | TxnFailed db_error
  | PlaintextEmpty | BadPadding | SlicePanicked | ErrShadowGroupUnsupported | RelayFailed

text \<open>\<open>bytes.HasSuffix\<close> with \<open>bytes.Repeat\<close>; the caller has checked that there is a last byte.\<close>

definition isValidPadding :: "bytes \<Rightarrow> bool" where
  "isValidPadding plaintext =
     (let lastByte = last plaintext; expectedPadding = replicate (unat lastByte) lastByte in
      length expectedPadding \<le> length plaintext \<and>
      drop (length plaintext - length expectedPadding) plaintext = expectedPadding)"

definition unpadMessage :: "bytes \<Rightarrow> int \<Rightarrow> msg_error + bytes" where
  "unpadMessage plaintext version =
     (if version = 3 then Inr plaintext
      else if length plaintext = 0 then Inl PlaintextEmpty
      else if \<not> isValidPadding plaintext then Inl BadPadding
      else if unat (last plaintext) > length plaintext then Inl SlicePanicked
      else Inr (take (length plaintext - unat (last plaintext)) plaintext))"

text \<open>The random byte is an argument.\<close>

definition padMessage :: "byte \<Rightarrow> bytes \<Rightarrow> bytes" where
  "padMessage rnd plaintext =
     (let pad = rnd AND 15; pad = (if pad = 0 then 15 else pad) in plaintext @ replicate (unat pad) pad)"

section \<open>Decrypting at most once\<close>

type_synonym 'a msg_op = "(SQLStore, msg_error, 'a) sr"

definition ciphertext_hash :: "crypto \<Rightarrow> bytes \<Rightarrow> string list \<Rightarrow> bytes" where
  "ciphertext_hash c ciphertext extraHashData =
     sha256 c (ciphertext @ concat (map (\<lambda>part. 0 # bytes_of_string part) extraHashData) @ [0, 0])"

definition bufferedDecrypt ::
  "crypto \<Rightarrow> bool \<Rightarrow> int \<Rightarrow> bytes \<Rightarrow> int \<Rightarrow> bytes msg_op \<Rightarrow> string list \<Rightarrow> (bytes \<times> bytes) msg_op" where
  "bufferedDecrypt c enableDecryptedEventBuffer now ciphertext serverTimestamp decrypt extraHashData =
     (if \<not> enableDecryptedEventBuffer then sbind decrypt (\<lambda>plaintext. sret (plaintext, replicate 32 0))
      else
        (let ciphertextHash = ciphertext_hash c ciphertext extraHashData in
         sbind (swrap GetBufferedFailed (GetBufferedEvent ciphertextHash)) (\<lambda>buf.
           case buf of
             Some b \<Rightarrow>
               (case be_Plaintext b of
                  None \<Rightarrow> serr (ErrEventAlreadyProcessed (be_InsertTime b))
                | Some plaintext \<Rightarrow> sret (plaintext, ciphertextHash))
           | None \<Rightarrow>
               sbind (DoDecryptionTxn TxnFailed
                 (sbind decrypt (\<lambda>plaintext.
                  sbind (swrap SaveFailed (PutBufferedEvent now ciphertextHash plaintext serverTimestamp)) (\<lambda>_.
                    sret plaintext))))
                 (\<lambda>plaintext. sret (plaintext, ciphertextHash)))))"

section \<open>Direct and group messages\<close>

text \<open>
  The protocol library: parsing of the three message formats, and the ciphers, which work on the
  store. The first argument of \<open>decrypt_prekey\<close> says that the session is not to be stored
  (\<open>sessionlessSignalStore\<close>). \<open>address_text\<close> is its text of a Signal address.
\<close>

record 'm signal_cipher =
  parse_prekey :: "bytes \<Rightarrow> 'm option"
  parse_signal :: "bytes \<Rightarrow> 'm option"
  parse_senderkey :: "bytes \<Rightarrow> 'm option"
  decrypt_prekey :: "bool \<Rightarrow> JID \<Rightarrow> 'm \<Rightarrow> (SQLStore, cipher_error, bytes) sr"
  decrypt_signal :: "JID \<Rightarrow> 'm \<Rightarrow> (SQLStore, cipher_error, bytes) sr"
  decrypt_senderkey :: "string \<Rightarrow> JID \<Rightarrow> 'm \<Rightarrow> (SQLStore, cipher_error, bytes) sr"
  address_text :: "string \<Rightarrow> 16 word \<Rightarrow> string"

definition SignalAddress :: "'m signal_cipher \<Rightarrow> JID \<Rightarrow> string" where
  "SignalAddress sc jid = address_text sc (SignalAddressUser jid) (Device jid)"

definition clearUntrustedIdentity :: "id_pick \<Rightarrow> 'm signal_cipher \<Rightarrow> JID \<Rightarrow> unit store_op" where
  "clearUntrustedIdentity pick sc target =
     sbind (DeleteIdentity pick (SignalAddress sc target)) (\<lambda>_. DeleteSession (SignalAddress sc target))"

text \<open>The closure that \<open>decryptDM\<close> passes for a pre key message: one more attempt after an untrusted identity.\<close>

definition decrypt_trusting :: "id_pick \<Rightarrow> 'm signal_cipher \<Rightarrow> bool \<Rightarrow> bool \<Rightarrow> JID \<Rightarrow> 'm \<Rightarrow> bytes msg_op" where
  "decrypt_trusting pick sc autoTrustIdentity sessionless from preKeyMsg s =
     (case decrypt_prekey sc sessionless from preKeyMsg s of
        (Inl e, s) \<Rightarrow>
          if autoTrustIdentity \<and> e = ErrUntrustedIdentity then
            sbind (swrap ClearFailed (clearUntrustedIdentity pick sc from)) (\<lambda>_.
              swrap CipherFailed (decrypt_prekey sc sessionless from preKeyMsg)) s
          else (Inl (CipherFailed e), s)
      | (Inr pt, s) \<Rightarrow> (Inr pt, s))"

record msg_client =
  EnableDecryptedEventBuffer :: bool
  AutoTrustIdentity :: bool
  shadowRelay :: "(node \<Rightarrow> JID \<Rightarrow> bool \<Rightarrow> (bytes \<times> bytes option) option) option"

definition decryptDM ::
  "crypto \<Rightarrow> id_pick \<Rightarrow> 'm signal_cipher \<Rightarrow> msg_client \<Rightarrow> int \<Rightarrow> node \<Rightarrow> JID \<Rightarrow> bool \<Rightarrow> int \<Rightarrow>
   (bytes \<times> bytes option) msg_op" where
  "decryptDM c pick sc cli now child from isPreKey serverTS =
     (case shadowRelay cli of
        Some relay \<Rightarrow> (case relay child from isPreKey of None \<Rightarrow> serr RelayFailed | Some r \<Rightarrow> sret r)
      | None \<Rightarrow>
          (case Content child of
             VBytes content \<Rightarrow>
               (let sessionless = (isPreKey \<and> fst (OptionalString ''state'' (AttrGetter child)) = ''false'') in
                sbind
                  (if isPreKey then
                     (case parse_prekey sc content of
                        None \<Rightarrow> serr ParseFailed
                      | Some preKeyMsg \<Rightarrow>
                          bufferedDecrypt c (EnableDecryptedEventBuffer cli) now content serverTS
                            (decrypt_trusting pick sc (AutoTrustIdentity cli) sessionless from preKeyMsg)
                            [''prekey'', JID_String from])
                   else
                     (case parse_signal sc content of
                        None \<Rightarrow> serr ParseFailed
                      | Some msg \<Rightarrow>
                          bufferedDecrypt c (EnableDecryptedEventBuffer cli) now content serverTS
                            (swrap CipherFailed (decrypt_signal sc from msg)) [''normal'', JID_String from]))
                  (\<lambda>(plaintext, ciphertextHash).
                     sbind (slift (unpadMessage plaintext (fst (au_Int ''v'' (AttrGetter child))))) (\<lambda>plaintext.
                       sret (plaintext, Some ciphertextHash))))
           | _ \<Rightarrow> serr NotByteSlice))"

definition decryptGroupMsg ::
  "crypto \<Rightarrow> 'm signal_cipher \<Rightarrow> msg_client \<Rightarrow> int \<Rightarrow> node \<Rightarrow> JID \<Rightarrow> JID \<Rightarrow> int \<Rightarrow> (bytes \<times> bytes option) msg_op" where
  "decryptGroupMsg c sc cli now child from chat serverTS =
     (if shadowRelay cli \<noteq> None then serr ErrShadowGroupUnsupported
      else
        (case Content child of
           VBytes content \<Rightarrow>
             (case parse_senderkey sc content of
                None \<Rightarrow> serr ParseFailed
              | Some msg \<Rightarrow>
                  sbind (bufferedDecrypt c (EnableDecryptedEventBuffer cli) now content serverTS
                           (swrap CipherFailed (decrypt_senderkey sc (JID_String chat) from msg))
                           [''senderkey'', JID_String chat, JID_String from])
                    (\<lambda>(plaintext, ciphertextHash).
                       sbind (slift (unpadMessage plaintext (fst (au_Int ''v'' (AttrGetter child))))) (\<lambda>plaintext.
                         sret (plaintext, Some ciphertextHash))))
         | _ \<Rightarrow> serr NotByteSlice))"

section \<open>Padding is undone\<close>

lemma pad_byte_bounds:
  fixes rnd :: byte
  shows "unat (rnd AND 15) < 16"
proof -
  have "rnd AND 15 \<le> 15" by (rule word_and_le1)
  then have "unat (rnd AND 15) \<le> unat (15 :: byte)" by (simp only: word_le_nat_alt)
  then show ?thesis by simp
qed

text \<open>A valid padding is never longer than the plaintext, so the slice never panics.\<close>

lemma unpadMessage_no_panic: "unpadMessage plaintext version \<noteq> Inl SlicePanicked"
  by (auto simp: unpadMessage_def isValidPadding_def Let_def)

text \<open>
  C35: A padded message is unpadded to itself, whatever the random byte, by every receiver that
  does not use version 3; between one and fifteen bytes are added; and unpadding arbitrary bytes
  never slices out of range.
\<close>

lemma padMessage_unpadMessage:
  "(version \<noteq> 3 \<longrightarrow> unpadMessage (padMessage rnd plaintext) version = Inr plaintext) \<and>
   length plaintext < length (padMessage rnd plaintext) \<and> length (padMessage rnd plaintext) \<le> length plaintext + 15 \<and>
   unpadMessage received version \<noteq> Inl SlicePanicked"
proof -
  define pad where "pad = (if rnd AND 15 = 0 then 15 else rnd AND 15)"
  have pad: "padMessage rnd plaintext = plaintext @ replicate (unat pad) pad"
    by (simp add: padMessage_def pad_def Let_def)
  have "pad \<noteq> 0" by (simp add: pad_def)
  then have pos: "0 < unat pad" by (simp add: unat_gt_0)
  have le: "unat pad \<le> 15" using pad_byte_bounds [of rnd] by (simp add: pad_def)
  have "last (padMessage rnd plaintext) = pad" using pos by (simp add: pad)
  then have "unpadMessage (padMessage rnd plaintext) version = Inr plaintext" if "version \<noteq> 3"
    using that pos by (simp add: unpadMessage_def isValidPadding_def pad)
  with pos le show ?thesis by (simp add: pad unpadMessage_no_panic)
qed

theorem padMessage_unpadMessage_witness:
  "(2 :: int) \<noteq> 3 \<and> unpadMessage (padMessage 16 [1, 2]) 2 = Inr [1, 2]"
  using padMessage_unpadMessage [of 2 16 "[1, 2]" "[]"] by simp

section \<open>The ratchet moves at most once for a ciphertext\<close>

text \<open>The library's ciphers use the tables of keys and sessions, never the buffer of events.\<close>

definition keeps_buffer :: "(SQLStore, 'e, 'a) sr \<Rightarrow> bool" where
  "keeps_buffer d \<longleftrightarrow> (\<forall>s. event_buffer (s_db (snd (d s))) = event_buffer (s_db s))"

lemma keeps_bufferD: "keeps_buffer d \<Longrightarrow> d s = (r, s') \<Longrightarrow> event_buffer (s_db s') = event_buffer (s_db s)"
  unfolding keeps_buffer_def by (metis snd_conv)

abbreviation buffered :: "SQLStore \<Rightarrow> bytes \<rightharpoonup> bytes option \<times> int \<times> int" where
  "buffered s \<equiv> map_of (event_buffer (s_db s))"

lemma GetBufferedEvent_cases:
  assumes "GetBufferedEvent h s = (r, s')"
  shows "s' = s\<lparr>s_db := tick (s_db s)\<rparr>"
    and "r = Inl DbFailed \<or> r = Inr (map_option (\<lambda>(plaintext, serverTime, insertTime).
       \<lparr>be_Plaintext = plaintext, be_InsertTime = insertTime, be_ServerTime = serverTime\<rparr>) (buffered s h))"
  using assms by (auto simp: GetBufferedEvent_def on_db_def sql_query_def split: if_splits)

lemma PutBufferedEvent_cases:
  assumes "PutBufferedEvent now h p ts s = (r, s')" and "buffered s h = None"
  shows "(r = Inr () \<and> buffered s' = (buffered s)(h \<mapsto> (Some p, ts, now))) \<or> ((\<exists>e. r = Inl e) \<and> buffered s' = buffered s)"
  using assms by (auto simp: PutBufferedEvent_def on_db_def sql_exec_def fun_eq_iff map_add_def split: if_splits option.splits)

text \<open>The three ways an attempt can go: answered by the buffer, decrypted and saved, or failed.\<close>

lemma bufferedDecrypt_known:
  assumes "buffered s (ciphertext_hash c ct extra) = Some (pt, ts0, it)"
    and "bufferedDecrypt c True now ct ts d extra s = (r, s')"
  shows "s' = s\<lparr>s_db := tick (s_db s)\<rparr> \<and>
    (r = Inl (GetBufferedFailed DbFailed) \<or>
     r = (case pt of None \<Rightarrow> Inl (ErrEventAlreadyProcessed it) | Some p \<Rightarrow> Inr (p, ciphertext_hash c ct extra)))"
proof -
  obtain g s1 where g: "GetBufferedEvent (ciphertext_hash c ct extra) s = (g, s1)" by fastforce
  note GetBufferedEvent_cases [OF g]
  with assms g show ?thesis
    by (auto simp: bufferedDecrypt_def Let_def sbind_def swrap_def split: option.splits)
qed

lemma decrypt_and_save:
  assumes run: "DoDecryptionTxn TxnFailed (sbind d (\<lambda>p. sbind (swrap SaveFailed (PutBufferedEvent now h p ts)) (\<lambda>_. sret p))) s = (r, s')"
    and "keeps_buffer d" and "buffered s h = None"
  shows "(\<exists>p. r = Inr p \<and> buffered s' = (buffered s)(h \<mapsto> (Some p, ts, now))) \<or> ((\<exists>e. r = Inl e) \<and> same_signal (s_db s') (s_db s))"
proof (cases r)
  case (Inl e)
  from DoDecryptionTxn_Inl [OF run [unfolded Inl]] Inl show ?thesis by simp
next
  case (Inr p)
  from DoDecryptionTxn_Inr [OF run [unfolded Inr]] obtain s3 where
    body: "sbind d (\<lambda>p. sbind (swrap SaveFailed (PutBufferedEvent now h p ts)) (\<lambda>_. sret p)) (s\<lparr>s_db := tick (s_db s)\<rparr>) = (Inr p, s3)"
    and s': "s' = s3\<lparr>s_db := tick (s_db s3)\<rparr>" .
  from body obtain s2 where d: "d (s\<lparr>s_db := tick (s_db s)\<rparr>) = (Inr p, s2)" and put: "PutBufferedEvent now h p ts s2 = (Inr (), s3)"
    by (auto simp: sbind_eq_Inr)
  from keeps_bufferD [OF assms(2) d] have eq: "buffered s2 = buffered s" by simp
  with PutBufferedEvent_cases [OF put] assms(3) s' Inr show ?thesis by simp
qed

lemma bufferedDecrypt_new:
  assumes "buffered s h = None" and h: "h = ciphertext_hash c ct extra"
    and run: "bufferedDecrypt c True now ct ts d extra s = (r, s')" and "keeps_buffer d"
  shows "(\<exists>p. r = Inr (p, h) \<and> buffered s' = (buffered s)(h \<mapsto> (Some p, ts, now))) \<or> ((\<exists>e. r = Inl e) \<and> same_signal (s_db s') (s_db s))"
proof -
  obtain g s1 where g: "GetBufferedEvent h s = (g, s1)" by fastforce
  have s1: "s1 = s\<lparr>s_db := tick (s_db s)\<rparr>" by (rule GetBufferedEvent_cases(1) [OF g])
  consider "g = Inl DbFailed" | "g = Inr None" using GetBufferedEvent_cases(2) [OF g] assms(1) by auto
  then show ?thesis
  proof cases
    case 1
    with run g h s1 show ?thesis by (auto simp: bufferedDecrypt_def swrap_def sbind_def Let_def)
  next
    case 2
    obtain r1 s2 where txn: "DoDecryptionTxn TxnFailed
        (sbind d (\<lambda>p. sbind (swrap SaveFailed (PutBufferedEvent now h p ts)) (\<lambda>_. sret p))) s1 = (r1, s2)" by fastforce
    with run g h 2 have "s' = s2" "r = (case r1 of Inl e \<Rightarrow> Inl e | Inr p \<Rightarrow> Inr (p, h))"
      by (auto simp: bufferedDecrypt_def swrap_def sbind_def Let_def split: sum.splits)
    moreover have "buffered s1 = buffered s" "same_signal (s_db s1) (s_db s)" by (simp_all add: s1)
    ultimately show ?thesis
      using decrypt_and_save [OF txn assms(4)] assms(1) by (auto intro: same_signal_trans)
  qed
qed

lemma bufferedDecrypt_keeps:
  assumes "buffered s h = Some row" and run: "bufferedDecrypt c en now ct ts d extra s = (r, s')" and keep: "keeps_buffer d"
  shows "buffered s' h = Some row"
proof (cases en)
  case False
  with run obtain r1 where "d s = (r1, s')" by (auto simp: bufferedDecrypt_def sbind_def split: prod.splits sum.splits)
  from keeps_bufferD [OF keep this] assms(1) show ?thesis by simp
next
  case True
  with run have run': "bufferedDecrypt c True now ct ts d extra s = (r, s')" by simp
  show ?thesis
  proof (cases "buffered s (ciphertext_hash c ct extra)")
    case None
    then have "h \<noteq> ciphertext_hash c ct extra" using assms(1) by auto
    with bufferedDecrypt_new [OF None refl run' keep] assms(1) show ?thesis by (auto simp: same_signal_iff)
  next
    case (Some row')
    obtain pt t it where "row' = (pt, t, it)" by (cases row')
    with bufferedDecrypt_known [OF _ run'] Some assms(1) show ?thesis by simp
  qed
qed

lemma bufferedDecrypt_saves:
  assumes "bufferedDecrypt c True now ct ts d extra s = (Inr (p, h), s')" and "keeps_buffer d"
  shows "h = ciphertext_hash c ct extra \<and> (\<exists>t it. buffered s' h = Some (Some p, t, it))"
proof (cases "buffered s (ciphertext_hash c ct extra)")
  case None
  from bufferedDecrypt_new [OF None refl assms] show ?thesis by auto
next
  case (Some row)
  obtain pt t it where row: "row = (pt, t, it)" by (cases row)
  from bufferedDecrypt_known [OF Some [unfolded row] assms(1)] have "s' = s\<lparr>s_db := tick (s_db s)\<rparr>"
    "pt = Some p" "h = ciphertext_hash c ct extra" by (cases pt; simp)+
  with Some row show ?thesis by simp
qed

text \<open>What may happen between two attempts: other messages, clearing, pruning, other users of the store.\<close>

datatype buf_op =
    BDecrypt bool int bytes int "bytes msg_op" "string list"
  | BClear bytes | BDeleteOld int | BOther "unit store_op"

fun buf_step :: "crypto \<Rightarrow> buf_op \<Rightarrow> SQLStore \<Rightarrow> SQLStore" where
  "buf_step c (BDecrypt en now ct ts d extra) s = snd (bufferedDecrypt c en now ct ts d extra s)"
| "buf_step c (BClear h) s = snd (ClearBufferedEventPlaintext h s)"
| "buf_step c (BDeleteOld now) s = snd (DeleteOldBufferedHashes now s)"
| "buf_step c (BOther f) s = snd (f s)"

fun buf_allowed :: "int \<Rightarrow> buf_op \<Rightarrow> bool" where
  "buf_allowed it (BDecrypt en now ct ts d extra) = keeps_buffer d"
| "buf_allowed it (BClear h) = True"
| "buf_allowed it (BDeleteOld now) = (now \<le> it + bufferRetention)"
| "buf_allowed it (BOther f) = keeps_buffer f"

lemma map_of_filter_kept: "map_of xs k = Some v \<Longrightarrow> P (k, v) \<Longrightarrow> map_of (filter P xs) k = Some v"
  by (induction xs) (auto split: if_splits)

lemma map_of_cleared:
  "map_of (map (\<lambda>(h, plaintext, times). (h, if h = h' then None else plaintext, times)) xs) h =
     (if h = h' then map_option (\<lambda>(p, t). (None, t)) (map_of xs h) else map_of xs h)"
  by (induction xs) auto

lemma buffered_cleared:
  "buffered (snd (ClearBufferedEventPlaintext h' s)) h =
     (if h = h' \<and> \<not> db_fails (s_db s) (db_clock (s_db s)) then map_option (\<lambda>(p, t). (None, t)) (buffered s h) else buffered s h)"
  by (auto simp: ClearBufferedEventPlaintext_def on_db_def sql_exec_def map_of_cleared)

lemma buffered_pruned:
  assumes "buffered s h = Some (pt, t, it)" and "now \<le> it + bufferRetention"
  shows "buffered (snd (DeleteOldBufferedHashes now s)) h = Some (pt, t, it)"
  using assms by (auto simp: DeleteOldBufferedHashes_def on_db_def sql_exec_def intro: map_of_filter_kept)

lemma buf_step_keeps:
  assumes "buffered s h = Some (pt, t, it)" and "buf_allowed it op"
  shows "buffered (buf_step c op s) h = Some (pt, t, it) \<or> (op = BClear h \<and> buffered (buf_step c op s) h = Some (None, t, it))"
proof (cases op)
  case (BDecrypt en now ct ts d extra)
  with bufferedDecrypt_keeps [OF assms(1), of c en now ct ts d extra] assms(2) show ?thesis
    by (cases "bufferedDecrypt c en now ct ts d extra s") simp
next
  case (BClear h')
  with assms show ?thesis by (cases "h = h'") (auto simp: buffered_cleared)
next
  case (BDeleteOld now)
  with buffered_pruned assms show ?thesis by simp
next
  case (BOther f)
  with assms show ?thesis by (simp add: keeps_buffer_def)
qed

lemma buf_run_keeps:
  assumes "buffered s h = Some (pt, t, it)" and "list_all (buf_allowed it) ops"
  shows "buffered (fold (buf_step c) ops s) h = Some (pt, t, it) \<or>
    (BClear h \<in> set ops \<and> buffered (fold (buf_step c) ops s) h = Some (None, t, it))"
  using assms
proof (induction ops arbitrary: s pt)
  case (Cons op ops)
  then have allowed: "buf_allowed it op" "list_all (buf_allowed it) ops" by simp_all
  from buf_step_keeps [OF Cons.prems(1) allowed(1), of c] Cons.IH [OF _ allowed(2)] show ?case by fastforce
qed simp

text \<open>A cipher that stores a session, and a first attempt with it.\<close>

definition demo_cipher :: "bytes msg_op" where
  "demo_cipher = sbind (swrap SaveFailed (PutSession ''1:0'' [9])) (\<lambda>_. sret [1, 2, 1])"

lemma demo_cipher_keeps: "keeps_buffer demo_cipher"
  by (auto simp: keeps_buffer_def demo_cipher_def PutSession_def on_db_def sbind_def swrap_def sql_exec_def)

definition demo_attempt :: "int \<Rightarrow> SQLStore \<Rightarrow> (msg_error + bytes \<times> bytes) \<times> SQLStore" where
  "demo_attempt now = bufferedDecrypt plain_crypto True now [5] 0 demo_cipher [''normal'']"

definition demo_hash :: bytes where
  "demo_hash = ciphertext_hash plain_crypto [5] [''normal'']"

definition demo_once :: SQLStore where
  "demo_once = snd (demo_attempt 7 (NewSQLStore (empty_signal_db (\<lambda>n. n = 9))))"

lemma demo_once_run:
  "fst (demo_attempt 7 (NewSQLStore (empty_signal_db (\<lambda>n. n = 9)))) = Inr ([1, 2, 1], demo_hash)"
  "buffered demo_once demo_hash = Some (Some [1, 2, 1], 0, 7)"
  by code_simp+

text \<open>
  C30: Once a ciphertext was decrypted with the buffer on, every later attempt to decrypt it, after
  any other messages, clearings, prunings within the retention time, other operations and failing
  statements, leaves all tables as they are, the sessions and sender keys with them, and returns the
  same plaintext, or that the event was processed already, which needs a clearing of it in between,
  or that the buffer could not be read.
\<close>

theorem bufferedDecrypt_at_most_once:
  assumes "bufferedDecrypt c True now ct ts d extra s = (Inr (p, h), s1)" and "keeps_buffer d"
    and "buffered s1 h = Some (pt, t, it)" and "list_all (buf_allowed it) ops"
    and "fold (buf_step c) ops s1 = s2"
    and "bufferedDecrypt c True now' ct ts' d' extra s2 = (r, s3)"
  shows "same_signal (s_db s3) (s_db s2) \<and> identityCache s3 = identityCache s2 \<and>
    (r = Inr (p, h) \<or> (r = Inl (ErrEventAlreadyProcessed it) \<and> BClear h \<in> set ops) \<or> r = Inl (GetBufferedFailed DbFailed))"
proof -
  from bufferedDecrypt_saves [OF assms(1,2)] assms(3) have h: "h = ciphertext_hash c ct extra" and pt: "pt = Some p" by auto
  consider "buffered s2 h = Some (Some p, t, it)" | "BClear h \<in> set ops" "buffered s2 h = Some (None, t, it)"
    using buf_run_keeps [OF assms(3,4), of c] by (auto simp: assms(5) pt)
  then show ?thesis
  proof cases
    case 1
    from bufferedDecrypt_known [OF 1 [unfolded h] assms(6)] show ?thesis by (auto simp: h)
  next
    case 2
    from bufferedDecrypt_known [OF 2(2) [unfolded h] assms(6)] 2(1) show ?thesis by auto
  qed
qed

theorem bufferedDecrypt_at_most_once_witness:
  "let ops = [BClear demo_hash, BDeleteOld 8, BOther (DeleteSession ''2:0'')]; s2 = fold (buf_step plain_crypto) ops demo_once;
       (r, s3) = demo_attempt 9 s2
   in same_signal (s_db s3) (s_db s2) \<and> identityCache s3 = identityCache s2 \<and>
      (r = Inr ([1, 2, 1], demo_hash) \<or> (r = Inl (ErrEventAlreadyProcessed 7) \<and> BClear demo_hash \<in> set ops) \<or>
       r = Inl (GetBufferedFailed DbFailed))"
proof -
  let ?ops = "[BClear demo_hash, BDeleteOld 8, BOther (DeleteSession ''2:0'')]"
  let ?s = "NewSQLStore (empty_signal_db (\<lambda>n. n = 9))" and ?s2 = "fold (buf_step plain_crypto) ?ops demo_once"
  have first: "demo_attempt 7 ?s = (Inr ([1, 2, 1], demo_hash), demo_once)"
    by (rule prod_eqI) (simp_all add: demo_once_run demo_once_def)
  have "keeps_buffer (DeleteSession ''2:0'')"
    by (auto simp: keeps_buffer_def DeleteSession_def on_db_def sql_exec_def)
  then have allowed: "list_all (buf_allowed 7) ?ops" by simp
  obtain r s3 where second: "demo_attempt 9 ?s2 = (r, s3)" by fastforce
  from bufferedDecrypt_at_most_once [OF first [unfolded demo_attempt_def] demo_cipher_keeps demo_once_run(2) allowed refl
      second [unfolded demo_attempt_def]]
  show ?thesis unfolding Let_def second prod.case by blast
qed

end
