(* ===== verification/Retry.thy ===== *)
theory Retry
  imports EventBuffer SessionCache Cache
begin

text \<open>
  \<open>src/retry.go\<close>: the recently sent messages that a retry receipt can ask for, the counters that limit
  retry receipts in both directions, the decision to recreate a session, and the retry receipt
  itself. Messages are values of two type variables with their protobuf encoding as a parameter;
  times are nanoseconds. The lemmas show that the ring of recent messages is a queue of the 256
  newest ones, and how many retries are granted in an hour.
\<close>

section \<open>State\<close>

record ('w, 'f) retry_proto =
  marshal_wa :: "'w \<Rightarrow> bytes option"
  marshal_fb :: "'f \<Rightarrow> bytes option"
  unmarshal_wa :: "bytes \<Rightarrow> 'w option"
  unmarshal_fb :: "bytes \<Rightarrow> 'f option"

record ('w, 'f) RecentMessage =
  rm_wa :: "'w option"
  rm_fb :: "'f option"

type_synonym recentMessageKey = "JID \<times> string"
type_synonym cachedRecentMessage = "string \<times> bytes option"

record 'r retry_client =
  rt_dev :: "'r dev_state"
  UseRetryMessageStore :: bool
  lastRetryStoreClear :: "int option"
  recentMessagesMap :: "(recentMessageKey \<times> cachedRecentMessage) list"
  recentMessagesList :: "recentMessageKey list"
  recentMessagesPtr :: nat
  sessionRecreateHistory :: "(JID \<times> int) list"
  incomingRetryRequestCounter :: "((JID \<times> string) \<times> int) list"
  incomingRetryRequestCounterReset :: "int option"
  messageRetries :: "(string \<times> int) list"
  messageRetriesReset :: "int option"

datatype retry_error =
    MarshalFailed | AddOutgoingFailed db_error | ClearOutgoingFailed db_error | RetryUnmarshalFailed
  | UnknownFormat string | AltJIDFailed db_error | GetOutgoingFailed db_error

type_synonym ('r, 'a) retry_op = "('r retry_client, retry_error, 'a) sr"

definition on_retry_store :: "(db_error \<Rightarrow> retry_error) \<Rightarrow> 'a store_op \<Rightarrow> ('r, 'a) retry_op" where
  "on_retry_store wrap m cli =
     (let (r, s) = m (dv_store (rt_dev cli)) in
      (rwrap wrap r, cli\<lparr>rt_dev := (rt_dev cli)\<lparr>dv_store := s\<rparr>\<rparr>))"

abbreviation (input) "recentMessagesSize \<equiv> (256 :: nat)"
abbreviation (input) "maxSessionRecreateHistoryItems \<equiv> (1024 :: nat)"
abbreviation (input) "maxIncomingRetryEntries \<equiv> (1024 :: nat)"
abbreviation (input) "maxMessageRetryEntries \<equiv> (1024 :: nat)"
abbreviation (input) "recreateSessionTimeout \<equiv> (3600000000000 :: int)"

section \<open>Recent messages\<close>

definition IsEmpty :: "('w, 'f) RecentMessage \<Rightarrow> bool" where
  "IsEmpty rm \<longleftrightarrow> rm_wa rm = None \<and> rm_fb rm = None"

definition recent_payload :: "('w, 'f) retry_proto \<Rightarrow> 'w option \<Rightarrow> 'f option \<Rightarrow> retry_error + cachedRecentMessage" where
  "recent_payload P wa fb =
     (case wa of
        Some m \<Rightarrow> (case marshal_wa P m of None \<Rightarrow> Inl MarshalFailed | Some b \<Rightarrow> Inr (''wa'', Some b))
      | None \<Rightarrow>
          (case fb of
             Some m \<Rightarrow> (case marshal_fb P m of None \<Rightarrow> Inl MarshalFailed | Some b \<Rightarrow> Inr (''fb'', Some b))
           | None \<Rightarrow> Inr ([], None)))"

text \<open>The message is also kept in the table, when the client is set up for it.\<close>

definition keep_outgoing :: "int \<Rightarrow> JID \<Rightarrow> string \<Rightarrow> string \<Rightarrow> bytes \<Rightarrow> ('r, unit) retry_op" where
  "keep_outgoing now to msgid format payload =
     sbind (on_retry_store AddOutgoingFailed (AddOutgoingEvent (now div 1000000) (JID_String to) msgid format payload)) (\<lambda>_ cli.
       if (case lastRetryStoreClear cli of None \<Rightarrow> True | Some t \<Rightarrow> now - t > 12 * 3600 * 1000000000) then
         on_retry_store ClearOutgoingFailed (DeleteOldOutgoingEvents (now div 1000000)) cli
       else (Inr (), cli))"

definition ring_add :: "recentMessageKey \<Rightarrow> cachedRecentMessage \<Rightarrow> 'r retry_client \<Rightarrow> 'r retry_client" where
  "ring_add key msg cli =
     (if map_of (recentMessagesMap cli) key \<noteq> None then
        cli\<lparr>recentMessagesMap := aset key msg (recentMessagesMap cli)\<rparr>
      else
        (let cli =
               (if length (recentMessagesList cli) < recentMessagesSize then
                  cli\<lparr>recentMessagesList := recentMessagesList cli @ [key]\<rparr>
                else
                  cli\<lparr>recentMessagesMap := adel (recentMessagesList cli ! recentMessagesPtr cli) (recentMessagesMap cli),
                      recentMessagesList := (recentMessagesList cli)[recentMessagesPtr cli := key],
                      recentMessagesPtr := (recentMessagesPtr cli + 1) mod recentMessagesSize\<rparr>)
         in cli\<lparr>recentMessagesMap := aset key msg (recentMessagesMap cli)\<rparr>))"

definition addRecentMessage ::
  "('w, 'f) retry_proto \<Rightarrow> int \<Rightarrow> JID \<Rightarrow> string \<Rightarrow> 'w option \<Rightarrow> 'f option \<Rightarrow> ('r, unit) retry_op" where
  "addRecentMessage P now to msgid wa fb cli =
     (case recent_payload P wa fb of
        Inl e \<Rightarrow> (Inl e, cli)
      | Inr (format, payload) \<Rightarrow>
          sbind (case payload of
                   Some b \<Rightarrow> if UseRetryMessageStore cli then keep_outgoing now to msgid format b else sret ()
                 | None \<Rightarrow> sret ())
            (\<lambda>_ cli. (Inr (), ring_add (to, msgid) (format, payload) cli)) cli)"

definition parseRecentMessage :: "('w, 'f) retry_proto \<Rightarrow> string \<Rightarrow> bytes option \<Rightarrow> retry_error + ('w, 'f) RecentMessage" where
  "parseRecentMessage P format buf =
     (let b = (case buf of None \<Rightarrow> [] | Some b \<Rightarrow> b) in
      if format = ''wa'' then
        (case unmarshal_wa P b of None \<Rightarrow> Inl RetryUnmarshalFailed | Some m \<Rightarrow> Inr \<lparr>rm_wa = Some m, rm_fb = None\<rparr>)
      else if format = ''fb'' then
        (case unmarshal_fb P b of None \<Rightarrow> Inl RetryUnmarshalFailed | Some m \<Rightarrow> Inr \<lparr>rm_wa = None, rm_fb = Some m\<rparr>)
      else Inl (UnknownFormat format))"

definition getRecentMessage :: "('w, 'f) retry_proto \<Rightarrow> JID \<Rightarrow> string \<Rightarrow> 'r retry_client \<Rightarrow> ('w, 'f) RecentMessage" where
  "getRecentMessage P to msgid cli =
     (case map_of (recentMessagesMap cli) (to, msgid) of
        None \<Rightarrow> \<lparr>rm_wa = None, rm_fb = None\<rparr>
      | Some (format, payload) \<Rightarrow>
          (case parseRecentMessage P format payload of Inl e \<Rightarrow> \<lparr>rm_wa = None, rm_fb = None\<rparr> | Inr message \<Rightarrow> message))"

text \<open>
  The lookup of the alternate address (\<open>altOf\<close>: by number or by hidden identifier, empty when there is
  none) and the callback for messages the application kept are arguments.
\<close>

definition getMessageForRetry ::
  "('w, 'f) retry_proto \<Rightarrow> (JID \<Rightarrow> db_error + JID) \<Rightarrow> 'w option \<Rightarrow> JID \<Rightarrow> string \<Rightarrow> ('r, ('w, 'f) RecentMessage option) retry_op" where
  "getMessageForRetry P altOf fromCallback chat messageID cli =
     (let msg = getRecentMessage P chat messageID cli in
      if \<not> IsEmpty msg then (Inr (Some msg), cli)
      else
        (case (if Server chat = DefaultUserServer \<or> Server chat = HiddenUserServer then altOf chat else Inr EmptyJID) of
           Inl e \<Rightarrow> (Inl (AltJIDFailed e), cli)
         | Inr altChat \<Rightarrow>
             (let msg = getRecentMessage P altChat messageID cli in
              if Server altChat \<noteq> [] \<and> \<not> IsEmpty msg then (Inr (Some msg), cli)
              else if UseRetryMessageStore cli then
                sbind (on_retry_store GetOutgoingFailed
                    (GetOutgoingEvent (JID_String chat) (JID_String altChat) messageID)) (\<lambda>(format, buf).
                  sbind (slift (parseRecentMessage P format (Some buf))) (\<lambda>m. sret (Some m))) cli
              else (Inr (map_option (\<lambda>m. \<lparr>rm_wa = Some m, rm_fb = None\<rparr>) fromCallback), cli))))"

section \<open>Sessions to recreate\<close>

definition shouldRecreateSession ::
  "(JID, int) pick \<Rightarrow> int \<Rightarrow> int \<Rightarrow> JID \<Rightarrow> string \<Rightarrow> 'r retry_client \<Rightarrow> (string \<times> bool) \<times> 'r retry_client" where
  "shouldRecreateSession pick now retryCount jid addr cli =
     (let cli = (if maxSessionRecreateHistoryItems \<le> length (sessionRecreateHistory cli)
                 then cli\<lparr>sessionRecreateHistory := pruneExpiredCache (sessionRecreateHistory cli) (now - recreateSessionTimeout)\<rparr>
                 else cli);
          (contains, dev) = ContainsSession addr (rt_dev cli);
          cli = cli\<lparr>rt_dev := dev\<rparr>;
          recreated = cli\<lparr>sessionRecreateHistory :=
            putBoundedCache pick maxSessionRecreateHistoryItems jid now (sessionRecreateHistory cli)\<rparr>
      in case contains of
           Inl e \<Rightarrow> (([], False), cli)
         | Inr False \<Rightarrow> ((''we don't have a Signal session with them'', True), recreated)
         | Inr True \<Rightarrow>
             if retryCount < 2 then (([], False), cli)
             else if (case map_of (sessionRecreateHistory cli) jid of
                        None \<Rightarrow> True | Some prevTime \<Rightarrow> prevTime + recreateSessionTimeout < now)
             then ((''retry count > 1 and over an hour since last recreation'', True), recreated)
             else (([], False), cli))"

section \<open>Counting retries\<close>

definition acceptIncomingRetry :: "JID \<Rightarrow> string \<Rightarrow> int \<Rightarrow> 'r retry_client \<Rightarrow> bool \<times> 'r retry_client" where
  "acceptIncomingRetry sender messageID now cli =
     (let ((internalCounter, accepted), cache, resetAt) =
            incrementBoundedCounter (incomingRetryRequestCounter cli) (sender, messageID) maxIncomingRetryEntries
              (incomingRetryRequestCounterReset cli) now;
          cli = cli\<lparr>incomingRetryRequestCounter := cache, incomingRetryRequestCounterReset := resetAt\<rparr>
      in if \<not> accepted then (False, cli) else if internalCounter \<ge> 10 then (False, cli) else (True, cli))"

text \<open>The section of \<open>sendRetryReceipt\<close> under \<open>messageRetriesLock\<close>; \<open>None\<close> when there is no room for a counter.\<close>

definition next_retry_count :: "string \<Rightarrow> int \<Rightarrow> int \<Rightarrow> 'r retry_client \<Rightarrow> int option \<times> 'r retry_client" where
  "next_retry_count msgid retryCountInMsg now cli =
     (let ((retryCount, accepted), cache, resetAt) =
            incrementBoundedCounter (messageRetries cli) msgid maxMessageRetryEntries (messageRetriesReset cli) now;
          cli = cli\<lparr>messageRetries := cache, messageRetriesReset := resetAt\<rparr>
      in if \<not> accepted then (None, cli)
         else if retryCount = 1 \<and> retryCountInMsg > 0 then
           (let retryCount = wrap_int (retryCountInMsg + 1) in
            (Some retryCount, cli\<lparr>messageRetries := aset msgid retryCount (messageRetries cli)\<rparr>))
         else (Some retryCount, cli))"

section \<open>The retry receipt\<close>

definition buildBaseReceipt :: "string \<Rightarrow> node \<Rightarrow> attrs" where
  "buildBaseReceipt msgid node =
     (let attr = \<lambda>k. map_of (Attrs node) k;
          attrs = [(''id'', VStr msgid), (''to'', case attr ''from'' of None \<Rightarrow> VNil | Some v \<Rightarrow> v)];
          attrs = (case attr ''recipient'' of None \<Rightarrow> attrs | Some v \<Rightarrow> aset ''recipient'' v attrs)
      in case attr ''participant'' of None \<Rightarrow> attrs | Some v \<Rightarrow> aset ''participant'' v attrs)"

record msg_info =
  mi_ID :: string
  mi_Type :: string
  mi_IsFromMe :: bool

text \<open>What the receipt makes the client do: ask the phone for the message, at once or after a delay, and send an element.\<close>

datatype retry_effect = RequestFromPhone bool | SendNode node

text \<open>The keys that go with a receipt: \<open>None\<close> when the account cannot be marshalled, where nothing is sent.\<close>

definition retry_keys ::
  "crypto \<Rightarrow> (32 word \<Rightarrow> bytes) \<Rightarrow> upload_device \<Rightarrow> bytes option \<Rightarrow> 'r retry_client \<Rightarrow> node list option \<times> 'r retry_client" where
  "retry_keys c rnd dev account cli =
     (case on_retry_store GetOutgoingFailed (GenOnePreKey c rnd) cli of
        (Inl e, cli) \<Rightarrow> (Some [], cli)
      | (Inr key, cli) \<Rightarrow>
          (case account of
             None \<Rightarrow> (None, cli)
           | Some deviceIdentity \<Rightarrow>
               (Some [Node ''keys'' [] (VNodes
                  [Node ''type'' [] (VBytes [DjbType]), Node ''identity'' [] (VBytes (ud_IdentityPub dev)),
                   preKeyToNode key, preKeyToNode (ud_SignedPreKey dev),
                   Node ''device-identity'' [] (VBytes deviceIdentity)])], cli)))"

definition count_in_msg :: "node \<Rightarrow> int" where
  "count_in_msg node =
     (case GetChildren node of
        [child] \<Rightarrow> if Tag child = ''enc'' then fst (OptionalInt ''count'' (AttrGetter child)) else 0
      | _ \<Rightarrow> 0)"

definition node_id :: "node \<Rightarrow> string" where
  "node_id node = (case map_of (Attrs node) ''id'' of Some (VStr s) \<Rightarrow> s | _ \<Rightarrow> [])"

definition retry_payload :: "upload_device \<Rightarrow> node \<Rightarrow> msg_info \<Rightarrow> int \<Rightarrow> node list \<Rightarrow> node" where
  "retry_payload dev node info retryCount keys =
     (let attrs = aset ''type'' (VStr ''retry'') (buildBaseReceipt (mi_ID info) node);
          attrs = (if mi_Type info = ''peer_msg'' \<and> mi_IsFromMe info then aset ''category'' (VStr ''peer'') attrs else attrs)
      in Node ''receipt'' attrs (VNodes
           ([Node ''retry'' [(''count'', VInt KInt retryCount), (''id'', VStr (node_id node)),
               (''t'', case map_of (Attrs node) ''t'' of None \<Rightarrow> VNil | Some v \<Rightarrow> v), (''v'', VInt KInt 1)] VNil,
             Node ''registration'' [] (VBytes (PutUint32 (ud_RegistrationID dev)))] @ keys)))"

definition sendRetryReceipt ::
  "crypto \<Rightarrow> (32 word \<Rightarrow> bytes) \<Rightarrow> upload_device \<Rightarrow> bytes option \<Rightarrow> bool \<Rightarrow> int \<Rightarrow> node \<Rightarrow> msg_info \<Rightarrow> bool \<Rightarrow>
   'r retry_client \<Rightarrow> retry_effect list \<times> 'r retry_client" where
  "sendRetryReceipt c rnd dev account synchronousAck now node info forceIncludeIdentity cli =
     (case next_retry_count (node_id node) (count_in_msg node) now cli of
        (None, cli) \<Rightarrow> ([], cli)
      | (Some retryCount, cli) \<Rightarrow>
          if retryCount \<ge> 5 then ([], cli)
          else
            (let requests = (if retryCount = 1 then [RequestFromPhone (\<not> synchronousAck)] else []);
                 (keys, cli) =
                   (if retryCount > 1 \<or> forceIncludeIdentity then retry_keys c rnd dev account cli else (Some [], cli))
             in case keys of
                  None \<Rightarrow> (requests, cli)
                | Some ks \<Rightarrow> (requests @ [SendNode (retry_payload dev node info retryCount ks)], cli)))"

section \<open>How many retries a counter grants\<close>

text \<open>
  Both counters, without the rest of the client: a call with its key, the count found in the message
  (zero where there is none) and the time. \<open>granted\<close> counts the calls for one key whose count stays
  below a limit.
\<close>

type_synonym 'k counter = "('k \<times> int) list \<times> int option"
type_synonym 'k counter_call = "'k \<times> int \<times> int"

fun counted :: "nat \<Rightarrow> 'k counter_call \<Rightarrow> 'k counter \<Rightarrow> int option \<times> 'k counter" where
  "counted limit (key, inMsg, now) (cache, resetAt) =
     (let ((count, accepted), cache, resetAt) = incrementBoundedCounter cache key limit resetAt now
      in if \<not> accepted then (None, cache, resetAt)
         else if count = 1 \<and> inMsg > 0 then (Some (wrap_int (inMsg + 1)), aset key (wrap_int (inMsg + 1)) cache, resetAt)
         else (Some count, cache, resetAt))"

fun granted :: "nat \<Rightarrow> int \<Rightarrow> 'k \<Rightarrow> 'k counter_call list \<Rightarrow> 'k counter \<Rightarrow> nat" where
  "granted limit below k [] st = 0"
| "granted limit below k (call # calls) st =
     (let (r, st) = counted limit call st
      in (if fst call = k \<and> (\<exists>c. r = Some c \<and> c < below) then 1 else 0) + granted limit below k calls st)"

definition counter_value :: "('k \<times> int) list \<Rightarrow> 'k \<Rightarrow> int" where
  "counter_value cache k = (case map_of cache k of None \<Rightarrow> 0 | Some c \<Rightarrow> c)"

text \<open>Counts are positive and far from wrapping around, as long as the messages' counts and the calls are.\<close>

definition counter_ok :: "int \<Rightarrow> ('k \<times> int) list \<Rightarrow> bool" where
  "counter_ok n cache \<longleftrightarrow> (\<forall>k c. map_of cache k = Some c \<longrightarrow> 0 < c \<and> c \<le> 2 ^ 62 + n)"

lemma counter_okD: "counter_ok n cache \<Longrightarrow> 0 \<le> n \<Longrightarrow> 0 \<le> counter_value cache k \<and> counter_value cache k \<le> 2 ^ 62 + n"
  by (auto simp: counter_ok_def counter_value_def split: option.split intro: less_imp_le)

lemma counter_ok_aset: "counter_ok n cache \<Longrightarrow> 0 < c \<Longrightarrow> c \<le> 2 ^ 62 + n + 1 \<Longrightarrow> counter_ok (n + 1) (aset k c cache)"
  by (fastforce simp: counter_ok_def)

lemma counter_ok_mono: "counter_ok n cache \<Longrightarrow> n \<le> m \<Longrightarrow> counter_ok m cache"
  by (fastforce simp: counter_ok_def)

lemma counter_value_aset: "counter_value (aset k c cache) k' = (if k' = k then c else counter_value cache k')"
  by (simp add: counter_value_def)

text \<open>A call in an open window: it is refused, or raises the count of its key.\<close>

lemma counted_open:
  assumes "\<not> window_over resetAt now" and "counter_ok n cache" and "0 \<le> n" and "n < 2 ^ 61" and "inMsg < 2 ^ 62"
    and "counted limit (key, inMsg, now) (cache, resetAt) = (r, cache', resetAt')"
  shows "resetAt' = resetAt \<and> counter_ok (n + 1) cache' \<and>
    (r = None \<and> cache' = cache \<or>
     (\<exists>c. r = Some c \<and> counter_value cache key < c \<and>
        counter_value cache' = (counter_value cache)(key := c)))"
proof -
  have v: "0 \<le> counter_value cache key" "counter_value cache key \<le> 2 ^ 62 + n" using counter_okD [OF assms(2,3)] by auto
  then have inc: "wrap_int (counter_value cache key + 1) = counter_value cache key + 1" using assms(4) by (intro wrap_int_id) auto
  have msg: "inMsg > 0 \<Longrightarrow> wrap_int (inMsg + 1) = inMsg + 1" using assms(5) by (intro wrap_int_id) auto
  have ibc: "incrementBoundedCounter cache key limit resetAt now =
      (if map_of cache key = None \<and> limit \<le> length cache then ((0, False), cache, resetAt)
       else ((counter_value cache key + 1, True), aset key (counter_value cache key + 1) cache, resetAt))"
    using assms(1) inc by (simp add: incrementBoundedCounter_def counter_value_def Let_def)
  have ok: "counter_ok (n + 1) cache" by (rule counter_ok_mono [OF assms(2)]) simp
  have ok1: "counter_ok (n + 1) (aset key (counter_value cache key + 1) cache)"
    using v by (intro counter_ok_aset [OF assms(2)]) auto
  have ok2: "inMsg > 0 \<Longrightarrow> counter_ok (n + 1) (aset key (inMsg + 1) (aset key (counter_value cache key + 1) cache))"
    using v assms(2,3,5) by (fastforce simp: counter_ok_def)
  show ?thesis
  proof (cases "map_of cache key = None \<and> limit \<le> length cache")
    case True
    with assms(6) ok show ?thesis by (simp add: ibc)
  next
    case False
    show ?thesis
    proof (cases "counter_value cache key = 0 \<and> inMsg > 0")
      case True
      with assms(6) False ok2 msg show ?thesis by (auto simp: ibc counter_value_aset fun_eq_iff)
    next
      case nomsg: False
      with assms(6) False ok1 v show ?thesis by (auto simp: ibc counter_value_aset fun_eq_iff)
    qed
  qed
qed

lemma counted_reset:
  assumes "window_over resetAt now"
  shows "counted limit (key, inMsg, now) (cache, resetAt) = counted limit (key, inMsg, now) ([], Some now)"
  using assms by (simp add: incrementBoundedCounter_def window_over_def)

definition calm :: "'k counter_call list \<Rightarrow> bool" where
  "calm calls \<longleftrightarrow> (\<forall>(key, inMsg, now) \<in> set calls. inMsg < 2 ^ 62)"

lemma calm_simps [simp]: "calm []" "calm ((key, inMsg, now) # calls) \<longleftrightarrow> inMsg < 2 ^ 62 \<and> calm calls"
  by (auto simp: calm_def)

text \<open>Granted calls of an open window: what is left below the limit.\<close>

lemma granted_open:
  assumes "\<forall>(key, inMsg, now) \<in> set calls. \<not> window_over resetAt now" and "calm calls"
    and "counter_ok n cache" and "0 \<le> n" and "n + int (length calls) < 2 ^ 61"
  shows "int (granted limit below k calls (cache, resetAt)) \<le> max 0 (below - 1 - counter_value cache k)"
  using assms
proof (induction calls arbitrary: cache n)
  case (Cons call calls)
  obtain key inMsg now where call: "call = (key, inMsg, now)" by (cases call)
  obtain r cache' resetAt' where run: "counted limit call (cache, resetAt) = (r, cache', resetAt')" by (cases "counted limit call (cache, resetAt)") auto
  from Cons.prems call have hyps: "\<not> window_over resetAt now" "counter_ok n cache" "0 \<le> n" "n < 2 ^ 61" "inMsg < 2 ^ 62" by auto
  note step = counted_open [OF hyps run [unfolded call]]
  have "int (granted limit below k calls (cache', resetAt)) \<le> max 0 (below - 1 - counter_value cache' k)"
    using Cons.prems call step by (intro Cons.IH [of "n + 1"]) auto
  with step run call show ?case by (auto simp del: counted.simps split: if_splits)
qed simp

text \<open>
  Calls whose times lie within one window of each other see at most one new window, so they are
  granted at most twice what one window grants.
\<close>

lemma granted_span:
  assumes "\<forall>(key, inMsg, now) \<in> set calls. a \<le> now \<and> now < a + retryCounterWindow" and "calm calls"
    and "counter_ok n cache" and "0 \<le> n" and "n + int (length calls) < 2 ^ 61" and "0 < below"
  shows "int (granted limit below k calls (cache, resetAt)) \<le> max 0 (below - 1 - counter_value cache k) + (below - 1)"
  using assms(1-5)
proof (induction calls arbitrary: cache n)
  case (Cons call calls)
  obtain key inMsg now where call: "call = (key, inMsg, now)" by (cases call)
  show ?case
  proof (cases "window_over resetAt now")
    case True
    have "granted limit below k (call # calls) (cache, resetAt) = granted limit below k (call # calls) ([], Some now)"
      unfolding granted.simps call counted_reset [OF True, of limit key inMsg cache] ..
    also have "int \<dots> \<le> max 0 (below - 1 - counter_value [] k)"
      using Cons.prems call
      by (intro granted_open [where n = 0]) (auto simp: counter_ok_def window_over_def)
    finally show ?thesis using assms(6) by (simp add: counter_value_def)
  next
    case False
    obtain r cache' resetAt' where run: "counted limit call (cache, resetAt) = (r, cache', resetAt')" by (cases "counted limit call (cache, resetAt)") auto
    from Cons.prems call False have hyps: "\<not> window_over resetAt now" "counter_ok n cache" "0 \<le> n" "n < 2 ^ 61" "inMsg < 2 ^ 62" by auto
    note step = counted_open [OF hyps run [unfolded call]]
    have "int (granted limit below k calls (cache', resetAt)) \<le> max 0 (below - 1 - counter_value cache' k) + (below - 1)"
      using Cons.prems call step by (intro Cons.IH [of "n + 1"]) auto
    with step run call show ?thesis by (auto simp del: counted.simps split: if_splits)
  qed
qed (use assms(6) in simp)

lemma counted_ok:
  assumes "counter_ok n cache" and "0 \<le> n" and "n < 2 ^ 61" and "inMsg < 2 ^ 62"
    and run: "counted limit (key, inMsg, now) (cache, resetAt) = (r, cache', resetAt')"
  shows "counter_ok (n + 1) cache'"
proof (cases "window_over resetAt now")
  case True
  have "\<not> window_over (Some now) now" by (simp add: window_over_def)
  moreover have "counter_ok n []" by (simp add: counter_ok_def)
  ultimately show ?thesis
    using counted_open [OF _ _ assms(2-4) run [unfolded counted_reset [OF True]]] by blast
next
  case False
  from counted_open [OF False assms] show ?thesis by blast
qed

definition counter_after :: "nat \<Rightarrow> 'k counter_call list \<Rightarrow> 'k counter \<Rightarrow> 'k counter" where
  "counter_after limit calls = fold (\<lambda>call st. snd (counted limit call st)) calls"

lemma counter_after_simps [simp]:
  "counter_after limit [] st = st"
  "counter_after limit (call # calls) st = counter_after limit calls (snd (counted limit call st))"
  by (simp_all add: counter_after_def)

lemma counted_length:
  assumes "length cache \<le> limit" and "counted limit call (cache, resetAt) = (r, cache', resetAt')"
  shows "length cache' \<le> limit"
proof -
  obtain key inMsg now where call: "call = (key, inMsg, now)" by (cases call)
  obtain count accepted cache1 resetAt1 where
    1: "incrementBoundedCounter cache key limit resetAt now = ((count, accepted), cache1, resetAt1)" by (metis surj_pair)
  have "length cache1 \<le> limit" by (rule incrementBoundedCounter_bound [OF assms(1) 1])
  moreover have "accepted \<Longrightarrow> map_of cache1 key \<noteq> None"
    using 1 by (auto simp: incrementBoundedCounter_def Let_def split: if_splits)
  ultimately show ?thesis using assms(2) by (auto simp: call 1 length_aset_present split: if_splits)
qed

lemma counter_after_ok:
  assumes "counter_ok n (fst st)" and "0 \<le> n" and "calm calls" and "n + int (length calls) < 2 ^ 61" and "length (fst st) \<le> limit"
  shows "counter_ok (n + int (length calls)) (fst (counter_after limit calls st)) \<and> length (fst (counter_after limit calls st)) \<le> limit"
  using assms
proof (induction calls arbitrary: st n)
  case (Cons call calls)
  obtain key inMsg now where call: "call = (key, inMsg, now)" by (cases call)
  obtain cache resetAt where st: "st = (cache, resetAt)" by (cases st)
  obtain r cache' resetAt' where run: "counted limit call (cache, resetAt) = (r, cache', resetAt')" by (cases "counted limit call (cache, resetAt)") auto
  from Cons.prems have prems: "counter_ok n cache" "0 \<le> n" "n < 2 ^ 61" "inMsg < 2 ^ 62" "calm calls"
    "n + 1 + int (length calls) < 2 ^ 61" "length cache \<le> limit" "0 \<le> n + 1"
    unfolding st call by simp_all
  have ok: "counter_ok (n + 1) (fst (cache', resetAt'))" unfolding fst_conv by (rule counted_ok [OF prems(1-4) run [unfolded call]])
  have len: "length (fst (cache', resetAt')) \<le> limit" unfolding fst_conv by (rule counted_length [OF prems(7) run])
  have "counter_after limit (call # calls) st = counter_after limit calls (cache', resetAt')"
    unfolding counter_after_simps st run snd_conv ..
  with Cons.IH [OF ok prems(8,5,6) len] show ?case by (simp add: add.assoc)
qed simp

text \<open>From empty counters, after any calls: the bound for the calls of one hour.\<close>

lemma granted_in_an_hour:
  assumes "calm (pre @ mid)" and "int (length (pre @ mid)) < 2 ^ 61" and "0 < below"
    and "\<forall>(key, inMsg, now) \<in> set mid. a \<le> now \<and> now < a + retryCounterWindow"
  shows "int (granted limit below k mid (counter_after limit pre ([], resetAt))) \<le> 2 * (below - 1)"
    and "length (fst (counter_after limit (pre @ mid) ([], resetAt))) \<le> limit"
proof -
  have calm: "calm pre" "calm mid" using assms(1) by (auto simp: calm_def)
  have ok: "counter_ok (int (length pre)) (fst (counter_after limit pre ([], resetAt)))"
    using counter_after_ok [of 0 "([], resetAt)" pre limit] calm assms(2) by (simp add: counter_ok_def)
  obtain cache r where st: "counter_after limit pre ([], resetAt) = (cache, r)" by fastforce
  have "int (granted limit below k mid (cache, r)) \<le> max 0 (below - 1 - counter_value cache k) + (below - 1)"
    using ok assms(2-4) calm st by (intro granted_span [where n = "int (length pre)"]) auto
  with counter_okD [OF ok, of k] st assms(3) show "int (granted limit below k mid (counter_after limit pre ([], resetAt))) \<le> 2 * (below - 1)"
    by auto
  show "length (fst (counter_after limit (pre @ mid) ([], resetAt))) \<le> limit"
    using counter_after_ok [of 0 "([], resetAt)" "pre @ mid" limit] assms(1,2) by (simp add: counter_ok_def)
qed

section \<open>Retry requests that are answered\<close>

fun accept_run :: "(JID \<times> string \<times> int) list \<Rightarrow> 'r retry_client \<Rightarrow> bool list \<times> 'r retry_client" where
  "accept_run [] cli = ([], cli)"
| "accept_run ((sender, messageID, now) # calls) cli =
     (let (ok, cli) = acceptIncomingRetry sender messageID now cli; (oks, cli) = accept_run calls cli in (ok # oks, cli))"

definition accepted_for :: "JID \<times> string \<Rightarrow> (JID \<times> string \<times> int) list \<Rightarrow> bool list \<Rightarrow> nat" where
  "accepted_for k calls oks = length (filter (\<lambda>((sender, messageID, now), ok). (sender, messageID) = k \<and> ok) (zip calls oks))"

abbreviation accept_call :: "JID \<times> string \<times> int \<Rightarrow> (JID \<times> string) counter_call" where
  "accept_call \<equiv> \<lambda>(sender, messageID, now). ((sender, messageID), 0, now)"

abbreviation incoming :: "'r retry_client \<Rightarrow> (JID \<times> string) counter" where
  "incoming cli \<equiv> (incomingRetryRequestCounter cli, incomingRetryRequestCounterReset cli)"

lemma acceptIncomingRetry_counted:
  assumes "counted maxIncomingRetryEntries ((sender, messageID), 0, now) (incoming cli) = (r, st)"
    and "acceptIncomingRetry sender messageID now cli = (ok, cli')"
  shows "ok = (\<exists>c. r = Some c \<and> c < 10) \<and> incoming cli' = st"
  using assms by (auto simp: acceptIncomingRetry_def Let_def split: if_splits prod.splits)

lemma accept_run_granted:
  assumes "accept_run calls cli = (oks, cli')"
  shows "accepted_for k calls oks = granted maxIncomingRetryEntries 10 k (map accept_call calls) (incoming cli) \<and>
    incoming cli' = counter_after maxIncomingRetryEntries (map accept_call calls) (incoming cli)"
  using assms
proof (induction calls arbitrary: cli oks)
  case (Cons call calls)
  obtain sender messageID now where call: "call = (sender, messageID, now)" by (cases call)
  obtain ok cli1 where 1: "acceptIncomingRetry sender messageID now cli = (ok, cli1)" by fastforce
  from Cons.prems obtain oks1 where 2: "accept_run calls cli1 = (oks1, cli')" and oks: "oks = ok # oks1"
    by (auto simp: call 1 split: prod.splits)
  obtain r st where 3: "counted maxIncomingRetryEntries ((sender, messageID), 0, now) (incoming cli) = (r, st)" by (meson surj_pair)
  from acceptIncomingRetry_counted [OF 3 1] Cons.IH [OF 2] show ?case
    by (simp add: call 3 oks accepted_for_def del: counted.simps)
qed (simp add: accepted_for_def)

text \<open>
  C32: However many retry requests arrive, in any order and from any devices, at most eighteen
  requests of one device for one message are answered among those that come within an hour of each
  other (nine per counting window), and the client never counts more than 1024 pairs of device
  and message at a time.
\<close>

theorem acceptIncomingRetry_bounds:
  assumes "incomingRetryRequestCounter cli = []" and "accept_run pre cli = (oks0, cli1)" and "accept_run mid cli1 = (oks, cli2)"
    and "\<forall>(sender, messageID, now) \<in> set mid. a \<le> now \<and> now < a + retryCounterWindow"
    and "int (length (pre @ mid)) < 2 ^ 61"
  shows "accepted_for k mid oks \<le> 18 \<and> length (incomingRetryRequestCounter cli2) \<le> maxIncomingRetryEntries"
proof -
  let ?n = "maxIncomingRetryEntries" and ?st = "([], incomingRetryRequestCounterReset cli)"
  have calm: "calm (map accept_call pre @ map accept_call mid)" by (auto simp: calm_def)
  have span: "\<forall>(key, inMsg, now) \<in> set (map accept_call mid). a \<le> now \<and> now < a + retryCounterWindow"
    using assms(4) by fastforce
  have len: "int (length (map accept_call pre @ map accept_call mid)) < 2 ^ 61" using assms(5) by simp
  note hour = granted_in_an_hour(1) [OF calm len _ span, of 10 ?n k "incomingRetryRequestCounterReset cli"]
    granted_in_an_hour(2) [OF calm len _ span, of 10 ?n "incomingRetryRequestCounterReset cli"]
  from accept_run_granted [OF assms(2)] have st: "incoming cli1 = counter_after ?n (map accept_call pre) ?st"
    by (simp add: assms(1))
  from accept_run_granted [OF assms(3), of k] hour(1) have "int (accepted_for k mid oks) \<le> 18" unfolding st by simp
  moreover from accept_run_granted [OF assms(3)] have "incoming cli2 = counter_after ?n (map accept_call pre @ map accept_call mid) ?st"
    unfolding st by (simp add: counter_after_def)
  then have "length (incomingRetryRequestCounter cli2) \<le> ?n" using hour(2) by (metis fst_conv zero_less_numeral)
  ultimately show ?thesis by simp
qed

definition demo_retry_client :: "byte retry_client" where
  "demo_retry_client =
     \<lparr>rt_dev = demo_device_state, UseRetryMessageStore = False, lastRetryStoreClear = None, recentMessagesMap = [],
      recentMessagesList = [], recentMessagesPtr = 0, sessionRecreateHistory = [], incomingRetryRequestCounter = [],
      incomingRetryRequestCounterReset = None, messageRetries = [], messageRetriesReset = None\<rparr>"

abbreviation (input) demo_requests :: "(JID \<times> string \<times> int) list" where
  "demo_requests \<equiv> replicate 12 (EmptyJID, ''m'', 5)"

theorem acceptIncomingRetry_bounds_witness:
  "accepted_for (EmptyJID, ''m'') demo_requests (fst (accept_run demo_requests demo_retry_client)) = 9 \<and>
   accepted_for (EmptyJID, ''m'') demo_requests (fst (accept_run demo_requests demo_retry_client)) \<le> 18 \<and>
   length (incomingRetryRequestCounter (snd (accept_run demo_requests demo_retry_client))) \<le> 1024"
proof -
  have "accepted_for (EmptyJID, ''m'') demo_requests (fst (accept_run demo_requests demo_retry_client)) = 9" by code_simp
  moreover have "incomingRetryRequestCounter demo_retry_client = []" by (simp add: demo_retry_client_def)
  ultimately show ?thesis
    using acceptIncomingRetry_bounds [of demo_retry_client "[]" "[]" demo_retry_client demo_requests
        "fst (accept_run demo_requests demo_retry_client)" "snd (accept_run demo_requests demo_retry_client)" 5 "(EmptyJID, ''m'')"]
    by simp
qed

section \<open>Retry receipts that are sent\<close>

record retry_env =
  re_crypto :: crypto
  re_random :: "32 word \<Rightarrow> bytes"
  re_device :: upload_device
  re_account :: "bytes option"
  re_sync :: bool

type_synonym retry_call = "node \<times> msg_info \<times> bool \<times> int"

fun send_run :: "retry_env \<Rightarrow> retry_call list \<Rightarrow> 'r retry_client \<Rightarrow> retry_effect list list \<times> 'r retry_client" where
  "send_run E [] cli = ([], cli)"
| "send_run E ((node, info, force, now) # calls) cli =
     (let (effs, cli) = sendRetryReceipt (re_crypto E) (re_random E) (re_device E) (re_account E) (re_sync E) now node info force cli;
          (rest, cli) = send_run E calls cli
      in (effs # rest, cli))"

definition is_send :: "retry_effect \<Rightarrow> bool" where
  "is_send e = (case e of SendNode _ \<Rightarrow> True | RequestFromPhone _ \<Rightarrow> False)"

definition receipts_for :: "string \<Rightarrow> retry_call list \<Rightarrow> retry_effect list list \<Rightarrow> nat" where
  "receipts_for msgid calls effs =
     (\<Sum>(call, es) \<leftarrow> zip calls effs. if node_id (fst call) = msgid then length (filter is_send es) else 0)"

abbreviation send_call :: "retry_call \<Rightarrow> string counter_call" where
  "send_call \<equiv> \<lambda>(node, info, force, now). (node_id node, count_in_msg node, now)"

abbreviation outgoing :: "'r retry_client \<Rightarrow> string counter" where
  "outgoing cli \<equiv> (messageRetries cli, messageRetriesReset cli)"

lemma on_retry_store_keeps:
  "on_retry_store wrap m cli = (r, cli') \<Longrightarrow> \<exists>dev. cli' = cli\<lparr>rt_dev := dev\<rparr>"
  by (auto simp: on_retry_store_def split: prod.splits)

lemma retry_keys_keeps: "retry_keys c rnd dev account cli = (ks, cli') \<Longrightarrow> \<exists>d. cli' = cli\<lparr>rt_dev := d\<rparr>"
  by (auto simp: retry_keys_def split: prod.splits sum.splits option.splits dest: on_retry_store_keeps)

lemma next_retry_count_counted:
  assumes "counted maxMessageRetryEntries (msgid, inMsg, now) (outgoing cli) = (r, st)"
    and "next_retry_count msgid inMsg now cli = (r', cli')"
  shows "r' = r \<and> outgoing cli' = st"
  using assms by (auto simp: next_retry_count_def Let_def split: if_splits prod.splits)

lemma sendRetryReceipt_counted:
  assumes "counted maxMessageRetryEntries (node_id node, count_in_msg node, now) (outgoing cli) = (r, st)"
    and "sendRetryReceipt c rnd dev account sync now node info force cli = (effs, cli')"
  shows "outgoing cli' = st \<and> length (filter is_send effs) \<le> (if \<exists>n. r = Some n \<and> n < 5 then 1 else 0) \<and>
    (account \<noteq> None \<longrightarrow> length (filter is_send effs) = (if \<exists>n. r = Some n \<and> n < 5 then 1 else 0))"
proof -
  obtain r' cli1 where 1: "next_retry_count (node_id node) (count_in_msg node) now cli = (r', cli1)" by fastforce
  note n = next_retry_count_counted [OF assms(1) 1]
  show ?thesis
  proof (cases "\<exists>n. r = Some n \<and> n < 5")
    case False
    with assms(2) 1 n show ?thesis by (auto simp: sendRetryReceipt_def split: option.splits)
  next
    case True
    then obtain m where m: "r = Some m" "m < 5" by auto
    define keys where "keys = (if m > 1 \<or> force then retry_keys c rnd dev account cli1 else (Some [], cli1))"
    obtain ks cli2 where k: "keys = (ks, cli2)" by fastforce
    have "outgoing cli2 = outgoing cli1" using k by (auto simp: keys_def split: if_splits dest: retry_keys_keeps)
    moreover have "ks = None \<longrightarrow> account = None"
      using k by (auto simp: keys_def retry_keys_def split: if_splits prod.splits sum.splits option.splits)
    moreover have "(effs, cli') = (case ks of None \<Rightarrow> (if m = 1 then [RequestFromPhone (\<not> sync)] else [], cli2)
        | Some ks \<Rightarrow> ((if m = 1 then [RequestFromPhone (\<not> sync)] else []) @ [SendNode (retry_payload dev node info m ks)], cli2))"
      using assms(2) 1 n m k by (simp add: sendRetryReceipt_def keys_def Let_def)
    ultimately show ?thesis using n m by (auto simp: is_send_def split: option.splits)
  qed
qed

lemma send_run_granted:
  assumes "send_run E calls cli = (effs, cli')"
  shows "receipts_for msgid calls effs \<le> granted maxMessageRetryEntries 5 msgid (map send_call calls) (outgoing cli) \<and>
    outgoing cli' = counter_after maxMessageRetryEntries (map send_call calls) (outgoing cli)"
  using assms
proof (induction calls arbitrary: cli effs)
  case (Cons call calls)
  obtain node info force now where call: "call = (node, info, force, now)" by (cases call)
  obtain es cli1 where 1: "sendRetryReceipt (re_crypto E) (re_random E) (re_device E) (re_account E) (re_sync E) now node info force cli = (es, cli1)"
    by fastforce
  from Cons.prems obtain rest where 2: "send_run E calls cli1 = (rest, cli')" and effs: "effs = es # rest"
    by (auto simp: call 1 split: prod.splits)
  obtain r st where 3: "counted maxMessageRetryEntries (node_id node, count_in_msg node, now) (outgoing cli) = (r, st)" by (meson surj_pair)
  from sendRetryReceipt_counted [OF 3 1] Cons.IH [OF 2] show ?case
    by (auto simp: call 3 effs receipts_for_def simp del: counted.simps split: if_splits)
qed (simp add: receipts_for_def)

text \<open>
  C33: As long as the retry counts that messages carry are below \<open>2^62\<close>, the client sends at most
  eight retry receipts for one message among the failed decryptions that come within an hour of
  each other (four per counting window), whatever else fails in between, and never counts more than
  1024 messages at a time.
\<close>

theorem sendRetryReceipt_bounds:
  assumes "messageRetries cli = []" and "send_run E pre cli = (effs0, cli1)" and "send_run E mid cli1 = (effs, cli2)"
    and "\<forall>(node, info, force, now) \<in> set mid. a \<le> now \<and> now < a + retryCounterWindow"
    and "\<forall>(node, info, force, now) \<in> set (pre @ mid). count_in_msg node < 2 ^ 62"
    and "int (length (pre @ mid)) < 2 ^ 61"
  shows "receipts_for msgid mid effs \<le> 8 \<and> length (messageRetries cli2) \<le> maxMessageRetryEntries"
proof -
  let ?n = "maxMessageRetryEntries" and ?st = "([], messageRetriesReset cli)"
  have calm: "calm (map send_call pre @ map send_call mid)" using assms(5) by (fastforce simp: calm_def)
  have span: "\<forall>(key, inMsg, now) \<in> set (map send_call mid). a \<le> now \<and> now < a + retryCounterWindow"
    using assms(4) by fastforce
  have len: "int (length (map send_call pre @ map send_call mid)) < 2 ^ 61" using assms(6) by simp
  note hour = granted_in_an_hour(1) [OF calm len _ span, of 5 ?n msgid "messageRetriesReset cli"]
    granted_in_an_hour(2) [OF calm len _ span, of 5 ?n "messageRetriesReset cli"]
  from send_run_granted [OF assms(2)] have st: "outgoing cli1 = counter_after ?n (map send_call pre) ?st"
    by (simp add: assms(1))
  from send_run_granted [OF assms(3), of msgid] hour(1) have "int (receipts_for msgid mid effs) \<le> 8" unfolding st by simp
  moreover from send_run_granted [OF assms(3)] have "outgoing cli2 = counter_after ?n (map send_call pre @ map send_call mid) ?st"
    unfolding st by (simp add: counter_after_def)
  then have "length (messageRetries cli2) \<le> ?n" using hour(2) by (metis fst_conv zero_less_numeral)
  ultimately show ?thesis by simp
qed

section \<open>A count that wraps around\<close>

lemma counted_negative:
  assumes "map_of cache key = Some (- (2 ^ 63) + int i)" and "int i < 2 ^ 62" and "\<not> window_over resetAt now"
  shows "counted limit (key, inMsg, now) (cache, resetAt) =
    (Some (- (2 ^ 63) + int (Suc i)), aset key (- (2 ^ 63) + int (Suc i)) cache, resetAt)"
proof -
  have "wrap_int (- (2 ^ 63) + int i + 1) = - (2 ^ 63) + int (Suc i)" using assms(2) by (subst wrap_int_id) auto
  then show ?thesis using assms by (simp add: incrementBoundedCounter_def Let_def)
qed

lemma wrap_int_max': "wrap_int (2 ^ 63 - 1 + 1) = - (2 ^ 63)"
  unfolding diff_add_cancel by (rule wrap_int_max)

lemma counted_first:
  assumes "wrap_int (inMsg + 1) = c" and "0 < inMsg" and "0 < limit"
  shows "counted limit (key, inMsg, now) ([], resetAt) =
    (Some c, [(key, c)], if window_over resetAt now then Some now else resetAt)"
proof -
  have "wrap_int 1 = 1" by (rule wrap_int_id) simp_all
  with assms show ?thesis by (simp add: incrementBoundedCounter_def)
qed

lemma send_run_negative:
  assumes "map_of (messageRetries cli) (node_id node) = Some (- (2 ^ 63) + int i)" and "int i + int n < 2 ^ 62"
    and "\<not> window_over (messageRetriesReset cli) now" and "re_account E \<noteq> None"
    and "send_run E (replicate n (node, info, force, now)) cli = (effs, cli')"
  shows "receipts_for (node_id node) (replicate n (node, info, force, now)) effs = n"
  using assms
proof (induction n arbitrary: cli i effs)
  case (Suc n)
  obtain es cli1 where 1: "sendRetryReceipt (re_crypto E) (re_random E) (re_device E) (re_account E) (re_sync E) now node info force cli = (es, cli1)"
    by fastforce
  from Suc.prems(5) obtain rest where 2: "send_run E (replicate n (node, info, force, now)) cli1 = (rest, cli')" and effs: "effs = es # rest"
    by (auto simp: 1 split: prod.splits)
  have i: "int i < 2 ^ 62" using Suc.prems(2) by simp
  note sent = sendRetryReceipt_counted [OF counted_negative [OF Suc.prems(1) i Suc.prems(3)] 1]
  have "receipts_for (node_id node) (replicate n (node, info, force, now)) rest = n"
    using sent Suc.prems(2-4) by (intro Suc.IH [OF _ _ _ _ 2, of "Suc i"]) auto
  moreover have "length (filter is_send es) = 1" using sent Suc.prems(4) i by auto
  ultimately show ?case by (simp add: effs receipts_for_def)
qed (simp add: receipts_for_def)

text \<open>
  C34: A message that carries the retry count \<open>2^63 - 1\<close> makes the count wrap around to a negative
  number, and the limit on retry receipts is gone: each of any number of failed decryptions of it
  (below \<open>2^62\<close>) within the window sends a receipt.
\<close>

theorem sendRetryReceipt_unbounded:
  assumes "count_in_msg node = 2 ^ 63 - 1" and "messageRetries cli = []" and "re_account E \<noteq> None" and "int n < 2 ^ 62"
    and "send_run E (replicate n (node, info, force, now)) cli = (effs, cli')"
  shows "receipts_for (node_id node) (replicate n (node, info, force, now)) effs = n"
proof (cases n)
  case 0
  with assms(5) show ?thesis by (simp add: receipts_for_def)
next
  case (Suc m)
  let ?call = "(node, info, force, now)"
  obtain es cli1 where 1: "sendRetryReceipt (re_crypto E) (re_random E) (re_device E) (re_account E) (re_sync E) now node info force cli = (es, cli1)"
    by fastforce
  from assms(5) Suc obtain rest where 2: "send_run E (replicate m ?call) cli1 = (rest, cli')" and effs: "effs = es # rest"
    by (auto simp: 1 split: prod.splits)
  define resetAt where "resetAt = (if window_over (messageRetriesReset cli) now then Some now else messageRetriesReset cli)"
  have open_window: "\<not> window_over resetAt now" by (auto simp: resetAt_def window_over_def)
  have 3: "counted maxMessageRetryEntries (node_id node, count_in_msg node, now) (outgoing cli) =
      (Some (- (2 ^ 63)), [(node_id node, - (2 ^ 63))], resetAt)"
    unfolding assms(1,2) unfolding resetAt_def by (rule counted_first [OF wrap_int_max']) simp_all
  note sent = sendRetryReceipt_counted [OF 3 1]
  have "receipts_for (node_id node) (replicate m ?call) rest = m"
    using sent assms(3,4) Suc open_window by (intro send_run_negative [OF _ _ _ _ 2, of 0]) auto
  moreover have "length (filter is_send es) = 1" using sent assms(3) by auto
  ultimately show ?thesis by (simp add: effs receipts_for_def Suc)
qed

section \<open>Concrete receipts\<close>

definition demo_env :: retry_env where
  "demo_env = \<lparr>re_crypto = plain_crypto, re_random = (\<lambda>_. replicate 32 1), re_device = demo_device, re_account = Some [1], re_sync = False\<rparr>"

definition demo_failed_msg :: "string \<Rightarrow> node" where
  "demo_failed_msg c = Node ''message'' [(''id'', VStr ''m'')] (VNodes [Node ''enc'' [(''count'', VStr c)] VNil])"

abbreviation (input) demo_failure :: "string \<Rightarrow> retry_call" where
  "demo_failure c \<equiv> (demo_failed_msg c, \<lparr>mi_ID = ''m'', mi_Type = [], mi_IsFromMe = False\<rparr>, False, 5)"

lemma demo_msg:
  "count_in_msg (demo_failed_msg ''1'') = 1" "count_in_msg (demo_failed_msg ''9223372036854775807'') = 2 ^ 63 - 1"
  by (simp_all add: count_in_msg_def demo_failed_msg_def GetChildren_def OptionalInt_def GetInt64_def GetString_def
      AttrGetter_def ParseInt64_def ParseUint64_def digit_val_def of_char_def)

theorem sendRetryReceipt_bounds_witness:
  "receipts_for ''m'' (replicate 6 (demo_failure ''1'')) (fst (send_run demo_env (replicate 6 (demo_failure ''1'')) demo_retry_client)) \<le> 8"
  using sendRetryReceipt_bounds [of demo_retry_client demo_env "[]" "[]" demo_retry_client "replicate 6 (demo_failure ''1'')"
      "fst (send_run demo_env (replicate 6 (demo_failure ''1'')) demo_retry_client)"
      "snd (send_run demo_env (replicate 6 (demo_failure ''1'')) demo_retry_client)" 5 "''m''"]
  by (simp add: demo_retry_client_def demo_msg)

theorem sendRetryReceipt_unbounded_witness:
  "receipts_for (node_id (demo_failed_msg ''9223372036854775807'')) (replicate 100 (demo_failure ''9223372036854775807''))
     (fst (send_run demo_env (replicate 100 (demo_failure ''9223372036854775807'')) demo_retry_client)) = 100"
proof (rule sendRetryReceipt_unbounded [OF demo_msg(2)])
  show "messageRetries demo_retry_client = []" by (simp add: demo_retry_client_def)
  show "re_account demo_env \<noteq> None" by (simp add: demo_env_def)
  show "int 100 < 2 ^ 62" by simp
qed (rule surjective_pairing)

end
