(* ===== verification/RecentRuns.thy ===== *)
theory RecentRuns
  imports Retry Refinement
begin

text \<open>
  The ring of recently sent messages (\<open>addRecentMessage\<close> and \<open>getRecentMessage\<close> of \<open>src/retry.go\<close>) as a
  queue: whatever is sent, a lookup finds exactly the 256 newest messages, and a message sent again
  under the same key keeps its place.
\<close>

section \<open>The queue\<close>

type_synonym recent_queue = "(recentMessageKey \<times> cachedRecentMessage) list"

definition queue_add :: "recentMessageKey \<Rightarrow> cachedRecentMessage \<Rightarrow> recent_queue \<Rightarrow> recent_queue" where
  "queue_add k v q =
     (if k \<in> fst ` set q then aset k v q
      else (if length q < recentMessagesSize then q else tl q) @ [(k, v)])"

datatype ('w, 'f) recent_op = RAdd int JID string "'w option" "'f option" | RGet JID string

datatype ('w, 'f) recent_answer = RAdded | RFound "('w, 'f) RecentMessage"

definition queue_get :: "('w, 'f) retry_proto \<Rightarrow> recentMessageKey \<Rightarrow> recent_queue \<Rightarrow> ('w, 'f) RecentMessage" where
  "queue_get P k q =
     (case map_of q k of
        None \<Rightarrow> \<lparr>rm_wa = None, rm_fb = None\<rparr>
      | Some (format, payload) \<Rightarrow>
          (case parseRecentMessage P format payload of Inl e \<Rightarrow> \<lparr>rm_wa = None, rm_fb = None\<rparr> | Inr message \<Rightarrow> message))"

fun recent_spec :: "('w, 'f) retry_proto \<Rightarrow> ('w, 'f) recent_op \<Rightarrow> recent_queue \<Rightarrow> ('w, 'f) recent_answer \<times> recent_queue" where
  "recent_spec P (RAdd now to msgid wa fb) q =
     (RAdded, case recent_payload P wa fb of Inl e \<Rightarrow> q | Inr v \<Rightarrow> queue_add (to, msgid) v q)"
| "recent_spec P (RGet to msgid) q = (RFound (queue_get P (to, msgid) q), q)"

fun recent_step ::
  "('w, 'f) retry_proto \<Rightarrow> ('w, 'f) recent_op \<Rightarrow> 'r retry_client \<Rightarrow> ('w, 'f) recent_answer option \<times> 'r retry_client" where
  "recent_step P (RAdd now to msgid wa fb) cli =
     (case addRecentMessage P now to msgid wa fb cli of
        (Inl e, cli) \<Rightarrow> (None, cli)
      | (Inr _, cli) \<Rightarrow> (Some RAdded, cli))"
| "recent_step P (RGet to msgid) cli = (Some (RFound (getRecentMessage P to msgid cli)), cli)"

section \<open>The ring is the queue\<close>

definition rotation :: "nat \<Rightarrow> 'a list \<Rightarrow> 'a list" where
  "rotation p xs = drop p xs @ take p xs"

lemma set_rotation [simp]: "set (rotation p xs) = set xs"
  unfolding rotation_def by (metis append_take_drop_id set_append Un_commute)

lemma length_rotation [simp]: "length (rotation p xs) = length xs"
  by (simp add: rotation_def)

lemma distinct_rotation [simp]: "distinct (rotation p xs) = distinct xs"
  unfolding rotation_def by (metis append_take_drop_id distinct_append inf_commute)

lemma rotation_overwrite:
  assumes "p < length xs"
  shows "rotation (Suc p mod length xs) (xs[p := k]) = tl (rotation p xs) @ [k]" and "hd (rotation p xs) = xs ! p"
proof -
  have xs: "drop p xs = xs ! p # drop (Suc p) xs" using assms by (simp add: Cons_nth_drop_Suc)
  have upd: "take (Suc p) (xs[p := k]) = take p xs @ [k]" using assms by (simp add: take_Suc_conv_app_nth)
  show "rotation (Suc p mod length xs) (xs[p := k]) = tl (rotation p xs) @ [k]"
  proof (cases "Suc p = length xs")
    case True
    then have "xs[p := k] = take p xs @ [k]" using upd by simp
    with True xs show ?thesis by (simp add: rotation_def)
  next
    case False
    with assms have "Suc p mod length xs = Suc p" by simp
    with upd xs show ?thesis by (simp add: rotation_def)
  qed
  show "hd (rotation p xs) = xs ! p" by (simp add: rotation_def xs)
qed

definition ring_ok :: "'r retry_client \<Rightarrow> bool" where
  "ring_ok cli \<longleftrightarrow>
     distinct (recentMessagesList cli) \<and> length (recentMessagesList cli) \<le> recentMessagesSize \<and>
     recentMessagesPtr cli < recentMessagesSize \<and>
     (length (recentMessagesList cli) < recentMessagesSize \<longrightarrow> recentMessagesPtr cli = 0) \<and>
     dom (map_of (recentMessagesMap cli)) = set (recentMessagesList cli)"

definition ring_queue :: "'r retry_client \<Rightarrow> recent_queue" where
  "ring_queue cli =
     map (\<lambda>k. (k, the (map_of (recentMessagesMap cli) k))) (rotation (recentMessagesPtr cli) (recentMessagesList cli))"

lemma keys_queue: "fst ` set (ring_queue cli) = set (recentMessagesList cli)"
  by (simp add: ring_queue_def image_image)

lemma length_queue: "length (ring_queue cli) = length (recentMessagesList cli)"
  by (simp add: ring_queue_def)

lemma ring_dom: "ring_ok cli \<Longrightarrow> map_of (recentMessagesMap cli) k = None \<longleftrightarrow> k \<notin> set (recentMessagesList cli)"
  unfolding ring_ok_def by (metis domIff)

lemma map_of_queue:
  assumes "ring_ok cli"
  shows "map_of (ring_queue cli) k = map_of (recentMessagesMap cli) k"
proof (cases "k \<in> set (recentMessagesList cli)")
  case True
  with assms have "map_of (recentMessagesMap cli) k \<noteq> None" by (simp add: ring_dom del: not_None_eq)
  with True show ?thesis by (simp add: ring_queue_def map_of_map_restrict)
next
  case False
  then have "map_of (ring_queue cli) k = None" by (simp add: map_of_eq_None_fst keys_queue)
  with ring_dom [OF assms, of k] False show ?thesis by simp
qed

lemma aset_map: "distinct xs \<Longrightarrow> k \<in> set xs \<Longrightarrow> aset k v (map (\<lambda>x. (x, f x)) xs) = map (\<lambda>x. (x, if x = k then v else f x)) xs"
  by (induction xs) auto

lemma ring_add_present:
  assumes ok: "ring_ok cli" and k: "k \<in> set (recentMessagesList cli)"
  shows "ring_ok (ring_add k v cli) \<and> ring_queue (ring_add k v cli) = queue_add k v (ring_queue cli)"
proof -
  have "map_of (recentMessagesMap cli) k \<noteq> None" using ok k by (simp add: ring_dom del: not_None_eq)
  then have add: "ring_add k v cli = cli\<lparr>recentMessagesMap := aset k v (recentMessagesMap cli)\<rparr>" by (simp add: ring_add_def)
  have "ring_ok (ring_add k v cli)" using ok k by (auto simp: add ring_ok_def)
  moreover have "ring_queue (ring_add k v cli) = aset k v (ring_queue cli)"
    using ok k unfolding add ring_queue_def ring_ok_def by (subst aset_map) auto
  ultimately show ?thesis using k keys_queue [of cli] by (simp add: queue_add_def)
qed

lemma ring_add_room:
  assumes ok: "ring_ok cli" and k: "k \<notin> set (recentMessagesList cli)" and room: "length (recentMessagesList cli) < recentMessagesSize"
  shows "ring_ok (ring_add k v cli) \<and> ring_queue (ring_add k v cli) = queue_add k v (ring_queue cli)"
proof -
  let ?l = "recentMessagesList cli" and ?m = "recentMessagesMap cli"
  have none: "map_of ?m k = None" using ok k by (simp add: ring_dom)
  have ptr: "recentMessagesPtr cli = 0" using ok room by (simp add: ring_ok_def)
  from none room have add: "ring_add k v cli = cli\<lparr>recentMessagesList := ?l @ [k], recentMessagesMap := aset k v ?m\<rparr>"
    by (simp add: ring_add_def)
  have "ring_ok (ring_add k v cli)" using ok k room by (simp add: add ring_ok_def)
  moreover have "map (\<lambda>x. (x, the (map_of (aset k v ?m) x))) ?l = map (\<lambda>x. (x, the (map_of ?m x))) ?l" using k by auto
  then have "ring_queue (ring_add k v cli) = ring_queue cli @ [(k, v)]" by (simp add: add ring_queue_def ptr rotation_def)
  ultimately show ?thesis using k room keys_queue [of cli] by (simp add: queue_add_def length_queue)
qed

lemma rest_of_list:
  assumes "distinct (x # xs)" and "set (x # xs) = A" and "k \<notin> A"
  shows "set xs = A - {x}" and "distinct xs" and "x \<notin> set xs" and "k \<notin> set xs"
  using assms by auto

lemma ring_add_full:
  assumes ok: "ring_ok cli" and k: "k \<notin> set (recentMessagesList cli)" and full: "length (recentMessagesList cli) = recentMessagesSize"
  shows "ring_ok (ring_add k v cli) \<and> ring_queue (ring_add k v cli) = queue_add k v (ring_queue cli)"
proof -
  let ?l = "recentMessagesList cli" and ?m = "recentMessagesMap cli" and ?p = "recentMessagesPtr cli"
  let ?m' = "aset k v (adel (?l ! ?p) ?m)"
  define rest where "rest = tl (rotation ?p ?l)"
  have none: "map_of ?m k = None" using ok k by (simp add: ring_dom)
  have p: "?p < length ?l" and d: "distinct ?l" using ok full by (simp_all add: ring_ok_def)
  from none full have add: "ring_add k v cli = cli\<lparr>recentMessagesList := ?l[?p := k],
      recentMessagesPtr := Suc ?p mod length ?l, recentMessagesMap := ?m'\<rparr>" by (simp add: ring_add_def)
  have new: "rotation (Suc ?p mod length ?l) (?l[?p := k]) = rest @ [k]" unfolding rest_def by (rule rotation_overwrite(1) [OF p])
  have "rotation ?p ?l \<noteq> []" using p by (auto simp: rotation_def)
  then have rot: "rotation ?p ?l = ?l ! ?p # rest" using rotation_overwrite(2) [OF p] by (metis rest_def list.collapse)
  have "distinct (?l ! ?p # rest)" "set (?l ! ?p # rest) = set ?l" using d unfolding rot [symmetric] by simp_all
  note rest = rest_of_list [OF this k]
  have "set (?l[?p := k]) = set (rest @ [k])" "distinct (?l[?p := k]) = distinct (rest @ [k])" unfolding new [symmetric] by simp_all
  then have l': "set (?l[?p := k]) = insert k (set rest)" "distinct (?l[?p := k])" using rest by simp_all
  have "dom (map_of ?m) = set ?l" using ok by (simp add: ring_ok_def)
  then have "dom (map_of ?m') = insert k (set rest)" by (simp add: rest(1))
  then have "ring_ok (ring_add k v cli)" using l' full p by (simp add: add ring_ok_def)
  moreover have "map (\<lambda>x. (x, the (map_of ?m' x))) rest = map (\<lambda>x. (x, the (map_of ?m x))) rest"
    using rest(3,4) by auto
  then have "map (\<lambda>x. (x, the (map_of ?m' x))) (rest @ [k]) = tl (map (\<lambda>x. (x, the (map_of ?m x))) (?l ! ?p # rest)) @ [(k, v)]" by simp
  then have "ring_queue (ring_add k v cli) = tl (ring_queue cli) @ [(k, v)]"
    unfolding add ring_queue_def rot [symmetric] new [symmetric] by simp
  ultimately show ?thesis using k full keys_queue [of cli] by (simp add: queue_add_def length_queue)
qed

lemma ring_add_queue:
  assumes "ring_ok cli"
  shows "ring_ok (ring_add k v cli) \<and> ring_queue (ring_add k v cli) = queue_add k v (ring_queue cli)"
proof -
  have "length (recentMessagesList cli) \<le> recentMessagesSize" using assms by (simp add: ring_ok_def)
  then consider "k \<in> set (recentMessagesList cli)"
    | "k \<notin> set (recentMessagesList cli)" "length (recentMessagesList cli) < recentMessagesSize"
    | "k \<notin> set (recentMessagesList cli)" "length (recentMessagesList cli) = recentMessagesSize" by linarith
  then show ?thesis using ring_add_present ring_add_room ring_add_full assms by cases blast+
qed

section \<open>Runs\<close>

lemma ring_ok_dev [simp]: "ring_ok (cli\<lparr>rt_dev := d\<rparr>) = ring_ok cli" "ring_queue (cli\<lparr>rt_dev := d\<rparr>) = ring_queue cli"
  by (simp_all add: ring_ok_def ring_queue_def)

lemma keep_outgoing_keeps: "keep_outgoing now to msgid format b cli = (r, cli') \<Longrightarrow> \<exists>d. cli' = cli\<lparr>rt_dev := d\<rparr>"
  by (fastforce simp: keep_outgoing_def sbind_def split: prod.splits sum.splits if_splits dest!: on_retry_store_keeps)

lemma addRecentMessage_cases:
  assumes "addRecentMessage P now to msgid wa fb cli = (r, cli')"
  obtains (failed) e d where "r = Inl e" "cli' = cli\<lparr>rt_dev := d\<rparr>"
    | (added) v d where "r = Inr ()" "recent_payload P wa fb = Inr v" "cli' = ring_add (to, msgid) v (cli\<lparr>rt_dev := d\<rparr>)"
proof (cases "recent_payload P wa fb")
  case (Inl e)
  with assms have "r = Inl e" "cli' = cli\<lparr>rt_dev := rt_dev cli\<rparr>" by (simp_all add: addRecentMessage_def)
  then show thesis by (rule failed)
next
  case (Inr v)
  obtain format payload where v: "v = (format, payload)" by (cases v)
  let ?keep = "case payload of Some b \<Rightarrow> if UseRetryMessageStore cli then keep_outgoing now to msgid format b else sret () | None \<Rightarrow> sret ()"
  obtain r1 cli1 where 1: "?keep cli = (r1, cli1)" by fastforce
  have "\<exists>d. cli1 = cli\<lparr>rt_dev := d\<rparr>"
    using 1 by (cases payload) (auto split: if_splits intro: exI [of _ "rt_dev cli"] dest: keep_outgoing_keeps)
  then obtain d where d: "cli1 = cli\<lparr>rt_dev := d\<rparr>" ..
  have run: "(r, cli') = (case r1 of Inl e \<Rightarrow> (Inl e, cli1) | Inr _ \<Rightarrow> (Inr (), ring_add (to, msgid) v cli1))"
    using assms unfolding v by (simp add: addRecentMessage_def Inr [unfolded v] sbind_def 1)
  show thesis
  proof (cases r1)
    case (Inl e)
    with run d show thesis by (intro failed) auto
  next
    case (Inr u)
    with run d \<open>recent_payload P wa fb = Inr v\<close> show thesis by (intro added) auto
  qed
qed

lemma recent_answered:
  assumes "ring_ok cli" and "recent_step P op cli = (Some r, cli')"
  shows "ring_ok cli' \<and> recent_spec P op (ring_queue cli) = (r, ring_queue cli')"
proof (cases op)
  case (RAdd now to msgid wa fb)
  with assms(2) have run: "addRecentMessage P now to msgid wa fb cli = (Inr (), cli')" and r: "r = RAdded"
    by (auto split: prod.splits sum.splits)
  from run show ?thesis
  proof (cases rule: addRecentMessage_cases)
    case (added v d)
    with ring_add_queue [of "cli\<lparr>rt_dev := d\<rparr>" "(to, msgid)" v] assms(1) RAdd r show ?thesis by simp
  qed simp
next
  case (RGet to msgid)
  with assms(2) have "cli' = cli" "r = RFound (getRecentMessage P to msgid cli)" by auto
  with assms(1) RGet show ?thesis by (simp add: queue_get_def getRecentMessage_def map_of_queue)
qed

lemma recent_failed:
  assumes "ring_ok cli" and "recent_step P op cli = (None, cli')"
  shows "ring_ok cli' \<and> ring_queue cli' = ring_queue cli"
proof (cases op)
  case (RAdd now to msgid wa fb)
  with assms(2) obtain e where run: "addRecentMessage P now to msgid wa fb cli = (Inl e, cli')"
    by (auto split: prod.splits sum.splits)
  from run show ?thesis by (cases rule: addRecentMessage_cases) (use assms(1) in auto)
qed (use assms(2) in simp)

interpretation recent: op_refinement ring_ok ring_queue "\<lambda>_ _. True" "recent_step P" "recent_spec P" for P
  by unfold_locales (rule recent_answered, assumption+, rule recent_failed, assumption+)

lemma all_safe_True: "all_safe (\<lambda>_ _. True) step ops s"
  by (induction ops arbitrary: s) simp_all

text \<open>
  C31: The ring of recent messages behaves as a queue that keeps the 256 newest messages. For any
  sequence of sent messages and lookups, with any failing statements of the retry table and
  messages that cannot be marshalled, every lookup answers as the queue does: a message is found
  until 256 others were remembered after it, and a failed call leaves the queue alone.
\<close>

theorem recent_messages_refine_queue:
  assumes "recentMessagesMap cli = []" and "recentMessagesList cli = []" and "recentMessagesPtr cli = 0"
    and "run_ops (recent_step P) ops cli = (rs, cli')"
  shows "spec_ops (recent_spec P) ops (map (\<lambda>r. r = None) rs) [] = (rs, ring_queue cli') \<and>
    length (recentMessagesList cli') \<le> recentMessagesSize"
proof -
  have init: "ring_ok cli" "ring_queue cli = []" using assms(1-3) by (simp_all add: ring_ok_def ring_queue_def rotation_def)
  from recent.runs [OF init(1) all_safe_True assms(4)] init(2) show ?thesis by (simp add: ring_ok_def)
qed

definition byte_messages :: "(byte, byte) retry_proto" where
  "byte_messages =
     \<lparr>marshal_wa = (\<lambda>b. if b = 0 then None else Some [b]), marshal_fb = (\<lambda>b. Some [b]),
      unmarshal_wa = (\<lambda>bs. case bs of [b] \<Rightarrow> Some b | _ \<Rightarrow> None), unmarshal_fb = (\<lambda>bs. None)\<rparr>"

definition demo_recent_ops :: "(byte, byte) recent_op list" where
  "demo_recent_ops =
     [RAdd 1 EmptyJID ''a'' (Some 7) None, RAdd 2 EmptyJID ''b'' (Some 0) None, RGet EmptyJID ''a'', RGet EmptyJID ''b'']"

theorem recent_messages_refine_queue_witness:
  "\<exists>rs cli'. run_ops (recent_step byte_messages) demo_recent_ops demo_retry_client = (rs, cli') \<and>
     rs = [Some RAdded, None, Some (RFound \<lparr>rm_wa = Some 7, rm_fb = None\<rparr>), Some (RFound \<lparr>rm_wa = None, rm_fb = None\<rparr>)] \<and>
     spec_ops (recent_spec byte_messages) demo_recent_ops (map (\<lambda>r. r = None) rs) [] = (rs, ring_queue cli')"
proof -
  obtain rs cli' where run: "run_ops (recent_step byte_messages) demo_recent_ops demo_retry_client = (rs, cli')" by fastforce
  have "fst (run_ops (recent_step byte_messages) demo_recent_ops demo_retry_client) =
      [Some RAdded, None, Some (RFound \<lparr>rm_wa = Some 7, rm_fb = None\<rparr>), Some (RFound \<lparr>rm_wa = None, rm_fb = None\<rparr>)]" by code_simp
  moreover have "recentMessagesMap demo_retry_client = []" "recentMessagesList demo_retry_client = []" "recentMessagesPtr demo_retry_client = 0"
    by (simp_all add: demo_retry_client_def)
  from recent_messages_refine_queue [OF this run] have
    "spec_ops (recent_spec byte_messages) demo_recent_ops (map (\<lambda>r. r = None) rs) [] = (rs, ring_queue cli')" ..
  ultimately show ?thesis using run by simp
qed

end
