(* ===== verification/LidMap.thy ===== *)
theory LidMap
  imports Sql Jid Refinement
begin

text \<open>
  \<open>src/store/sqlstore/lidmap.go\<close>: the table that pairs hidden identifiers with phone numbers, behind two
  caches of bounded size that also remember misses. As in \<open>Cache\<close>, the entry that an insertion
  evicts is an argument. The lemmas show that the caches agree with the table, and that the map
  answers as a plain one-to-one relation does, and under which conditions.
\<close>

section \<open>State\<close>

record lid_db = sql_db +
  lid_rows :: "(string \<times> string) list"

type_synonym lid_cache = "(string \<times> string) list"
type_synonym lid_pick = "lid_cache \<Rightarrow> nat"

record CachedLIDMap =
  lm_db :: lid_db
  pnToLIDCache :: lid_cache
  lidToPNCache :: lid_cache
  cacheFilled :: bool

datatype lid_error = LidDb db_error | InvalidLIDCall

type_synonym 'a lid_op = "(CachedLIDMap, lid_error, 'a) sr"

abbreviation (input) "maxLIDCacheEntries \<equiv> (65536 :: nat)"

definition NewCachedLIDMap :: "lid_db \<Rightarrow> CachedLIDMap" where
  "NewCachedLIDMap d = \<lparr>lm_db = d, pnToLIDCache = [], lidToPNCache = [], cacheFilled = False\<rparr>"

definition on_lid_db :: "(lid_db, db_error, 'a) sr \<Rightarrow> 'a lid_op" where
  "on_lid_db m s = (let (r, d) = m (lm_db s) in (case r of Inl e \<Rightarrow> Inl (LidDb e) | Inr x \<Rightarrow> Inr x, s\<lparr>lm_db := d\<rparr>))"

text \<open>Reading a missing entry of a Go map gives the empty string.\<close>

definition entry :: "lid_cache \<Rightarrow> string \<Rightarrow> string" where
  "entry m k = (case map_of m k of None \<Rightarrow> [] | Some v \<Rightarrow> v)"

section \<open>The caches\<close>

definition evictLIDCacheEntry :: "lid_pick \<Rightarrow> lid_cache \<Rightarrow> lid_cache \<Rightarrow> lid_cache \<times> lid_cache" where
  "evictLIDCacheEntry pick cache reverse =
     (if cache = [] then (cache, reverse)
      else
        (let (source, target) = cache ! (pick cache mod length cache) in
         (adel source cache,
          if target \<noteq> [] \<and> entry reverse target = source then adel target reverse else reverse)))"

definition cacheMissLocked :: "lid_pick \<Rightarrow> string \<Rightarrow> lid_cache \<Rightarrow> lid_cache \<Rightarrow> lid_cache \<times> lid_cache" where
  "cacheMissLocked pick source cache reverse =
     (if map_of cache source \<noteq> None then (cache, reverse)
      else
        (let (cache, reverse) =
               (if maxLIDCacheEntries \<le> length cache then evictLIDCacheEntry pick cache reverse else (cache, reverse))
         in (aset source [] cache, reverse)))"

text \<open>The mapping that the new one replaces is dropped from the other cache.\<close>

definition drop_replaced :: "string \<Rightarrow> string \<Rightarrow> lid_cache \<Rightarrow> lid_cache \<Rightarrow> lid_cache \<times> lid_cache" where
  "drop_replaced lid pn pc lc =
     (let oldLID = entry pc pn;
          lc = (if oldLID \<noteq> [] \<and> oldLID \<noteq> lid \<and> entry lc oldLID = pn then adel oldLID lc else lc);
          oldPN = entry lc lid;
          pc = (if oldPN \<noteq> [] \<and> oldPN \<noteq> pn \<and> entry pc oldPN = lid then adel oldPN pc else pc)
      in (pc, lc))"

definition make_room :: "lid_pick \<Rightarrow> string \<Rightarrow> lid_cache \<Rightarrow> lid_cache \<Rightarrow> lid_cache \<times> lid_cache" where
  "make_room pick key cache reverse =
     (if map_of cache key = None \<and> maxLIDCacheEntries \<le> length cache then evictLIDCacheEntry pick cache reverse
      else (cache, reverse))"

definition cacheMappingLocked :: "lid_pick \<Rightarrow> string \<Rightarrow> string \<Rightarrow> CachedLIDMap \<Rightarrow> CachedLIDMap" where
  "cacheMappingLocked pick lid pn s =
     (let (pc, lc) = drop_replaced lid pn (pnToLIDCache s) (lidToPNCache s);
          (pc, lc) = make_room pick pn pc lc;
          (lc, pc) = make_room pick lid lc pc
      in s\<lparr>pnToLIDCache := aset pn lid pc, lidToPNCache := aset lid pn lc\<rparr>)"

definition scanManyLids :: "lid_pick \<Rightarrow> (string \<times> string) list \<Rightarrow> CachedLIDMap \<Rightarrow> CachedLIDMap" where
  "scanManyLids pick rows s = fold (\<lambda>(lid, pn). cacheMappingLocked pick lid pn) rows s"

definition FillCache :: "lid_pick \<Rightarrow> unit lid_op" where
  "FillCache pick s =
     (let s = s\<lparr>pnToLIDCache := [], lidToPNCache := []\<rparr> in
      case on_lid_db (sql_query lid_rows) s of
        (Inl e, s) \<Rightarrow> (Inl e, s\<lparr>cacheFilled := False\<rparr>)
      | (Inr rows, s) \<Rightarrow> (Inr (), (scanManyLids pick rows s)\<lparr>cacheFilled := length rows \<le> maxLIDCacheEntries\<rparr>))"

section \<open>Lookups\<close>

text \<open>\<open>toLID\<close> says which of the two directions the lookup goes, and with it the caches and the query.\<close>

definition getLIDMapping :: "lid_pick \<Rightarrow> bool \<Rightarrow> JID \<Rightarrow> JID lid_op" where
  "getLIDMapping pick toLID source s =
     (let sourceToTarget = (if toLID then pnToLIDCache s else lidToPNCache s);
          targetServer = (if toLID then HiddenUserServer else DefaultUserServer);
          found = (\<lambda>user. if user = [] then EmptyJID else EmptyJID\<lparr>User := user, Device := Device source, Server := targetServer\<rparr>);
          cached = map_of sourceToTarget (User source)
      in if cached \<noteq> None \<or> cacheFilled s then (Inr (found (entry sourceToTarget (User source))), s)
         else
           sbind (on_lid_db (sql_query (\<lambda>d.
               map_of (if toLID then map prod.swap (lid_rows d) else lid_rows d) (User source)))) (\<lambda>row s.
             let targetUser = (case row of None \<Rightarrow> [] | Some u \<Rightarrow> u) in
             if targetUser = [] then
               (if toLID then
                  (let (pc, lc) = cacheMissLocked pick (User source) (pnToLIDCache s) (lidToPNCache s)
                   in (Inr EmptyJID, s\<lparr>pnToLIDCache := pc, lidToPNCache := lc\<rparr>))
                else
                  (let (lc, pc) = cacheMissLocked pick (User source) (lidToPNCache s) (pnToLIDCache s)
                   in (Inr EmptyJID, s\<lparr>pnToLIDCache := pc, lidToPNCache := lc\<rparr>)))
             else if toLID then (Inr (found targetUser), cacheMappingLocked pick targetUser (User source) s)
             else (Inr (found targetUser), cacheMappingLocked pick (User source) targetUser s)) s)"

definition GetLIDForPN :: "lid_pick \<Rightarrow> JID \<Rightarrow> JID lid_op" where
  "GetLIDForPN pick pn =
     (if Server pn \<noteq> DefaultUserServer then serr InvalidLIDCall else getLIDMapping pick True pn)"

definition GetPNForLID :: "lid_pick \<Rightarrow> JID \<Rightarrow> JID lid_op" where
  "GetPNForLID pick lid =
     (if Server lid \<noteq> HiddenUserServer then serr InvalidLIDCall else getLIDMapping pick False lid)"

subsection \<open>Many at once\<close>

type_synonym jid_map = "(JID \<times> JID) list"

text \<open>
  The first pass over the arguments: what the cache answers, the users to query and, by user, the
  addresses that ask for them. An empty cached entry counts as unknown in one direction
  (\<open>retryEmpty\<close>) and as an answer in the other, where users are also listed once.
\<close>

fun scan_asked ::
  "bool \<Rightarrow> bool \<Rightarrow> lid_cache \<Rightarrow> string \<Rightarrow> string \<Rightarrow> JID list \<Rightarrow> jid_map \<Rightarrow> string list \<Rightarrow> (string \<times> JID list) list \<Rightarrow>
   jid_map \<times> string list \<times> (string \<times> JID list) list" where
  "scan_asked retryEmpty filled cache fromServer toServer [] result missing devices = (result, missing, devices)"
| "scan_asked retryEmpty filled cache fromServer toServer (jid # jids) result missing devices =
     (let devs = (case map_of devices (User jid) of None \<Rightarrow> [] | Some ds \<Rightarrow> ds);
          continue = scan_asked retryEmpty filled cache fromServer toServer jids;
          target = entry cache (User jid)
      in if Server jid \<noteq> fromServer then continue result missing devices
         else if map_of cache (User jid) \<noteq> None \<and> target \<noteq> [] then
           continue (aset jid (EmptyJID\<lparr>User := target, Device := Device jid, Server := toServer\<rparr>) result) missing devices
         else if map_of cache (User jid) \<noteq> None \<and> \<not> retryEmpty then continue result missing devices
         else if filled then continue result missing devices
         else
           continue result
             (if retryEmpty \<or> map_of devices (User jid) = None then missing @ [User jid] else missing)
             (aset (User jid) (devs @ [jid]) devices))"

definition answer_devices :: "string \<Rightarrow> string \<Rightarrow> JID list \<Rightarrow> jid_map \<Rightarrow> jid_map" where
  "answer_devices toServer user devs result = fold (\<lambda>dev. aset dev (dev\<lparr>Server := toServer, User := user\<rparr>)) devs result"

definition GetManyLIDsForPNs :: "lid_pick \<Rightarrow> JID list \<Rightarrow> jid_map lid_op" where
  "GetManyLIDsForPNs pick pns s =
     (if pns = [] then (Inr [], s)
      else
        (let (result, missingPNs, devices) =
               scan_asked True (cacheFilled s) (pnToLIDCache s) DefaultUserServer HiddenUserServer pns [] [] []
         in if missingPNs = [] then (Inr result, s)
            else
              sbind (on_lid_db (sql_query (\<lambda>d. filter (\<lambda>(l, p). p \<in> set missingPNs) (lid_rows d)))) (\<lambda>rows s.
                (Inr (fold (\<lambda>(lid, pn). answer_devices HiddenUserServer lid
                        (case map_of devices pn of None \<Rightarrow> [] | Some ds \<Rightarrow> ds)) rows result),
                 scanManyLids pick rows s)) s))"

text \<open>The second look at the cache, under the write lock.\<close>

fun recheck_lids ::
  "bool \<Rightarrow> lid_cache \<Rightarrow> (string \<times> JID list) list \<Rightarrow> string list \<Rightarrow> jid_map \<Rightarrow> string list \<Rightarrow> jid_map \<times> string list" where
  "recheck_lids filled lc devices [] result queryLIDs = (result, queryLIDs)"
| "recheck_lids filled lc devices (lid # lids) result queryLIDs =
     (case map_of lc lid of
        Some pn \<Rightarrow>
          recheck_lids filled lc devices lids
            (if pn \<noteq> [] then
               fold (\<lambda>dev. aset dev (EmptyJID\<lparr>User := pn, Device := Device dev, Server := DefaultUserServer\<rparr>))
                 (case map_of devices lid of None \<Rightarrow> [] | Some ds \<Rightarrow> ds) result
             else result) queryLIDs
      | None \<Rightarrow> recheck_lids filled lc devices lids result (if filled then queryLIDs else queryLIDs @ [lid]))"

fun query_lids ::
  "lid_pick \<Rightarrow> (string \<times> JID list) list \<Rightarrow> string list list \<Rightarrow> jid_map \<Rightarrow> string list \<Rightarrow> (jid_map \<times> string list) lid_op" where
  "query_lids pick devices [] result found = sret (result, found)"
| "query_lids pick devices (lids # batches) result found =
     sbind (on_lid_db (sql_query (\<lambda>d. filter (\<lambda>(l, p). l \<in> set lids) (lid_rows d)))) (\<lambda>rows s.
       query_lids pick devices batches
         (fold (\<lambda>(lid, pn). answer_devices DefaultUserServer pn (case map_of devices lid of None \<Rightarrow> [] | Some ds \<Rightarrow> ds)) rows result)
         (found @ map fst rows) (scanManyLids pick rows s))"

definition cache_misses :: "lid_pick \<Rightarrow> string list \<Rightarrow> CachedLIDMap \<Rightarrow> CachedLIDMap" where
  "cache_misses pick lids s = fold (\<lambda>lid s.
     let (lc, pc) = cacheMissLocked pick lid (lidToPNCache s) (pnToLIDCache s)
     in s\<lparr>pnToLIDCache := pc, lidToPNCache := lc\<rparr>) lids s"

text \<open>\<open>native\<close> says that the Postgres driver takes arrays; otherwise 300 identifiers are queried at a time.\<close>

definition GetManyPNsForLIDs :: "lid_pick \<Rightarrow> bool \<Rightarrow> JID list \<Rightarrow> jid_map lid_op" where
  "GetManyPNsForLIDs pick native lids s =
     (if lids = [] then (Inr [], s)
      else
        (let (result, missingLIDs, devices) =
               scan_asked False (cacheFilled s) (lidToPNCache s) HiddenUserServer DefaultUserServer lids [] [] []
         in if missingLIDs = [] then (Inr result, s)
            else
              (let (result, missingLIDs) = recheck_lids (cacheFilled s) (lidToPNCache s) devices missingLIDs result []
               in if missingLIDs = [] then (Inr result, s)
                  else
                    sbind (query_lids pick devices (if native then [missingLIDs] else chunks 300 missingLIDs) result [])
                      (\<lambda>(result, found) s.
                         (Inr result, cache_misses pick (filter (\<lambda>lid. lid \<notin> set found) missingLIDs) s)) s)))"

section \<open>Updates\<close>

definition deleteExistingLIDMappingQuery :: "string \<Rightarrow> string \<Rightarrow> lid_db \<Rightarrow> db_error + lid_db" where
  "deleteExistingLIDMappingQuery lid pn d = Inr (d\<lparr>lid_rows := filter (\<lambda>(l, p). \<not> (l \<noteq> lid \<and> p = pn)) (lid_rows d)\<rparr>)"

definition putLIDMappingQuery :: "string \<Rightarrow> string \<Rightarrow> lid_db \<Rightarrow> db_error + lid_db" where
  "putLIDMappingQuery lid pn d =
     (if \<exists>(l, p) \<in> set (lid_rows d). l \<noteq> lid \<and> p = pn then Inl UniqueViolation
      else Inr (d\<lparr>lid_rows := aset lid pn (lid_rows d)\<rparr>))"

definition unlockedPutLIDMapping :: "lid_pick \<Rightarrow> JID \<Rightarrow> JID \<Rightarrow> unit lid_op" where
  "unlockedPutLIDMapping pick lid pn =
     (if Server lid \<noteq> HiddenUserServer \<or> Server pn \<noteq> DefaultUserServer then serr InvalidLIDCall
      else
        sbind (on_lid_db (sql_exec (deleteExistingLIDMappingQuery (User lid) (User pn)))) (\<lambda>_.
        sbind (on_lid_db (sql_exec (putLIDMappingQuery (User lid) (User pn)))) (\<lambda>_ s.
          (Inr (), cacheMappingLocked pick (User lid) (User pn) s))))"

text \<open>A rollback restores the table and leaves the caches as the body left them.\<close>

definition lid_DoTxn :: "unit lid_op \<Rightarrow> unit lid_op" where
  "lid_DoTxn body s =
     (case on_lid_db (sql_exec Inr) s of
        (Inl e, s0) \<Rightarrow> (Inl e, s0)
      | (Inr _, s0) \<Rightarrow>
          (case sbind body (\<lambda>_. on_lid_db (sql_exec Inr)) s0 of
             (Inl e, s1) \<Rightarrow> (Inl e, s1\<lparr>lm_db := rolled_back (lm_db s) (lm_db s1)\<rparr>)
           | (Inr _, s1) \<Rightarrow> (Inr (), s1)))"

definition PutLIDMapping :: "lid_pick \<Rightarrow> JID \<Rightarrow> JID \<Rightarrow> unit lid_op" where
  "PutLIDMapping pick lid pn s =
     (if Server lid \<noteq> HiddenUserServer \<or> Server pn \<noteq> DefaultUserServer then (Inl InvalidLIDCall, s)
      else if map_of (pnToLIDCache s) (User pn) = Some (User lid) then (Inr (), s)
      else lid_DoTxn (unlockedPutLIDMapping pick lid pn) s)"

text \<open>\<open>dedup\<close> is the library's removal of duplicates.\<close>

definition PutManyLIDMappings :: "lid_pick \<Rightarrow> ((JID \<times> JID) list \<Rightarrow> (JID \<times> JID) list) \<Rightarrow> (JID \<times> JID) list \<Rightarrow> unit lid_op" where
  "PutManyLIDMappings pick dedup mappings s =
     (let mappings = filter (\<lambda>(lid, pn). Server lid = HiddenUserServer \<and> Server pn = DefaultUserServer \<and>
            map_of (pnToLIDCache s) (User pn) \<noteq> Some (User lid)) mappings;
          mappings = dedup mappings
      in if mappings = [] then (Inr (), s)
         else lid_DoTxn (sseq (\<lambda>(lid, pn). unlockedPutLIDMapping pick lid pn) mappings) s)"

section \<open>The caches agree with the table\<close>

text \<open>
  The caches are two partial maps \<open>c\<close> and \<open>r\<close> beside the relation of numbers and identifiers in the
  table. Entries for the keys in \<open>A\<close> and \<open>B\<close> are left out of the account. The predicate is the same in
  both directions, so each lemma is proved once.
\<close>

definition sound_but ::
  "string set \<Rightarrow> string set \<Rightarrow> (string \<times> string) set \<Rightarrow> (string \<rightharpoonup> string) \<Rightarrow> (string \<rightharpoonup> string) \<Rightarrow> bool" where
  "sound_but A B R c r \<longleftrightarrow>
     (\<forall>x y. x \<notin> A \<longrightarrow> c x = Some y \<longrightarrow> (if y = [] then x \<notin> Domain R else (x, y) \<in> R \<and> y \<notin> B \<and> r y = Some x))"

definition coherent_but ::
  "string set \<Rightarrow> string set \<Rightarrow> (string \<times> string) set \<Rightarrow> (string \<rightharpoonup> string) \<Rightarrow> (string \<rightharpoonup> string) \<Rightarrow> bool" where
  "coherent_but A B R c r \<longleftrightarrow> sound_but A B R c r \<and> sound_but B A (R\<inverse>) r c"

definition one_to_one :: "(string \<times> string) set \<Rightarrow> bool" where
  "one_to_one R \<longleftrightarrow> single_valued R \<and> single_valued (R\<inverse>) \<and> [] \<notin> Domain R \<and> [] \<notin> Range R"

lemma coherent_converse: "coherent_but A B R c r \<Longrightarrow> coherent_but B A (R\<inverse>) r c"
  by (simp add: coherent_but_def)

lemma sound_butI:
  assumes "\<And>x. x \<notin> A \<Longrightarrow> c x = Some [] \<Longrightarrow> x \<notin> Domain R"
    and "\<And>x y. x \<notin> A \<Longrightarrow> c x = Some y \<Longrightarrow> y \<noteq> [] \<Longrightarrow> (x, y) \<in> R \<and> y \<notin> B \<and> r y = Some x"
  shows "sound_but A B R c r"
  unfolding sound_but_def using assms by auto

lemma sound_but_miss: "sound_but A B R c r \<Longrightarrow> x \<notin> A \<Longrightarrow> c x = Some [] \<Longrightarrow> x \<notin> Domain R"
  unfolding sound_but_def by (metis (full_types))

lemma sound_but_hit:
  "sound_but A B R c r \<Longrightarrow> x \<notin> A \<Longrightarrow> c x = Some y \<Longrightarrow> y \<noteq> [] \<Longrightarrow> (x, y) \<in> R \<and> y \<notin> B \<and> r y = Some x"
  unfolding sound_but_def by (metis (full_types))

lemma one_to_one_converse: "one_to_one R \<Longrightarrow> one_to_one (R\<inverse>)"
  by (simp add: one_to_one_def)

lemma one_to_oneD:
  assumes "one_to_one R" and "(x, y) \<in> R"
  shows "x \<noteq> []" and "y \<noteq> []" and "(x, y') \<in> R \<Longrightarrow> y' = y" and "(x', y) \<in> R \<Longrightarrow> x' = x"
  using assms unfolding one_to_one_def single_valued_def by blast+

text \<open>Forgetting an entry together with its partner.\<close>

lemma coherent_forget:
  assumes coh: "coherent_but A B R c r" and x: "c x = Some y" "x \<notin> A"
  shows "coherent_but A B R (c(x := None)) (if y \<noteq> [] then r(y := None) else r)"
proof -
  let ?c = "c(x := None)" and ?r = "if y \<noteq> [] then r(y := None) else r"
  have s: "sound_but A B R c r" "sound_but B A (R\<inverse>) r c" using coh by (simp_all add: coherent_but_def)
  have "sound_but A B R ?c ?r"
  proof (rule sound_butI)
    fix x' assume "x' \<notin> A" "?c x' = Some []"
    then show "x' \<notin> Domain R" using sound_but_miss [OF s(1)] by (auto split: if_splits)
  next
    fix x' y' assume h: "x' \<notin> A" "?c x' = Some y'" "y' \<noteq> []"
    then have "c x' = Some y'" "x' \<noteq> x" by (auto split: if_splits)
    with sound_but_hit [OF s(1) h(1) _ h(3)] sound_but_hit [OF s(1) x(2,1)] have "(x', y') \<in> R \<and> y' \<notin> B \<and> r y' = Some x'" "y \<noteq> [] \<Longrightarrow> y' \<noteq> y"
      by auto
    then show "(x', y') \<in> R \<and> y' \<notin> B \<and> ?r y' = Some x'" by simp
  qed
  moreover have "sound_but B A (R\<inverse>) ?r ?c"
  proof (rule sound_butI)
    fix y' assume "y' \<notin> B" "?r y' = Some []"
    then show "y' \<notin> Domain (R\<inverse>)" using sound_but_miss [OF s(2)] by (auto split: if_splits)
  next
    fix y' x' assume h: "y' \<notin> B" "?r y' = Some x'" "x' \<noteq> []"
    then have "r y' = Some x'" "y \<noteq> [] \<Longrightarrow> y' \<noteq> y" by (auto split: if_splits)
    with sound_but_hit [OF s(2) h(1) _ h(3)] have hit: "(y', x') \<in> R\<inverse> \<and> x' \<notin> A \<and> c x' = Some y'" by simp
    moreover from this x \<open>y \<noteq> [] \<Longrightarrow> y' \<noteq> y\<close> have "x' \<noteq> x" using sound_but_miss [OF s(1) x(2)] by (cases "y = []") auto
    ultimately show "(y', x') \<in> R\<inverse> \<and> x' \<notin> A \<and> ?c x' = Some y'" by simp
  qed
  ultimately show ?thesis by (simp add: coherent_but_def)
qed

text \<open>Adding an entry, or remembering a miss, whose key was left out of the account.\<close>

lemma coherent_add:
  assumes coh: "coherent_but {x} {y} R c r" and xy: "(x, y) \<in> R" and one: "one_to_one R"
  shows "coherent_but {} {} R (c(x \<mapsto> y)) (r(y \<mapsto> x))"
proof -
  have half: "sound_but {} {} R (c(x \<mapsto> y)) (r(y \<mapsto> x))"
    if s: "sound_but {x} {y} R c r" and "(x, y) \<in> R" and "one_to_one R" for x y c r R
  proof (rule sound_butI)
    fix x' assume "x' \<notin> {}" "(c(x \<mapsto> y)) x' = Some []"
    then show "x' \<notin> Domain R" using sound_but_miss [OF s, of x'] one_to_oneD(2) [OF that(3,2)] by (auto split: if_splits)
  next
    fix x' y' assume h: "x' \<notin> {}" "(c(x \<mapsto> y)) x' = Some y'" "y' \<noteq> []"
    then show "(x', y') \<in> R \<and> y' \<notin> {} \<and> (r(y \<mapsto> x)) y' = Some x'"
      using sound_but_hit [OF s, of x' y'] that(2) by (auto split: if_splits)
  qed
  from coh half [OF _ xy one] half [of y x "R\<inverse>" r c] xy one_to_one_converse [OF one] show ?thesis
    by (simp add: coherent_but_def)
qed

lemma coherent_miss:
  assumes coh: "coherent_but {} {} R c r" and "x \<notin> Domain R" and new: "c x = None"
  shows "coherent_but {} {} R (c(x \<mapsto> [])) r"
proof -
  have s: "sound_but {} {} R c r" "sound_but {} {} (R\<inverse>) r c" using coh by (simp_all add: coherent_but_def)
  have "sound_but {} {} R (c(x \<mapsto> [])) r"
    using sound_but_miss [OF s(1)] sound_but_hit [OF s(1)] assms(2) by (intro sound_butI) (auto split: if_splits)
  moreover have "sound_but {} {} (R\<inverse>) r (c(x \<mapsto> []))"
  proof (rule sound_butI)
    fix y assume "y \<notin> {}" "r y = Some []"
    then show "y \<notin> Domain (R\<inverse>)" using sound_but_miss [OF s(2)] by blast
  next
    fix y x' assume "y \<notin> {}" "r y = Some x'" "x' \<noteq> []"
    with sound_but_hit [OF s(2)] new show "(y, x') \<in> R\<inverse> \<and> x' \<notin> {} \<and> (c(x \<mapsto> [])) x' = Some y" by auto
  qed
  ultimately show ?thesis by (simp add: coherent_but_def)
qed

text \<open>The relation after a mapping was stored, and the caches without what it replaces.\<close>

definition relate :: "string \<Rightarrow> string \<Rightarrow> (string \<times> string) set \<Rightarrow> (string \<times> string) set" where
  "relate x y R = insert (x, y) {(a, b). (a, b) \<in> R \<and> a \<noteq> x \<and> b \<noteq> y}"

lemma relate_converse: "(relate x y R)\<inverse> = relate y x (R\<inverse>)"
  by (auto simp: relate_def)

lemma one_to_one_relate: "one_to_one R \<Longrightarrow> x \<noteq> [] \<Longrightarrow> y \<noteq> [] \<Longrightarrow> one_to_one (relate x y R)"
  unfolding one_to_one_def single_valued_def relate_def by blast

lemma relate_known: "one_to_one R \<Longrightarrow> (x, y) \<in> R \<Longrightarrow> relate x y R = R"
  using one_to_oneD(3,4) [of R x y] unfolding relate_def by blast

definition without_replaced :: "(string \<rightharpoonup> string) \<Rightarrow> (string \<rightharpoonup> string) \<Rightarrow> string \<Rightarrow> string \<Rightarrow> (string \<rightharpoonup> string)" where
  "without_replaced c r x y =
     (case c x of
        Some old \<Rightarrow> if old \<noteq> [] \<and> old \<noteq> y \<and> r old = Some x then r(old := None) else r
      | None \<Rightarrow> r)"

lemma without_replaced_sub: "without_replaced c r x y k = Some v \<Longrightarrow> r k = Some v"
  by (auto simp: without_replaced_def split: option.splits if_splits)

lemma without_replaced_other: "r k = Some v \<Longrightarrow> v \<noteq> x \<Longrightarrow> without_replaced c r x y k = Some v"
  by (auto simp: without_replaced_def split: option.splits)

lemma without_replaced_gone:
  "c x = Some old \<Longrightarrow> old \<noteq> [] \<Longrightarrow> old \<noteq> y \<Longrightarrow> r old = Some x \<Longrightarrow> without_replaced c r x y old = None"
  by (simp add: without_replaced_def)

lemma sound_replaced:
  assumes coh: "coherent_but {} {} R c r" and one: "one_to_one R"
  shows "sound_but {x} {y} (relate x y R) (without_replaced r c y x) (without_replaced c r x y)"
proof -
  have s: "sound_but {} {} R c r" "sound_but {} {} (R\<inverse>) r c" using coh by (simp_all add: coherent_but_def)
  show ?thesis
  proof (rule sound_butI)
    fix x' assume "x' \<notin> {x}" "without_replaced r c y x x' = Some []"
    then show "x' \<notin> Domain (relate x y R)"
      using sound_but_miss [OF s(1), of x'] without_replaced_sub by (fastforce simp: relate_def)
  next
    fix x' y' assume h: "x' \<notin> {x}" "without_replaced r c y x x' = Some y'" "y' \<noteq> []"
    from without_replaced_sub [OF h(2)] have c: "c x' = Some y'" .
    with sound_but_hit [OF s(1) _ _ h(3)] have hit: "(x', y') \<in> R" "r y' = Some x'" by auto
    have "y' \<noteq> y"
      using without_replaced_gone [of r y x' x c] h c hit one_to_oneD(1) [OF one hit(1)] by auto
    with hit h(1) without_replaced_other [where r = r and k = y' and v = x' and x = x and c = c and y = y] show "(x', y') \<in> relate x y R \<and> y' \<notin> {y} \<and> without_replaced c r x y y' = Some x'"
      by (auto simp: relate_def)
  qed
qed

lemma coherent_replaced:
  assumes "coherent_but {} {} R c r" and "one_to_one R"
  shows "coherent_but {x} {y} (relate x y R) (without_replaced r c y x) (without_replaced c r x y)"
  using sound_replaced [OF assms] sound_replaced [OF coherent_converse [OF assms(1)] one_to_one_converse [OF assms(2)]]
  by (simp add: coherent_but_def relate_converse)

lemma drop_replaced_maps:
  assumes "x \<noteq> []" and "y \<noteq> []" and "drop_replaced y x pc lc = (pc', lc')"
  shows "map_of pc' = without_replaced (map_of lc) (map_of pc) y x" and "map_of lc' = without_replaced (map_of pc) (map_of lc) x y"
    and "length pc' \<le> length pc" and "length lc' \<le> length lc" and "amap pc \<Longrightarrow> amap pc'" and "amap lc \<Longrightarrow> amap lc'"
proof -
  define lc1 where "lc1 = (if entry pc x \<noteq> [] \<and> entry pc x \<noteq> y \<and> entry lc (entry pc x) = x then adel (entry pc x) lc else lc)"
  have e: "entry m k = v \<longleftrightarrow> map_of m k = Some v" if "v \<noteq> []" for m k v
    using that by (auto simp: entry_def split: option.splits)
  have lc1: "map_of lc1 = without_replaced (map_of pc) (map_of lc) x y"
    using assms(1) by (auto simp: lc1_def without_replaced_def e) (auto simp: entry_def split: option.splits)
  have "map_of lc1 y = map_of lc y" by (auto simp: lc1_def)
  then have y: "entry lc1 y = entry lc y" by (simp add: entry_def)
  from assms(3) have out: "lc' = lc1" "pc' = (if entry lc y \<noteq> [] \<and> entry lc y \<noteq> x \<and> entry pc (entry lc y) = y then adel (entry lc y) pc else pc)"
    unfolding drop_replaced_def Let_def lc1_def [symmetric] y by simp_all
  show "map_of pc' = without_replaced (map_of lc) (map_of pc) y x"
    using assms(2) by (auto simp: out without_replaced_def e) (auto simp: entry_def split: option.splits)
  show "map_of lc' = without_replaced (map_of pc) (map_of lc) x y" by (simp add: out lc1)
  show "length pc' \<le> length pc" "length lc' \<le> length lc" by (simp_all add: out lc1_def adel_def)
  show "amap pc \<Longrightarrow> amap pc'" "amap lc \<Longrightarrow> amap lc'" by (simp_all add: out lc1_def)
qed

section \<open>Room, mappings and misses\<close>

lemma length_adel_le: "length (adel k m) \<le> length m"
  by (simp add: adel_def)

lemma evict_coherent:
  assumes "coherent_but A B R (map_of c) (map_of r)" and "A \<inter> fst ` set c = {}" and "amap c" and "amap r"
    and "evictLIDCacheEntry pick c r = (c', r')"
  shows "coherent_but A B R (map_of c') (map_of r') \<and> amap c' \<and> amap r' \<and> length c' \<le> length c \<and> length r' \<le> length r"
proof (cases "c = []")
  case True
  with assms show ?thesis by (simp add: evictLIDCacheEntry_def)
next
  case False
  obtain x y where xy: "c ! (pick c mod length c) = (x, y)" by fastforce
  then have "(x, y) \<in> set c" using False by (metis length_greater_0_conv mod_less_divisor nth_mem)
  then have c: "map_of c x = Some y" using assms(3) by (simp add: amap_def)
  have "x \<in> fst ` set c" using \<open>(x, y) \<in> set c\<close> by (rule rev_image_eqI) simp
  then have x: "x \<notin> A" using assms(2) by blast
  have "sound_but A B R (map_of c) (map_of r)" using assms(1) by (simp add: coherent_but_def)
  from sound_but_hit [OF this x c] have r: "y \<noteq> [] \<Longrightarrow> map_of r y = Some x" by blast
  have "(if y \<noteq> [] \<and> entry r y = x then adel y r else r) = (if y \<noteq> [] then adel y r else r)"
    using r by (simp add: entry_def)
  then have out: "c' = adel x c" "r' = (if y \<noteq> [] then adel y r else r)"
    using assms(5) False by (simp_all add: evictLIDCacheEntry_def xy)
  have "map_of r' = (if y \<noteq> [] then (map_of r)(y := None) else map_of r)" by (simp add: out)
  with coherent_forget [OF assms(1) c x] have "coherent_but A B R (map_of c') (map_of r')" by (simp add: out(1))
  moreover have "amap c'" "amap r'" using assms(3,4) by (simp_all add: out)
  moreover have "length c' \<le> length c" "length r' \<le> length r" by (simp_all add: out length_adel_le)
  ultimately show ?thesis by blast
qed

lemma make_room_coherent:
  assumes "coherent_but A B R (map_of c) (map_of r)" and "A \<subseteq> {k}" and "amap c" and "amap r" and "make_room pick k c r = (c', r')"
  shows "coherent_but A B R (map_of c') (map_of r') \<and> amap c' \<and> amap r' \<and> length c' \<le> length c \<and> length r' \<le> length r"
proof (cases "map_of c k = None \<and> maxLIDCacheEntries \<le> length c")
  case True
  then have "A \<inter> fst ` set c = {}" using assms(2) by (auto simp: map_of_eq_None_fst)
  with evict_coherent [OF assms(1) _ assms(3,4)] assms(5) True show ?thesis by (simp add: make_room_def)
next
  case False
  with assms show ?thesis by (simp add: make_room_def split: if_splits)
qed

lemma length_aset_map: "length (aset k v m) = (if map_of m k = None then Suc (length m) else length m)"
  by (simp add: length_aset_present length_aset_absent)

lemma cacheMapping_coherent:
  assumes coh: "coherent_but {} {} R (map_of (pnToLIDCache s)) (map_of (lidToPNCache s))" and one: "one_to_one R"
    and am: "amap (pnToLIDCache s)" "amap (lidToPNCache s)" and ne: "pn \<noteq> []" "lid \<noteq> []"
    and s': "s' = cacheMappingLocked pick lid pn s"
  shows "coherent_but {} {} (relate pn lid R) (map_of (pnToLIDCache s')) (map_of (lidToPNCache s')) \<and>
    amap (pnToLIDCache s') \<and> amap (lidToPNCache s') \<and> lm_db s' = lm_db s \<and> cacheFilled s' = cacheFilled s"
proof -
  obtain pc1 lc1 where 1: "drop_replaced lid pn (pnToLIDCache s) (lidToPNCache s) = (pc1, lc1)" by fastforce
  obtain pc2 lc2 where 2: "make_room pick pn pc1 lc1 = (pc2, lc2)" by fastforce
  obtain lc3 pc3 where 3: "make_room pick lid lc2 pc2 = (lc3, pc3)" by fastforce
  note d = drop_replaced_maps [OF ne 1]
  have "coherent_but {pn} {lid} (relate pn lid R) (map_of pc1) (map_of lc1)" unfolding d by (rule coherent_replaced [OF coh one])
  from make_room_coherent [OF this subset_refl d(5) [OF am(1)] d(6) [OF am(2)] 2]
  have r: "coherent_but {pn} {lid} (relate pn lid R) (map_of pc2) (map_of lc2)" "amap pc2" "amap lc2" by blast+
  from make_room_coherent [OF coherent_converse [OF r(1)] subset_refl r(3,2) 3]
  have t: "coherent_but {lid} {pn} ((relate pn lid R)\<inverse>) (map_of lc3) (map_of pc3)" "amap lc3" "amap pc3" by blast+
  have "(pn, lid) \<in> relate pn lid R" by (simp add: relate_def)
  with coherent_add [OF coherent_converse [OF t(1), unfolded converse_converse]] one_to_one_relate [OF one ne]
  have "coherent_but {} {} (relate pn lid R) ((map_of pc3)(pn \<mapsto> lid)) ((map_of lc3)(lid \<mapsto> pn))" by blast
  with t(2,3) show ?thesis by (simp add: s' cacheMappingLocked_def 1 2 3)
qed

text \<open>With room in both caches nothing is evicted.\<close>

lemma cacheMapping_room:
  assumes ne: "pn \<noteq> []" "lid \<noteq> []" and room: "length (pnToLIDCache s) < maxLIDCacheEntries" "length (lidToPNCache s) < maxLIDCacheEntries"
    and s': "s' = cacheMappingLocked pick lid pn s"
  shows "map_of (pnToLIDCache s') = (without_replaced (map_of (lidToPNCache s)) (map_of (pnToLIDCache s)) lid pn)(pn \<mapsto> lid)"
    and "length (pnToLIDCache s') \<le> Suc (length (pnToLIDCache s))" and "length (lidToPNCache s') \<le> Suc (length (lidToPNCache s))"
proof -
  obtain pc1 lc1 where 1: "drop_replaced lid pn (pnToLIDCache s) (lidToPNCache s) = (pc1, lc1)" by fastforce
  note d = drop_replaced_maps [OF ne 1]
  from room d(3,4) have "make_room pick pn pc1 lc1 = (pc1, lc1)" "make_room pick lid lc1 pc1 = (lc1, pc1)"
    by (simp_all add: make_room_def)
  then have out: "pnToLIDCache s' = aset pn lid pc1" "lidToPNCache s' = aset lid pn lc1"
    by (simp_all add: s' cacheMappingLocked_def 1)
  show "map_of (pnToLIDCache s') = (without_replaced (map_of (lidToPNCache s)) (map_of (pnToLIDCache s)) lid pn)(pn \<mapsto> lid)"
    by (simp add: out d(1))
  show "length (pnToLIDCache s') \<le> Suc (length (pnToLIDCache s))" "length (lidToPNCache s') \<le> Suc (length (lidToPNCache s))"
    using d(3,4) length_aset_le [of pn lid pc1] length_aset_le [of lid pn lc1] by (simp_all add: out)
qed

lemma cacheMiss_coherent:
  assumes "coherent_but {} {} R (map_of c) (map_of r)" and "amap c" and "amap r" and "x \<notin> Domain R"
    and "cacheMissLocked pick x c r = (c', r')"
  shows "coherent_but {} {} R (map_of c') (map_of r') \<and> amap c' \<and> amap r'"
proof (cases "map_of c x = None")
  case False
  with assms show ?thesis by (simp add: cacheMissLocked_def)
next
  case True
  obtain c1 r1 where 1: "make_room pick x c r = (c1, r1)" by fastforce
  have "map_of c1 x = None"
    using 1 True by (auto simp: make_room_def evictLIDCacheEntry_def Let_def split: if_splits prod.splits)
  moreover note m = make_room_coherent [OF assms(1) _ assms(2,3) 1]
  moreover have "c' = aset x [] c1" "r' = r1" using assms(5) 1 True
    by (auto simp: cacheMissLocked_def make_room_def split: if_splits)
  ultimately show ?thesis using coherent_miss [OF _ assms(4)] by simp
qed

section \<open>The invariant\<close>

definition rows_ok :: "(string \<times> string) list \<Rightarrow> bool" where
  "rows_ok rows \<longleftrightarrow> distinct (map fst rows) \<and> distinct (map snd rows) \<and> [] \<notin> fst ` set rows \<and> [] \<notin> snd ` set rows"

definition lid_rel :: "CachedLIDMap \<Rightarrow> (string \<times> string) set" where
  "lid_rel s = (set (lid_rows (lm_db s)))\<inverse>"

definition lid_inv :: "CachedLIDMap \<Rightarrow> bool" where
  "lid_inv s \<longleftrightarrow>
     rows_ok (lid_rows (lm_db s)) \<and> amap (pnToLIDCache s) \<and> amap (lidToPNCache s) \<and>
     coherent_but {} {} (lid_rel s) (map_of (pnToLIDCache s)) (map_of (lidToPNCache s)) \<and>
     (cacheFilled s \<longrightarrow> (\<forall>(pn, lid) \<in> lid_rel s. map_of (pnToLIDCache s) pn = Some lid))"

lemma distinct_fst_eq: "distinct (map fst rows) \<Longrightarrow> (a, b) \<in> set rows \<Longrightarrow> (a, b') \<in> set rows \<Longrightarrow> b = b'"
  by (rule eq_key_imp_eq_value)

lemma distinct_snd_eq: "distinct (map snd rows) \<Longrightarrow> (a, b) \<in> set rows \<Longrightarrow> (a', b) \<in> set rows \<Longrightarrow> a = a'"
  unfolding distinct_map inj_on_def by fastforce

lemma rows_one_to_one:
  assumes "rows_ok rows"
  shows "one_to_one ((set rows)\<inverse>)"
proof -
  have d: "distinct (map fst rows)" "distinct (map snd rows)" and ne: "[] \<notin> fst ` set rows" "[] \<notin> snd ` set rows"
    using assms by (simp_all add: rows_ok_def)
  have "single_valued ((set rows)\<inverse>)" "single_valued (set rows)"
    unfolding single_valued_def using distinct_fst_eq [OF d(1)] distinct_snd_eq [OF d(2)] by blast+
  moreover have "[] \<notin> Domain ((set rows)\<inverse>)" "[] \<notin> Range ((set rows)\<inverse>)" using ne by force+
  ultimately show ?thesis by (simp add: one_to_one_def)
qed

lemma lid_inv_one: "lid_inv s \<Longrightarrow> one_to_one (lid_rel s)"
  by (simp add: lid_inv_def lid_rel_def rows_one_to_one)

lemma lookup_rows:
  assumes "rows_ok rows"
  shows "map_of rows l = Some p \<longleftrightarrow> (p, l) \<in> (set rows)\<inverse>" and "map_of (map prod.swap rows) p = Some l \<longleftrightarrow> (p, l) \<in> (set rows)\<inverse>"
proof -
  have d: "distinct (map fst rows)" "distinct (map snd rows)" using assms by (simp_all add: rows_ok_def)
  show "map_of rows l = Some p \<longleftrightarrow> (p, l) \<in> (set rows)\<inverse>" by (simp add: map_of_eq_Some_iff [OF d(1)])
  have "map fst (map prod.swap rows) = map snd rows" by simp
  then have "map_of (map prod.swap rows) p = Some l \<longleftrightarrow> (p, l) \<in> set (map prod.swap rows)"
    using d(2) by (metis map_of_eq_Some_iff)
  also have "\<dots> \<longleftrightarrow> (l, p) \<in> set rows" by force
  finally show "map_of (map prod.swap rows) p = Some l \<longleftrightarrow> (p, l) \<in> (set rows)\<inverse>" by simp
qed

lemma lookup_none:
  assumes "rows_ok rows"
  shows "map_of rows l = None \<longleftrightarrow> l \<notin> Range ((set rows)\<inverse>)" and "map_of (map prod.swap rows) p = None \<longleftrightarrow> p \<notin> Domain ((set rows)\<inverse>)"
  using lookup_rows [OF assms] by (metis Range.intros Range.cases option.exhaust option.distinct(1), metis Domain.intros Domain.cases option.exhaust option.distinct(1))

section \<open>The specification\<close>

text \<open>The table as a map in each direction; a new mapping replaces those of its number and of its identifier.\<close>

type_synonym lid_spec = "(string \<rightharpoonup> string) \<times> (string \<rightharpoonup> string)"

datatype lid_call = GetLID JID | GetPN JID | PutLID JID JID | Fill

datatype lid_answer = LJid JID | LDone

definition put_pair :: "string \<Rightarrow> string \<Rightarrow> (string \<rightharpoonup> string) \<Rightarrow> (string \<rightharpoonup> string)" where
  "put_pair x y m k = (if k = x then Some y else if m k = Some y then None else m k)"

definition translated :: "string \<Rightarrow> JID \<Rightarrow> string option \<Rightarrow> JID" where
  "translated server jid user =
     (case user of None \<Rightarrow> EmptyJID | Some u \<Rightarrow> EmptyJID\<lparr>User := u, Device := Device jid, Server := server\<rparr>)"

fun lid_spec :: "lid_call \<Rightarrow> lid_spec \<Rightarrow> lid_answer \<times> lid_spec" where
  "lid_spec (GetLID pn) (p2l, l2p) = (LJid (translated HiddenUserServer pn (p2l (User pn))), p2l, l2p)"
| "lid_spec (GetPN lid) (p2l, l2p) = (LJid (translated DefaultUserServer lid (l2p (User lid))), p2l, l2p)"
| "lid_spec (PutLID lid pn) (p2l, l2p) =
     (LDone, put_pair (User pn) (User lid) p2l, put_pair (User lid) (User pn) l2p)"
| "lid_spec Fill (p2l, l2p) = (LDone, p2l, l2p)"

fun lid_answered :: "('a \<Rightarrow> lid_answer) \<Rightarrow> (lid_error + 'a) \<times> CachedLIDMap \<Rightarrow> lid_answer option \<times> CachedLIDMap" where
  "lid_answered f (Inl e, s) = (None, s)"
| "lid_answered f (Inr x, s) = (Some (f x), s)"

fun lid_step :: "lid_pick \<Rightarrow> lid_call \<Rightarrow> CachedLIDMap \<Rightarrow> lid_answer option \<times> CachedLIDMap" where
  "lid_step pick (GetLID pn) s = lid_answered LJid (GetLIDForPN pick pn s)"
| "lid_step pick (GetPN lid) s = lid_answered LJid (GetPNForLID pick lid s)"
| "lid_step pick (PutLID lid pn) s = lid_answered (\<lambda>_. LDone) (PutLIDMapping pick lid pn s)"
| "lid_step pick Fill s = lid_answered (\<lambda>_. LDone) (FillCache pick s)"

definition lid_view :: "CachedLIDMap \<Rightarrow> lid_spec" where
  "lid_view s = (map_of (map prod.swap (lid_rows (lm_db s))), map_of (lid_rows (lm_db s)))"

text \<open>
  Mappings have users, the commit of a transaction whose statements succeeded succeeds, and a cache
  that holds the whole table is not full.
\<close>

fun lid_safe :: "lid_call \<Rightarrow> CachedLIDMap \<Rightarrow> bool" where
  "lid_safe (PutLID lid pn) s \<longleftrightarrow>
     User lid \<noteq> [] \<and> User pn \<noteq> [] \<and> \<not> db_fails (lm_db s) (db_clock (lm_db s) + 3) \<and>
     (cacheFilled s \<longrightarrow> length (pnToLIDCache s) < maxLIDCacheEntries \<and> length (lidToPNCache s) < maxLIDCacheEntries)"
| "lid_safe _ s \<longleftrightarrow> True"

section \<open>Lookups answer from the table\<close>

abbreviation rows_of :: "CachedLIDMap \<Rightarrow> (string \<times> string) list" where
  "rows_of s \<equiv> lid_rows (lm_db s)"

definition found_user :: "string \<Rightarrow> string option" where
  "found_user u = (if u = [] then None else Some u)"

lemma lid_invD:
  assumes "lid_inv s"
  shows "rows_ok (rows_of s)" and "amap (pnToLIDCache s)" and "amap (lidToPNCache s)"
    and "coherent_but {} {} (lid_rel s) (map_of (pnToLIDCache s)) (map_of (lidToPNCache s))"
    and "cacheFilled s \<Longrightarrow> (pn, lid) \<in> lid_rel s \<Longrightarrow> map_of (pnToLIDCache s) pn = Some lid"
  using assms unfolding lid_inv_def by blast+

text \<open>A map that is sound for the relation, and total on it where it has no entry, answers as the relation does.\<close>

lemma sound_answer:
  assumes "sound_but {} {} R c r" and "\<And>x y. m x = Some y \<longleftrightarrow> (x, y) \<in> R" and "c u \<noteq> None \<or> (\<forall>y. (u, y) \<in> R \<longrightarrow> c u = Some y)"
  shows "found_user (case c u of None \<Rightarrow> [] | Some v \<Rightarrow> v) = m u"
proof (cases "c u")
  case None
  with assms(3) have "\<And>y. (u, y) \<notin> R" by simp
  then have "m u = None" using assms(2) by (cases "m u") auto
  with None show ?thesis by (simp add: found_user_def)
next
  case (Some v)
  show ?thesis
  proof (cases "v = []")
    case True
    with Some sound_but_miss [OF assms(1)] have "u \<notin> Domain R" by blast
    then have "m u = None" using assms(2) by (cases "m u") auto
    with Some True show ?thesis by (simp add: found_user_def)
  next
    case False
    with Some sound_but_hit [OF assms(1)] have "(u, v) \<in> R" by blast
    then have "m u = Some v" using assms(2) by blast
    with Some False show ?thesis by (simp add: found_user_def)
  qed
qed

lemma cached_answer:
  assumes inv: "lid_inv s"
  shows "map_of (pnToLIDCache s) u \<noteq> None \<or> cacheFilled s \<Longrightarrow> found_user (entry (pnToLIDCache s) u) = fst (lid_view s) u"
    and "map_of (lidToPNCache s) u \<noteq> None \<or> cacheFilled s \<Longrightarrow> found_user (entry (lidToPNCache s) u) = snd (lid_view s) u"
proof -
  note i = lid_invD [OF inv]
  have s: "sound_but {} {} (lid_rel s) (map_of (pnToLIDCache s)) (map_of (lidToPNCache s))"
    "sound_but {} {} ((lid_rel s)\<inverse>) (map_of (lidToPNCache s)) (map_of (pnToLIDCache s))"
    using i(4) by (simp_all add: coherent_but_def)
  have m: "\<And>x y. fst (lid_view s) x = Some y \<longleftrightarrow> (x, y) \<in> lid_rel s" "\<And>x y. snd (lid_view s) x = Some y \<longleftrightarrow> (x, y) \<in> (lid_rel s)\<inverse>"
    using lookup_rows [OF i(1)] by (simp_all add: lid_view_def lid_rel_def)
  show "found_user (entry (pnToLIDCache s) u) = fst (lid_view s) u" if "map_of (pnToLIDCache s) u \<noteq> None \<or> cacheFilled s"
    unfolding entry_def using that i(5) by (intro sound_answer [OF s(1) m(1)]) blast
  have "map_of (lidToPNCache s) u = Some p" if "cacheFilled s" "(u, p) \<in> (lid_rel s)\<inverse>" for p
    using sound_but_hit [OF s(1), of p u] i(5) [OF that(1), of p u] that(2) one_to_oneD(2) [OF lid_inv_one [OF inv], of p u] by simp
  then show "found_user (entry (lidToPNCache s) u) = snd (lid_view s) u" if "map_of (lidToPNCache s) u \<noteq> None \<or> cacheFilled s"
    unfolding entry_def using that by (intro sound_answer [OF s(2) m(2)]) blast
qed

lemma lid_inv_caches:
  assumes "lid_inv s" and "rows_of s' = rows_of s" and "\<not> cacheFilled s'"
    and "coherent_but {} {} (lid_rel s) (map_of (pnToLIDCache s')) (map_of (lidToPNCache s'))"
    and "amap (pnToLIDCache s')" and "amap (lidToPNCache s')"
  shows "lid_inv s' \<and> lid_view s' = lid_view s"
  using assms by (simp add: lid_inv_def lid_view_def lid_rel_def)

definition remember_miss :: "lid_pick \<Rightarrow> bool \<Rightarrow> string \<Rightarrow> CachedLIDMap \<Rightarrow> CachedLIDMap" where
  "remember_miss pick toLID u s =
     (if toLID then
        (let (pc, lc) = cacheMissLocked pick u (pnToLIDCache s) (lidToPNCache s) in s\<lparr>pnToLIDCache := pc, lidToPNCache := lc\<rparr>)
      else
        (let (lc, pc) = cacheMissLocked pick u (lidToPNCache s) (pnToLIDCache s) in s\<lparr>pnToLIDCache := pc, lidToPNCache := lc\<rparr>))"

abbreviation direction :: "bool \<Rightarrow> lid_spec \<Rightarrow> string \<rightharpoonup> string" where
  "direction toLID v \<equiv> if toLID then fst v else snd v"

abbreviation target_server :: "bool \<Rightarrow> string" where
  "target_server toLID \<equiv> if toLID then HiddenUserServer else DefaultUserServer"

lemma view_nonempty: "lid_inv s \<Longrightarrow> direction toLID (lid_view s) u = Some t \<Longrightarrow> t \<noteq> []"
  using lookup_rows [OF lid_invD(1)] one_to_oneD(1,2) [OF lid_inv_one] by (auto simp: lid_view_def lid_rel_def split: if_splits)

lemma getLIDMapping_cached:
  assumes inv: "lid_inv s" and "map_of (if toLID then pnToLIDCache s else lidToPNCache s) (User j) \<noteq> None \<or> cacheFilled s"
  shows "getLIDMapping pick toLID j s = (Inr (translated (target_server toLID) j (direction toLID (lid_view s) (User j))), s)"
proof -
  have a: "direction toLID (lid_view s) (User j) = found_user (entry (if toLID then pnToLIDCache s else lidToPNCache s) (User j))"
    using cached_answer [OF inv, of "User j"] assms(2) by (cases toLID) (simp_all del: not_None_eq)
  show ?thesis unfolding a getLIDMapping_def Let_def translated_def found_user_def using assms(2) by simp
qed

lemma getLIDMapping_queried:
  assumes inv: "lid_inv s" and "\<not> (map_of (if toLID then pnToLIDCache s else lidToPNCache s) (User j) \<noteq> None \<or> cacheFilled s)"
  defines "s1 \<equiv> s\<lparr>lm_db := tick (lm_db s)\<rparr>"
  shows "getLIDMapping pick toLID j s =
    (if db_fails (lm_db s) (db_clock (lm_db s)) then (Inl (LidDb DbFailed), s1)
     else case direction toLID (lid_view s) (User j) of
       None \<Rightarrow> (Inr EmptyJID, remember_miss pick toLID (User j) s1)
     | Some t \<Rightarrow> (Inr (translated (target_server toLID) j (Some t)),
         cacheMappingLocked pick (if toLID then t else User j) (if toLID then User j else t) s1))"
proof -
  let ?q = "\<lambda>d. map_of (if toLID then map prod.swap (lid_rows d) else lid_rows d) (User j)"
  have q: "?q (lm_db s) = direction toLID (lid_view s) (User j)" by (simp add: lid_view_def)
  have "on_lid_db (sql_query ?q) s =
      (if db_fails (lm_db s) (db_clock (lm_db s)) then Inl (LidDb DbFailed) else Inr (direction toLID (lid_view s) (User j)), s1)"
    unfolding on_lid_db_def sql_query_def q by (simp add: s1_def)
  with assms(2) view_nonempty [OF inv, of toLID "User j"] show ?thesis
    unfolding getLIDMapping_def Let_def
    by (cases toLID; cases "direction toLID (lid_view s) (User j)")
      (auto simp: sbind_def remember_miss_def translated_def split: prod.splits)
qed

lemma remember_miss_ok:
  assumes inv: "lid_inv s" and "\<not> cacheFilled s" and miss: "direction toLID (lid_view s) u = None"
  shows "lid_inv (remember_miss pick toLID u s) \<and> lid_view (remember_miss pick toLID u s) = lid_view s"
proof (cases toLID)
  case True
  obtain pc lc where m: "cacheMissLocked pick u (pnToLIDCache s) (lidToPNCache s) = (pc, lc)" by fastforce
  have "u \<notin> Domain (lid_rel s)" using miss True lookup_none(2) [OF lid_invD(1) [OF inv]] by (simp add: lid_view_def lid_rel_def)
  from cacheMiss_coherent [OF lid_invD(4) [OF inv] lid_invD(2,3) [OF inv] this m] assms(2) show ?thesis
    by (intro lid_inv_caches [OF inv]) (simp_all add: remember_miss_def True m)
next
  case False
  obtain lc pc where m: "cacheMissLocked pick u (lidToPNCache s) (pnToLIDCache s) = (lc, pc)" by fastforce
  have "u \<notin> Domain ((lid_rel s)\<inverse>)" using miss False lookup_none(1) [OF lid_invD(1) [OF inv]] by (simp add: lid_view_def lid_rel_def)
  from cacheMiss_coherent [OF coherent_converse [OF lid_invD(4) [OF inv]] lid_invD(3,2) [OF inv] this m]
  have "coherent_but {} {} (lid_rel s) (map_of pc) (map_of lc) \<and> amap pc \<and> amap lc"
    using coherent_converse [of "{}" "{}" "(lid_rel s)\<inverse>"] by simp
  with assms(2) show ?thesis by (intro lid_inv_caches [OF inv]) (simp_all add: remember_miss_def False m)
qed

lemma remember_row_ok:
  assumes inv: "lid_inv s" and nf: "\<not> cacheFilled s" and row: "(pn, lid) \<in> lid_rel s"
  shows "lid_inv (cacheMappingLocked pick lid pn s) \<and> lid_view (cacheMappingLocked pick lid pn s) = lid_view s"
proof -
  note one = lid_inv_one [OF inv]
  from cacheMapping_coherent [OF lid_invD(4) [OF inv] one lid_invD(2,3) [OF inv] one_to_oneD(1,2) [OF one row] refl, of pick] nf
  show ?thesis unfolding relate_known [OF one row] by (intro lid_inv_caches [OF inv]) simp_all
qed

lemma lid_inv_tick: "lid_inv s \<Longrightarrow> lid_inv (s\<lparr>lm_db := tick (lm_db s)\<rparr>)" "lid_view (s\<lparr>lm_db := tick (lm_db s)\<rparr>) = lid_view s"
  by (simp_all add: lid_inv_def lid_view_def lid_rel_def tick_def)

lemma getLIDMapping_ok:
  assumes inv: "lid_inv s" and run: "getLIDMapping pick toLID j s = (r, s')"
  shows "lid_inv s' \<and> lid_view s' = lid_view s \<and>
    (\<forall>x. r = Inr x \<longrightarrow> x = translated (target_server toLID) j (direction toLID (lid_view s) (User j)))"
proof (cases "map_of (if toLID then pnToLIDCache s else lidToPNCache s) (User j) \<noteq> None \<or> cacheFilled s")
  case True
  from getLIDMapping_cached [OF inv True, of pick] run inv show ?thesis by simp
next
  case False
  let ?s1 = "s\<lparr>lm_db := tick (lm_db s)\<rparr>"
  note q = getLIDMapping_queried [OF inv False, of pick]
  note inv1 = lid_inv_tick(1) [OF inv] and view1 = lid_inv_tick(2) [of s]
  have nf: "\<not> cacheFilled ?s1" using False by simp
  show ?thesis
  proof (cases "db_fails (lm_db s) (db_clock (lm_db s))")
    case True
    with q run inv1 view1 show ?thesis by simp
  next
    case ok: False
    show ?thesis
    proof (cases "direction toLID (lid_view s) (User j)")
      case None
      then have "direction toLID (lid_view ?s1) (User j) = None" unfolding view1 .
      from remember_miss_ok [OF inv1 nf this, of pick] None q run ok view1 show ?thesis by (simp add: translated_def)
    next
      case (Some t)
      then have "((if toLID then User j else t), (if toLID then t else User j)) \<in> lid_rel ?s1"
        using lookup_rows [OF lid_invD(1) [OF inv]] by (auto simp: lid_view_def lid_rel_def tick_def split: if_splits)
      from remember_row_ok [OF inv1 nf this, of pick] q run ok view1 Some show ?thesis by simp
    qed
  qed
qed

section \<open>Storing a mapping\<close>

lemma set_aset: "amap m \<Longrightarrow> set (aset k v m) = insert (k, v) {(a, b). (a, b) \<in> set m \<and> a \<noteq> k}"
  by (induction m) (force simp: amap_def)+

lemma rows_okI:
  assumes "amap rows" and "one_to_one ((set rows)\<inverse>)"
  shows "rows_ok rows"
proof -
  have "distinct rows" using assms(1) by (simp add: amap_def distinct_map)
  moreover have "inj_on snd (set rows)" using one_to_oneD(3) [OF assms(2)] unfolding inj_on_def by fastforce
  ultimately have "distinct (map snd rows)" by (simp add: distinct_map)
  moreover have "[] \<notin> fst ` set rows" "[] \<notin> snd ` set rows" using one_to_oneD(1,2) [OF assms(2)] by fastforce+
  ultimately show ?thesis using assms(1) by (simp add: rows_ok_def amap_def)
qed

definition put_rows :: "string \<Rightarrow> string \<Rightarrow> (string \<times> string) list \<Rightarrow> (string \<times> string) list" where
  "put_rows lid pn rows = aset lid pn (filter (\<lambda>(l, p). \<not> (l \<noteq> lid \<and> p = pn)) rows)"

lemma put_rows_ok:
  assumes "rows_ok rows" and "lid \<noteq> []" and "pn \<noteq> []"
  shows "rows_ok (put_rows lid pn rows)" and "(set (put_rows lid pn rows))\<inverse> = relate pn lid ((set rows)\<inverse>)"
proof -
  have am: "amap rows" using assms(1) by (simp add: rows_ok_def amap_def)
  then have amf: "amap (filter (\<lambda>(l, p). \<not> (l \<noteq> lid \<and> p = pn)) rows)" by (rule amap_filter)
  show rel: "(set (put_rows lid pn rows))\<inverse> = relate pn lid ((set rows)\<inverse>)"
    unfolding put_rows_def set_aset [OF amf] relate_def by auto
  have "one_to_one ((set (put_rows lid pn rows))\<inverse>)"
    unfolding rel by (rule one_to_one_relate [OF rows_one_to_one [OF assms(1)] assms(3,2)])
  moreover have "amap (put_rows lid pn rows)" unfolding put_rows_def by (rule amap_aset [OF amf])
  ultimately show "rows_ok (put_rows lid pn rows)" by (intro rows_okI)
qed

lemma map_eqI: "(\<And>x y. m x = Some y \<longleftrightarrow> m' x = Some y) \<Longrightarrow> m = m'"
  by (rule ext) (metis option.exhaust)

lemma put_pair_relate:
  assumes "\<And>a b. m a = Some b \<longleftrightarrow> (a, b) \<in> R"
  shows "put_pair x y m a = Some b \<longleftrightarrow> (a, b) \<in> relate x y R"
proof -
  have "(a, y) \<in> R \<Longrightarrow> (a, b) \<in> R \<Longrightarrow> b = y" using assms by (metis option.inject)
  then show ?thesis using assms by (auto simp: put_pair_def relate_def)
qed

lemma put_rows_view:
  assumes "rows_ok rows" and "lid \<noteq> []" and "pn \<noteq> []"
  shows "map_of (map prod.swap (put_rows lid pn rows)) = put_pair pn lid (map_of (map prod.swap rows))"
    and "map_of (put_rows lid pn rows) = put_pair lid pn (map_of rows)"
proof -
  note ok = put_rows_ok [OF assms]
  show "map_of (map prod.swap (put_rows lid pn rows)) = put_pair pn lid (map_of (map prod.swap rows))"
    by (rule map_eqI) (simp only: lookup_rows(2) [OF ok(1)] ok(2) put_pair_relate [OF lookup_rows(2) [OF assms(1)]])
  have l: "map_of rows a = Some b \<longleftrightarrow> (a, b) \<in> set rows" for a b using lookup_rows(1) [OF assms(1)] by simp
  have "map_of (put_rows lid pn rows) a = Some b \<longleftrightarrow> (a, b) \<in> (relate pn lid ((set rows)\<inverse>))\<inverse>" for a b
    unfolding lookup_rows(1) [OF ok(1)] ok(2) by simp
  then show "map_of (put_rows lid pn rows) = put_pair lid pn (map_of rows)"
    by (intro map_eqI) (simp add: put_pair_relate [OF l] relate_converse)
qed

text \<open>The statements of a transaction that stores one mapping.\<close>

lemma on_lid_exec:
  "on_lid_db (sql_exec f) s =
     (if db_fails (lm_db s) (db_clock (lm_db s)) then (Inl (LidDb DbFailed), s\<lparr>lm_db := tick (lm_db s)\<rparr>)
      else case f (lm_db s) of
        Inl e \<Rightarrow> (Inl (LidDb e), s\<lparr>lm_db := tick (lm_db s)\<rparr>)
      | Inr d \<Rightarrow> (Inr (), s\<lparr>lm_db := tick d\<rparr>))"
  by (simp add: on_lid_db_def sql_exec_def split: sum.split)

lemma lid_rows_simps [simp]: "lid_rows (tick d) = lid_rows d" "lid_rows (rolled_back a b) = lid_rows a"
  by (simp_all add: tick_def rolled_back_def)

lemma cacheMapping_db: "cacheMappingLocked pick lid pn (s\<lparr>lm_db := d\<rparr>) = (cacheMappingLocked pick lid pn s)\<lparr>lm_db := d\<rparr>"
  by (simp add: cacheMappingLocked_def split: prod.split)

lemma put_query:
  "putLIDMappingQuery lid pn (d\<lparr>lid_rows := filter (\<lambda>(l, p). l = lid \<or> p \<noteq> pn) rows, db_clock := c\<rparr>) =
     Inr (d\<lparr>lid_rows := put_rows lid pn rows, db_clock := c\<rparr>)"
  by (auto simp: putLIDMappingQuery_def put_rows_def)

lemma put_txn:
  assumes valid: "Server lid = HiddenUserServer" "Server pn = DefaultUserServer"
    and commit: "\<not> db_fails (lm_db s) (db_clock (lm_db s) + 3)"
    and run: "lid_DoTxn (unlockedPutLIDMapping pick lid pn) s = (r, s')"
  shows "(\<exists>e c. r = Inl e \<and> s' = s\<lparr>lm_db := (lm_db s)\<lparr>db_clock := c\<rparr>\<rparr>) \<or>
    (\<exists>c. r = Inr () \<and> s' = (cacheMappingLocked pick (User lid) (User pn) s)
       \<lparr>lm_db := (lm_db s)\<lparr>lid_rows := put_rows (User lid) (User pn) (rows_of s), db_clock := c\<rparr>\<rparr>)"
proof -
  let ?f = "db_fails (lm_db s)" and ?k = "db_clock (lm_db s)"
  show ?thesis
  proof (cases "?f ?k \<or> ?f (Suc ?k) \<or> ?f (Suc (Suc ?k))")
    case True
    then show ?thesis using run valid
      by (auto simp: lid_DoTxn_def unlockedPutLIDMapping_def on_lid_exec sbind_def deleteExistingLIDMappingQuery_def
          rolled_back_def tick_def put_query split: if_splits)
  next
    case False
    with commit run valid show ?thesis
      by (auto simp: lid_DoTxn_def unlockedPutLIDMapping_def on_lid_exec sbind_def deleteExistingLIDMappingQuery_def
          put_query cacheMapping_db numeral_3_eq_3 tick_def split: if_splits)
  qed
qed

lemma put_pair_same:
  assumes "rows_ok rows" and "(pn, lid) \<in> (set rows)\<inverse>"
  shows "put_pair pn lid (map_of (map prod.swap rows)) = map_of (map prod.swap rows)" and "put_pair lid pn (map_of rows) = map_of rows"
proof -
  note one = rows_one_to_one [OF assms(1)]
  have "put_pair pn lid (map_of (map prod.swap rows)) a = Some b \<longleftrightarrow> map_of (map prod.swap rows) a = Some b" for a b
    unfolding put_pair_relate [OF lookup_rows(2) [OF assms(1)]] relate_known [OF one assms(2)] lookup_rows(2) [OF assms(1)] ..
  then show "put_pair pn lid (map_of (map prod.swap rows)) = map_of (map prod.swap rows)" by (rule map_eqI)
  have l: "map_of rows a = Some b \<longleftrightarrow> (a, b) \<in> set rows" for a b using lookup_rows(1) [OF assms(1)] by simp
  have r: "relate lid pn (set rows) = set rows"
    using relate_known [OF one_to_one_converse [OF one], of lid pn] assms(2) by simp
  have "put_pair lid pn (map_of rows) a = Some b \<longleftrightarrow> map_of rows a = Some b" for a b
    unfolding put_pair_relate [OF l] r l ..
  then show "put_pair lid pn (map_of rows) = map_of rows" by (rule map_eqI)
qed

text \<open>The caches still hold the whole table after a mapping is stored, when there was room.\<close>

lemma complete_after:
  assumes complete: "\<And>p l. (p, l) \<in> R \<Longrightarrow> pc p = Some l" and sound: "sound_but {} {} (R\<inverse>) lc pc" and one: "one_to_one R"
    and "(p, l) \<in> relate pn lid R"
  shows "((without_replaced lc pc lid pn)(pn \<mapsto> lid)) p = Some l"
proof (cases "p = pn")
  case True
  with assms(4) show ?thesis by (auto simp: relate_def)
next
  case False
  with assms(4) have "(p, l) \<in> R" "l \<noteq> lid" by (auto simp: relate_def)
  with complete without_replaced_other [of pc p l lid lc pn] False show ?thesis by simp
qed

lemma PutLIDMapping_ok:
  assumes inv: "lid_inv s" and safe: "lid_safe (PutLID lid pn) s" and run: "PutLIDMapping pick lid pn s = (r, s')"
  shows "lid_inv s' \<and> (case r of
      Inl e \<Rightarrow> lid_view s' = lid_view s
    | Inr _ \<Rightarrow> lid_view s' = snd (lid_spec (PutLID lid pn) (lid_view s)))"
proof -
  note i = lid_invD [OF inv] and one = lid_inv_one [OF inv]
  have ne: "User lid \<noteq> []" "User pn \<noteq> []" using safe by simp_all
  have sound: "sound_but {} {} (lid_rel s) (map_of (pnToLIDCache s)) (map_of (lidToPNCache s))"
    "sound_but {} {} ((lid_rel s)\<inverse>) (map_of (lidToPNCache s)) (map_of (pnToLIDCache s))" using i(4) by (simp_all add: coherent_but_def)
  define valid where "valid \<longleftrightarrow> \<not> (Server lid \<noteq> HiddenUserServer \<or> Server pn \<noteq> DefaultUserServer)"
  define hit where "hit \<longleftrightarrow> map_of (pnToLIDCache s) (User pn) = Some (User lid)"
  have put: "PutLIDMapping pick lid pn s =
      (if \<not> valid then (Inl InvalidLIDCall, s) else if hit then (Inr (), s) else lid_DoTxn (unlockedPutLIDMapping pick lid pn) s)"
    unfolding PutLIDMapping_def valid_def hit_def by simp
  consider (invalid) "\<not> valid" | (known) valid hit | (txn) valid "\<not> hit" by blast
  then show ?thesis
  proof cases
    case invalid
    with put run have "r = Inl InvalidLIDCall" "s' = s" by simp_all
    with inv show ?thesis by simp
  next
    case known
    with put run have out: "r = Inr ()" "s' = s" by simp_all
    from sound_but_hit [OF sound(1) _ known(2) [unfolded hit_def] ne(1)] have "(User pn, User lid) \<in> (set (rows_of s))\<inverse>"
      by (simp add: lid_rel_def)
    from put_pair_same [OF i(1) this] out inv show ?thesis by (simp add: lid_view_def)
  next
    case txn
    with put run have t: "lid_DoTxn (unlockedPutLIDMapping pick lid pn) s = (r, s')" by simp
    have v: "Server lid = HiddenUserServer" "Server pn = DefaultUserServer" using txn(1) unfolding valid_def by blast+
    have "\<not> db_fails (lm_db s) (db_clock (lm_db s) + 3)" using safe by simp
    from put_txn [OF v this t] show ?thesis
    proof (elim disjE exE conjE)
      fix e c
      assume "r = Inl e" "s' = s\<lparr>lm_db := (lm_db s)\<lparr>db_clock := c\<rparr>\<rparr>"
      with inv show ?thesis by (simp add: lid_inv_def lid_view_def lid_rel_def)
    next
      fix c
      assume r: "r = Inr ()" and s': "s' = (cacheMappingLocked pick (User lid) (User pn) s)
        \<lparr>lm_db := (lm_db s)\<lparr>lid_rows := put_rows (User lid) (User pn) (rows_of s), db_clock := c\<rparr>\<rparr>"
      let ?s1 = "cacheMappingLocked pick (User lid) (User pn) s"
      note c = cacheMapping_coherent [OF i(4) one i(2,3) ne(2,1) refl, of pick]
      have rel: "lid_rel s' = relate (User pn) (User lid) (lid_rel s)" using put_rows_ok(2) [OF i(1) ne] by (simp add: lid_rel_def s')
      have "map_of (pnToLIDCache s') p = Some l" if filled: "cacheFilled s'" and pl: "(p, l) \<in> lid_rel s'" for p l
      proof -
        have f: "cacheFilled s" using filled c by (simp add: s')
        with safe have room: "length (pnToLIDCache s) < maxLIDCacheEntries" "length (lidToPNCache s) < maxLIDCacheEntries" by simp_all
        from cacheMapping_room(1) [OF ne(2,1) room refl, of pick] complete_after [OF i(5) [OF f] sound(2) one pl [unfolded rel]]
        show ?thesis by (simp add: s')
      qed
      then have complete: "cacheFilled s' \<longrightarrow> (\<forall>(pn, lid) \<in> lid_rel s'. map_of (pnToLIDCache s') pn = Some lid)" by fast
      have fields: "rows_of s' = put_rows (User lid) (User pn) (rows_of s)" "pnToLIDCache s' = pnToLIDCache ?s1"
        "lidToPNCache s' = lidToPNCache ?s1" by (simp_all add: s')
      have "rows_ok (rows_of s')" "amap (pnToLIDCache s')" "amap (lidToPNCache s')"
        "coherent_but {} {} (lid_rel s') (map_of (pnToLIDCache s')) (map_of (lidToPNCache s'))"
        unfolding fields rel using put_rows_ok(1) [OF i(1) ne] c by blast+
      with complete have "lid_inv s'" unfolding lid_inv_def by blast
      with r put_rows_view [OF i(1) ne] show ?thesis by (simp add: s' lid_view_def)
    qed
  qed
qed

section \<open>Filling the caches\<close>

definition caches_ok :: "(string \<times> string) set \<Rightarrow> CachedLIDMap \<Rightarrow> bool" where
  "caches_ok R s \<longleftrightarrow>
     coherent_but {} {} R (map_of (pnToLIDCache s)) (map_of (lidToPNCache s)) \<and> amap (pnToLIDCache s) \<and> amap (lidToPNCache s)"

lemma cacheMapping_known:
  assumes "caches_ok R s" and one: "one_to_one R" and row: "(pn, lid) \<in> R"
  shows "caches_ok R (cacheMappingLocked pick lid pn s)" and "lm_db (cacheMappingLocked pick lid pn s) = lm_db s"
  using cacheMapping_coherent [OF _ one _ _ one_to_oneD(1,2) [OF one row] refl, of s pick] assms(1)
  unfolding caches_ok_def relate_known [OF one row] by blast+

lemma scan_ok:
  assumes "caches_ok R s" and "one_to_one R" and "set rows \<subseteq> R\<inverse>"
  shows "caches_ok R (scanManyLids pick rows s) \<and> lm_db (scanManyLids pick rows s) = lm_db s"
  using assms
proof (induction rows arbitrary: s)
  case (Cons row rows)
  obtain lid pn where row: "row = (lid, pn)" by fastforce
  then have "(pn, lid) \<in> R" using Cons.prems(3) by auto
  note c = cacheMapping_known [OF Cons.prems(1,2) this, of pick]
  from Cons.prems(3) have "set rows \<subseteq> R\<inverse>" by simp
  from Cons.IH [OF c(1) Cons.prems(2) this] c(2) show ?case by (simp add: row scanManyLids_def)
qed (simp add: scanManyLids_def)

text \<open>With room for all the rows, every one of them ends up in the cache.\<close>

lemma cacheMapping_keeps:
  assumes "caches_ok R s" and one: "one_to_one R" and row: "(pn, lid) \<in> R"
    and room: "length (pnToLIDCache s) < maxLIDCacheEntries" "length (lidToPNCache s) < maxLIDCacheEntries"
    and pl: "(p, l) \<in> R" and "p = pn \<or> map_of (pnToLIDCache s) p = Some l"
  shows "map_of (pnToLIDCache (cacheMappingLocked pick lid pn s)) p = Some l"
proof (cases "p = pn")
  case True
  with one_to_oneD(3) [OF one row] pl have "l = lid" by blast
  with True cacheMapping_room(1) [OF one_to_oneD(1,2) [OF one row] room refl, of pick] show ?thesis by simp
next
  case False
  then have "l \<noteq> lid" using one_to_oneD(4) [OF one row] pl by blast
  with False assms(7) without_replaced_other [of "map_of (pnToLIDCache s)" p l lid "map_of (lidToPNCache s)" pn]
    cacheMapping_room(1) [OF one_to_oneD(1,2) [OF one row] room refl, of pick] show ?thesis by simp
qed

lemma scan_complete:
  assumes "caches_ok R s" and "one_to_one R" and "set rows \<subseteq> R\<inverse>"
    and "length (pnToLIDCache s) + length rows \<le> maxLIDCacheEntries" "length (lidToPNCache s) + length rows \<le> maxLIDCacheEntries"
    and "(p, l) \<in> R" and "(l, p) \<in> set rows \<or> map_of (pnToLIDCache s) p = Some l"
  shows "map_of (pnToLIDCache (scanManyLids pick rows s)) p = Some l"
  using assms
proof (induction rows arbitrary: s)
  case (Cons row rows)
  obtain lid pn where row: "row = (lid, pn)" by fastforce
  then have pn: "(pn, lid) \<in> R" using Cons.prems(3) by auto
  let ?s1 = "cacheMappingLocked pick lid pn s"
  have room: "length (pnToLIDCache s) < maxLIDCacheEntries" "length (lidToPNCache s) < maxLIDCacheEntries" using Cons.prems(4,5) by simp_all
  note r = cacheMapping_room(2,3) [OF one_to_oneD(1,2) [OF Cons.prems(2) pn] room refl, of pick]
  have "(l, p) \<in> set rows \<or> map_of (pnToLIDCache ?s1) p = Some l"
    using cacheMapping_keeps [OF Cons.prems(1,2) pn room Cons.prems(6), of pick] Cons.prems(7) row by auto
  moreover have "length (pnToLIDCache ?s1) + length rows \<le> maxLIDCacheEntries" "length (lidToPNCache ?s1) + length rows \<le> maxLIDCacheEntries"
    using r Cons.prems(4,5) by simp_all
  moreover have "set rows \<subseteq> R\<inverse>" using Cons.prems(3) by simp
  ultimately have "map_of (pnToLIDCache (scanManyLids pick rows ?s1)) p = Some l"
    using Cons.IH [OF cacheMapping_known(1) [OF Cons.prems(1,2) pn] Cons.prems(2)] Cons.prems(6) by blast
  then show ?case by (simp add: row scanManyLids_def)
qed (simp add: scanManyLids_def)

lemma FillCache_ok:
  assumes inv: "lid_inv s" and run: "FillCache pick s = (r, s')"
  shows "lid_inv s' \<and> lid_view s' = lid_view s"
proof -
  let ?s0 = "s\<lparr>pnToLIDCache := [], lidToPNCache := [], lm_db := tick (lm_db s)\<rparr>"
  note rows = lid_invD(1) [OF inv] and one = lid_inv_one [OF inv]
  have empty: "caches_ok (lid_rel s) ?s0" by (simp add: caches_ok_def coherent_but_def sound_but_def)
  have sub: "set (rows_of s) \<subseteq> (lid_rel s)\<inverse>" by (simp add: lid_rel_def)
  show ?thesis
  proof (cases "db_fails (lm_db s) (db_clock (lm_db s))")
    case True
    with run have "s' = ?s0\<lparr>cacheFilled := False\<rparr>" by (simp add: FillCache_def on_lid_db_def sql_query_def)
    with empty rows show ?thesis by (simp add: lid_inv_def lid_view_def lid_rel_def caches_ok_def)
  next
    case False
    define s1 where "s1 = scanManyLids pick (rows_of s) ?s0"
    from False run have s': "s' = s1\<lparr>cacheFilled := length (rows_of s) \<le> maxLIDCacheEntries\<rparr>"
      by (simp add: FillCache_def on_lid_db_def sql_query_def s1_def)
    from scan_ok [OF empty one sub, of pick] have c: "caches_ok (lid_rel s) s1" and db: "lm_db s1 = tick (lm_db s)"
      by (simp_all add: s1_def)
    have "map_of (pnToLIDCache s1) p = Some l" if "length (rows_of s) \<le> maxLIDCacheEntries" "(p, l) \<in> lid_rel s" for p l
      unfolding s1_def using that by (intro scan_complete [OF empty one sub]) (simp_all add: lid_rel_def)
    then have "length (rows_of s) \<le> maxLIDCacheEntries \<longrightarrow> (\<forall>(pn, lid) \<in> lid_rel s. map_of (pnToLIDCache s1) pn = Some lid)" by fast
    with c rows show ?thesis by (simp add: s' lid_inv_def lid_view_def caches_ok_def db lid_rel_def)
  qed
qed

section \<open>Runs\<close>

lemma lid_answered_cases:
  "lid_answered f (r, s) = (Some a, s') \<longleftrightarrow> (\<exists>y. r = Inr y \<and> a = f y \<and> s' = s)"
  "lid_answered f (r, s) = (None, s') \<longleftrightarrow> (\<exists>e. r = Inl e \<and> s' = s)"
  by (cases r; auto)+

text \<open>One operation: its answer is the specification's, and a failed one changes nothing in the table.\<close>

lemma lid_step_ok:
  assumes inv: "lid_inv s" and safe: "lid_safe op s" and run: "lid_step pick op s = (a, s')"
  shows "lid_inv s' \<and> (case a of Some x \<Rightarrow> lid_spec op (lid_view s) = (x, lid_view s') | None \<Rightarrow> lid_view s' = lid_view s)"
proof (cases op)
  case (GetLID pn)
  obtain r s1 where g: "GetLIDForPN pick pn s = (r, s1)" by fastforce
  show ?thesis
  proof (cases "Server pn = DefaultUserServer")
    case True
    with g have "getLIDMapping pick True pn s = (r, s1)" by (simp add: GetLIDForPN_def)
    from getLIDMapping_ok [OF inv this] run GetLID g show ?thesis
      by (cases r; cases "lid_view s") auto
  next
    case False
    with g run GetLID inv show ?thesis by (auto simp: GetLIDForPN_def)
  qed
next
  case (GetPN lid)
  obtain r s1 where g: "GetPNForLID pick lid s = (r, s1)" by fastforce
  show ?thesis
  proof (cases "Server lid = HiddenUserServer")
    case True
    with g have "getLIDMapping pick False lid s = (r, s1)" by (simp add: GetPNForLID_def)
    from getLIDMapping_ok [OF inv this] run GetPN g show ?thesis
      by (cases r; cases "lid_view s") auto
  next
    case False
    with g run GetPN inv show ?thesis by (auto simp: GetPNForLID_def)
  qed
next
  case (PutLID lid pn)
  obtain r s1 where g: "PutLIDMapping pick lid pn s = (r, s1)" by fastforce
  from PutLIDMapping_ok [OF inv _ g] safe run PutLID g show ?thesis
    by (cases r; cases "lid_view s") auto
next
  case Fill
  obtain r s1 where g: "FillCache pick s = (r, s1)" by fastforce
  from FillCache_ok [OF inv g] run Fill g show ?thesis by (cases r; cases "lid_view s") auto
qed

interpretation lids: op_refinement lid_inv lid_view lid_safe "lid_step pick" lid_spec for pick
proof
  fix op s r s'
  assume "lid_inv s" "lid_safe op s" "lid_step pick op s = (Some r, s')"
  from lid_step_ok [OF this] show "lid_inv s' \<and> lid_spec op (lid_view s) = (r, lid_view s')" by simp
next
  fix op s s'
  assume "lid_inv s" "lid_safe op s" "lid_step pick op s = (None, s')"
  from lid_step_ok [OF this] show "lid_inv s' \<and> lid_view s' = lid_view s" by simp
qed

text \<open>
  C27: The cached map of numbers and hidden identifiers refines a one-to-one relation. For every
  sequence of lookups in both directions, stored mappings and cache fills, with any failing
  statements but a failing commit, and any choice of evicted entries, each answer is the one the
  relation gives: the latest mapping stored for the number or the identifier, with the device of the
  address asked for, or none. Mappings have users, and while the caches are marked as holding the
  whole table there is room in them for a new mapping.
\<close>

theorem lid_map_refines_relation:
  assumes "rows_ok (lid_rows d)" and "all_safe lid_safe (lid_step pick) ops (NewCachedLIDMap d)"
    and "run_ops (lid_step pick) ops (NewCachedLIDMap d) = (rs, s')"
  shows "spec_ops lid_spec ops (map (\<lambda>r. r = None) rs) (map_of (map prod.swap (lid_rows d)), map_of (lid_rows d)) = (rs, lid_view s')"
proof -
  have "lid_inv (NewCachedLIDMap d)"
    using assms(1) by (simp add: lid_inv_def NewCachedLIDMap_def coherent_but_def sound_but_def)
  from lids.runs [OF this assms(2,3)] show ?thesis by (simp add: lid_view_def NewCachedLIDMap_def)
qed

section \<open>What the conditions leave out\<close>

definition demo_lid_db :: "(nat \<Rightarrow> bool) \<Rightarrow> lid_db" where
  "demo_lid_db fails = \<lparr>db_fails = fails, db_clock = 0, lid_rows = [(''7'', ''1'')]\<rparr>"

abbreviation (input) "demo_pn u \<equiv> EmptyJID\<lparr>User := u, Device := 3, Server := DefaultUserServer\<rparr>"
abbreviation (input) "demo_lid u \<equiv> EmptyJID\<lparr>User := u, Device := 3, Server := HiddenUserServer\<rparr>"

definition demo_at :: "nat \<Rightarrow> (string \<times> string) list \<Rightarrow> lid_cache \<Rightarrow> lid_cache \<Rightarrow> bool \<Rightarrow> CachedLIDMap" where
  "demo_at n rows pc lc filled =
     \<lparr>lm_db = \<lparr>db_fails = (\<lambda>n. n = 5), db_clock = n, lid_rows = rows\<rparr>, pnToLIDCache = pc, lidToPNCache = lc, cacheFilled = filled\<rparr>"

abbreviation (input) "old_row \<equiv> [(''7'', ''1'')]"
abbreviation (input) "old_pn \<equiv> [(''1'', ''7'')]"
abbreviation (input) "new_row \<equiv> [(''8'', ''1'')]"
abbreviation (input) "new_pn \<equiv> [(''1'', ''8'')]"

lemmas lid_eval = demo_at_def getLIDMapping_def cacheMappingLocked_def drop_replaced_def make_room_def entry_def on_lid_db_def
  sql_query_def sql_exec_def sbind_def tick_def adel_def EmptyJID_def Let_def

lemma demo_steps:
  "lid_step (\<lambda>_. 0) (GetLID (demo_pn ''1'')) (demo_at 0 old_row [] [] False) = (Some (LJid (demo_lid ''7'')), demo_at 1 old_row old_pn old_row False)"
  "lid_step (\<lambda>_. 0) (PutLID (demo_lid ''8'') (demo_pn ''1'')) (demo_at 1 old_row old_pn old_row False) = (Some LDone, demo_at 5 new_row new_pn new_row False)"
  "lid_step (\<lambda>_. 0) (GetPN (demo_lid ''7'')) (demo_at 5 new_row new_pn new_row False) = (None, demo_at 6 new_row new_pn new_row False)"
  "lid_step (\<lambda>_. 0) (GetPN (demo_lid ''8'')) (demo_at 6 new_row new_pn new_row False) = (Some (LJid (demo_pn ''1'')), demo_at 6 new_row new_pn new_row False)"
  "lid_step (\<lambda>_. 0) Fill (demo_at 6 new_row new_pn new_row False) = (Some LDone, demo_at 7 new_row new_pn new_row True)"
  by (simp_all add: lid_eval GetLIDForPN_def GetPNForLID_def PutLIDMapping_def lid_DoTxn_def unlockedPutLIDMapping_def
      deleteExistingLIDMappingQuery_def putLIDMappingQuery_def FillCache_def scanManyLids_def)

definition demo_lid_ops :: "lid_call list" where
  "demo_lid_ops = [GetLID (demo_pn ''1''), PutLID (demo_lid ''8'') (demo_pn ''1''), GetPN (demo_lid ''7''), GetPN (demo_lid ''8''), Fill]"

theorem lid_map_refines_relation_witness:
  "run_ops (lid_step (\<lambda>_. 0)) demo_lid_ops (NewCachedLIDMap (demo_lid_db (\<lambda>n. n = 5))) =
     ([Some (LJid (demo_lid ''7'')), Some LDone, None, Some (LJid (demo_pn ''1'')), Some LDone], demo_at 7 new_row new_pn new_row True) \<and>
   spec_ops lid_spec demo_lid_ops [False, False, True, False, False] (map_of old_pn, map_of old_row) =
     ([Some (LJid (demo_lid ''7'')), Some LDone, None, Some (LJid (demo_pn ''1'')), Some LDone], lid_view (demo_at 7 new_row new_pn new_row True))"
proof -
  let ?s = "NewCachedLIDMap (demo_lid_db (\<lambda>n. n = 5))"
  have s: "?s = demo_at 0 old_row [] [] False" by (simp add: NewCachedLIDMap_def demo_lid_db_def demo_at_def)
  have ok: "rows_ok (lid_rows (demo_lid_db (\<lambda>n. n = 5)))" by (simp add: rows_ok_def demo_lid_db_def)
  have "lid_safe (PutLID (demo_lid ''8'') (demo_pn ''1'')) (demo_at 1 old_row old_pn old_row False)" by (simp add: demo_at_def)
  then have safe: "all_safe lid_safe (lid_step (\<lambda>_. 0)) demo_lid_ops ?s"
    unfolding s demo_lid_ops_def all_safe.simps demo_steps snd_conv lid_safe.simps(2-4) by blast
  have run: "run_ops (lid_step (\<lambda>_. 0)) demo_lid_ops ?s =
      ([Some (LJid (demo_lid ''7'')), Some LDone, None, Some (LJid (demo_pn ''1'')), Some LDone], demo_at 7 new_row new_pn new_row True)"
    unfolding s demo_lid_ops_def run_ops.simps demo_steps Let_def prod.case ..
  from lid_map_refines_relation [OF ok safe run] run show ?thesis by (simp add: demo_lid_db_def)
qed

text \<open>
  When the commit of a stored mapping fails, the table is rolled back but the caches are not: a
  lookup answers with the mapping that was reported as failed, and storing it again does nothing.
\<close>

lemma failed_commit_leaves_mapping:
  "PutLIDMapping (\<lambda>_. 0) (demo_lid ''8'') (demo_pn ''1'') (demo_at 2 old_row [] [] False) =
     (Inl (LidDb DbFailed), demo_at 6 old_row new_pn new_row False)"
  "PutLIDMapping (\<lambda>_. 0) (demo_lid ''8'') (demo_pn ''1'') (demo_at 6 old_row new_pn new_row False) =
     (Inr (), demo_at 6 old_row new_pn new_row False)"
  "GetLIDForPN (\<lambda>_. 0) (demo_pn ''1'') (demo_at 6 old_row new_pn new_row False) =
     (Inr (demo_lid ''8''), demo_at 6 old_row new_pn new_row False)"
  by (simp_all add: lid_eval rolled_back_def GetLIDForPN_def PutLIDMapping_def lid_DoTxn_def unlockedPutLIDMapping_def
      deleteExistingLIDMappingQuery_def putLIDMappingQuery_def)

text \<open>
  Nothing resets \<open>cacheFilled\<close> when an entry is evicted: from then on the map denies a mapping that is
  in the table.
\<close>

lemma evicted_entry_denied:
  assumes "cacheFilled s" and "map_of (pnToLIDCache s) (User pn) = None" and "Server pn = DefaultUserServer"
  shows "GetLIDForPN pick pn s = (Inr EmptyJID, s)"
  using assms by (simp add: GetLIDForPN_def getLIDMapping_def entry_def)

end
