(* ===== verification/SecurityCode.thy ===== *)
theory SecurityCode
  imports Identity "HOL-Library.Multiset"
begin

text \<open>
  \<open>src/security_code.go\<close>: the codes two users compare to verify each other's identity keys. SHA-512, the
  protobuf encoding of the QR code, the library's text of a Signal address and the answers of the
  server are parameters; \<open>cancelled n\<close> is what the n-th look at the context says. The lemmas show that
  both users see the same numeric code, that it has sixty digits, and where the keys in it come from.
\<close>

unbundle bit_operations_syntax

section \<open>Keys\<close>

datatype code_error =
    CodeCancelled | RequiresLID | NoLocalLID | LocalUser | NoLocalKey | DevicesFailed | NoRemoteDevices
  | ReadFailed db_error | FetchFailed | MissingFromResponse JID | DeviceFetchFailed JID | EnsureFailed JID db_error
  | NotTrusted JID | KeyUnavailable JID | LIDRequired | PhoneNotPN | NoKeys | QRMarshalFailed
  | InvalidLocal code_error | InvalidRemote code_error | LocalIdentities code_error | RemoteIdentities code_error

text \<open>The addresses of the devices, each once, with the device it stands for.\<close>

fun unique_addresses :: "(JID \<Rightarrow> string) \<Rightarrow> JID list \<Rightarrow> (string \<times> JID) list \<Rightarrow> (string \<times> JID) list" where
  "unique_addresses addr [] acc = acc"
| "unique_addresses addr (d # ds) acc =
     unique_addresses addr ds (if map_of acc (addr d) \<noteq> None then acc else acc @ [(addr d, d)])"

fun ensure_missing ::
  "(JID \<Rightarrow> string) \<Rightarrow> id_pick \<Rightarrow> (JID \<times> (unit + bytes)) list \<Rightarrow> 64 word \<Rightarrow> JID list \<Rightarrow> (string \<rightharpoonup> bytes) \<Rightarrow>
   (SQLStore, code_error, string \<rightharpoonup> bytes) sr" where
  "ensure_missing addr pick responses gen [] stored = sret stored"
| "ensure_missing addr pick responses gen (d # ds) stored =
     (case map_of responses d of
        None \<Rightarrow> serr (MissingFromResponse d)
      | Some (Inl _) \<Rightarrow> serr (DeviceFetchFailed d)
      | Some (Inr key) \<Rightarrow>
          sbind (swrap (EnsureFailed d) (EnsureIdentity pick (addr d) key gen)) (\<lambda>trusted.
            if \<not> trusted then serr (NotTrusted d)
            else ensure_missing addr pick responses gen ds (stored(addr d \<mapsto> key))))"

fun collect_keys :: "(string \<rightharpoonup> bytes) \<Rightarrow> (string \<times> JID) list \<Rightarrow> code_error + bytes list" where
  "collect_keys stored [] = Inr []"
| "collect_keys stored ((a, d) # ads) =
     (case stored a of
        None \<Rightarrow> Inl (KeyUnavailable d)
      | Some key \<Rightarrow> rbind (collect_keys stored ads) (\<lambda>keys. Inr (key # keys)))"

text \<open>
  \<open>fetch\<close> is the request for pre keys; it is a function of the store as well, since other operations
  may run while it waits.
\<close>

type_synonym prekey_fetch = "JID list \<Rightarrow> SQLStore \<Rightarrow> (unit + (JID \<times> (unit + bytes)) list) \<times> SQLStore"

definition fetch_missing ::
  "(JID \<Rightarrow> string) \<Rightarrow> id_pick \<Rightarrow> prekey_fetch \<Rightarrow> 64 word \<Rightarrow> JID list \<Rightarrow> (string \<rightharpoonup> bytes) \<Rightarrow>
   (SQLStore, code_error, string \<rightharpoonup> bytes) sr" where
  "fetch_missing addr pick fetch gen missing stored =
     (if missing = [] then sret stored
      else sbind (swrap (\<lambda>_. FetchFailed) (fetch missing)) (\<lambda>responses.
        ensure_missing addr pick responses gen missing stored))"

definition missing_devices :: "(string \<rightharpoonup> bytes) \<Rightarrow> (string \<times> JID) list \<Rightarrow> JID list" where
  "missing_devices stored ads = map snd (filter (\<lambda>(a, d). stored a = None) ads)"

definition readIdentityKeys :: "(JID \<Rightarrow> string) \<Rightarrow> id_pick \<Rightarrow> prekey_fetch \<Rightarrow> JID list \<Rightarrow> (SQLStore, code_error, bytes list) sr" where
  "readIdentityKeys addr pick fetch devices =
     (let ads = unique_addresses addr devices [] in
      sbind (swrap ReadFailed (GetManyIdentities pick (map fst ads))) (\<lambda>(stored, deleteGeneration).
      sbind (fetch_missing addr pick fetch deleteGeneration (missing_devices stored ads) stored) (\<lambda>stored.
        slift (collect_keys stored ads))))"

definition serializeIdentityKeys :: "bytes list \<Rightarrow> bytes" where
  "serializeIdentityKeys keys = concat (map (\<lambda>key. 5 # key) (sort keys))"

section \<open>The numeric code\<close>

abbreviation (input) "securityCodeIterations \<equiv> (5200 :: nat)"

text \<open>\<open>left\<close> rounds are left; the context is looked at in every 64th round.\<close>

fun code_rounds :: "(bytes \<Rightarrow> bytes) \<Rightarrow> (nat \<Rightarrow> bool) \<Rightarrow> nat \<Rightarrow> nat \<Rightarrow> bytes \<Rightarrow> bytes \<Rightarrow> code_error + bytes" where
  "code_rounds sha512 cancelled index 0 keys digest = Inr digest"
| "code_rounds sha512 cancelled index (Suc left) keys digest =
     (if index mod 64 = 0 \<and> cancelled (Suc (index div 64)) then Inl CodeCancelled
      else code_rounds sha512 cancelled (Suc index) left keys (sha512 (digest @ keys)))"

definition code_value :: "bytes \<Rightarrow> nat \<Rightarrow> 64 word" where
  "code_value digest offset =
     push_bit 32 (ucast (digest ! offset)) OR push_bit 24 (ucast (digest ! (offset + 1))) OR
     push_bit 16 (ucast (digest ! (offset + 2))) OR push_bit 8 (ucast (digest ! (offset + 3))) OR
     ucast (digest ! (offset + 4))"

text \<open>The format \<open>%05d\<close>.\<close>

definition pad5 :: "nat \<Rightarrow> string" where
  "pad5 n = (let s = FormatUint n in replicate (5 - length s) (CHR ''0'') @ s)"

definition generateSecurityCodeFingerprint ::
  "(bytes \<Rightarrow> bytes) \<Rightarrow> (nat \<Rightarrow> bool) \<Rightarrow> bytes \<Rightarrow> bytes \<Rightarrow> code_error + string" where
  "generateSecurityCodeFingerprint sha512 cancelled identifier keys =
     (if cancelled 0 then Inl CodeCancelled
      else
        rbind (code_rounds sha512 cancelled 0 securityCodeIterations keys (sha512 ([0, 0] @ keys @ identifier))) (\<lambda>digest.
          Inr (concat (map (\<lambda>offset. pad5 (unat (code_value digest offset mod 100000))) [0, 5, 10, 15, 20, 25]))))"

text \<open>A fingerprint looks at the context 83 times.\<close>

definition generateNumericSecurityCode ::
  "(bytes \<Rightarrow> bytes) \<Rightarrow> (nat \<Rightarrow> bool) \<Rightarrow> bytes \<Rightarrow> bytes list \<Rightarrow> bytes \<Rightarrow> bytes list \<Rightarrow> code_error + string" where
  "generateNumericSecurityCode sha512 cancelled localIdentifier localKeys remoteIdentifier remoteKeys =
     rbind (generateSecurityCodeFingerprint sha512 cancelled localIdentifier (serializeIdentityKeys localKeys)) (\<lambda>lcode.
     rbind (generateSecurityCodeFingerprint sha512 (\<lambda>n. cancelled (n + 83)) remoteIdentifier (serializeIdentityKeys remoteKeys)) (\<lambda>rcode.
       if lcode < rcode then Inr (lcode @ rcode) else Inr (rcode @ lcode)))"

section \<open>The codes of a pair of users\<close>

record identityVerificationFingerprint =
  fp_LID :: JID
  fp_Phone :: JID
  fp_Username :: string
  fp_Keys :: "bytes list"
  fp_Hosted :: bool

record FingerprintData =
  fd_LidIdentifier :: bytes
  fd_UsernameIdentifier :: bytes
  fd_Hosted :: bool
  fd_HashedPublicKey :: bytes
  fd_PnIdentifier :: "bytes option"
  fd_PublicKey :: "bytes option"

type_synonym qr_marshal = "FingerprintData \<Rightarrow> FingerprintData \<Rightarrow> bytes option"

definition buildFingerprintData :: "(bytes \<Rightarrow> bytes) \<Rightarrow> identityVerificationFingerprint \<Rightarrow> bool \<Rightarrow> FingerprintData" where
  "buildFingerprintData sha512 fp includeUnhashed =
     (let serialized = serializeIdentityKeys (fp_Keys fp) in
      \<lparr>fd_LidIdentifier = bytes_of_string (JID_String (fp_LID fp)), fd_UsernameIdentifier = bytes_of_string (fp_Username fp),
       fd_Hosted = fp_Hosted fp, fd_HashedPublicKey = sha512 serialized,
       fd_PnIdentifier = (if \<not> JID_IsEmpty (fp_Phone fp) then Some (bytes_of_string (User (fp_Phone fp))) else None),
       fd_PublicKey = (if includeUnhashed then Some serialized else None)\<rparr>)"

definition marshalCombinedFingerprint ::
  "(bytes \<Rightarrow> bytes) \<Rightarrow> qr_marshal \<Rightarrow> identityVerificationFingerprint \<Rightarrow> identityVerificationFingerprint \<Rightarrow> bool \<Rightarrow> code_error + bytes" where
  "marshalCombinedFingerprint sha512 marshal lf rf includeUnhashed =
     (case marshal (buildFingerprintData sha512 lf includeUnhashed) (buildFingerprintData sha512 rf includeUnhashed) of
        None \<Rightarrow> Inl QRMarshalFailed | Some b \<Rightarrow> Inr b)"

definition validateIdentityVerificationFingerprint :: "identityVerificationFingerprint \<Rightarrow> code_error + unit" where
  "validateIdentityVerificationFingerprint fp =
     (if Server (fp_LID fp) \<noteq> HiddenUserServer \<or> User (fp_LID fp) = [] then Inl LIDRequired
      else if \<not> JID_IsEmpty (fp_Phone fp) \<and> Server (fp_Phone fp) \<noteq> DefaultUserServer then Inl PhoneNotPN
      else if length (fp_Keys fp) = 0 then Inl NoKeys
      else Inr ())"

definition buildIdentityVerificationQRCodes ::
  "(bytes \<Rightarrow> bytes) \<Rightarrow> qr_marshal \<Rightarrow> identityVerificationFingerprint \<Rightarrow> identityVerificationFingerprint \<Rightarrow> code_error + bytes \<times> bytes" where
  "buildIdentityVerificationQRCodes sha512 marshal lf rf =
     rbind (rwrap InvalidLocal (validateIdentityVerificationFingerprint lf)) (\<lambda>_.
     rbind (rwrap InvalidRemote (validateIdentityVerificationFingerprint rf)) (\<lambda>_.
     rbind (marshalCombinedFingerprint sha512 marshal lf rf False) (\<lambda>display.
     rbind (marshalCombinedFingerprint sha512 marshal lf rf True) (\<lambda>verify. Inr (display, verify)))))"

record IdentityVerificationCodes =
  vc_UserID :: JID
  vc_PhoneNumber :: JID
  vc_Username :: string
  vc_NumericCode :: string
  vc_DisplayQRCode :: bytes
  vc_VerificationQRCode :: bytes

definition newIdentityVerificationCodes ::
  "(bytes \<Rightarrow> bytes) \<Rightarrow> (nat \<Rightarrow> bool) \<Rightarrow> qr_marshal \<Rightarrow> identityVerificationFingerprint \<Rightarrow> identityVerificationFingerprint \<Rightarrow>
   code_error + IdentityVerificationCodes" where
  "newIdentityVerificationCodes sha512 cancelled marshal lf rf =
     rbind (generateNumericSecurityCode sha512 cancelled (bytes_of_string (User (fp_LID lf))) (fp_Keys lf)
              (bytes_of_string (User (fp_LID rf))) (fp_Keys rf)) (\<lambda>numericCode.
     rbind (buildIdentityVerificationQRCodes sha512 marshal lf rf) (\<lambda>(displayQR, verificationQR).
       Inr \<lparr>vc_UserID = fp_LID rf, vc_PhoneNumber = fp_Phone rf, vc_Username = fp_Username rf, vc_NumericCode = numericCode,
            vc_DisplayQRCode = displayQR, vc_VerificationQRCode = verificationQR\<rparr>))"

definition is_lid_device :: "JID \<Rightarrow> JID \<Rightarrow> bool" where
  "is_lid_device lid device \<longleftrightarrow>
     User device = User lid \<and> (Server device = HiddenUserServer \<or> Server device = HostedLIDServer)"

definition splitIdentityVerificationDevices :: "JID list \<Rightarrow> JID \<Rightarrow> JID \<Rightarrow> 16 word option \<Rightarrow> JID list \<times> JID list" where
  "splitIdentityVerificationDevices devices localLID remoteLID currentDevice =
     (filter (\<lambda>d. is_lid_device localLID d \<and> (case currentDevice of None \<Rightarrow> True | Some c \<Rightarrow> Device d \<noteq> c)) devices,
      filter (\<lambda>d. \<not> is_lid_device localLID d \<and> is_lid_device remoteLID d) devices)"

definition hasHostedIdentityDevice :: "JID list \<Rightarrow> bool" where
  "hasHostedIdentityDevice devices \<longleftrightarrow> (\<exists>d \<in> set devices. Server d = HostedLIDServer \<or> Server d = HostedServer)"

text \<open>
  The device's own data, and what the other stores and the server answer: the devices of the two
  users, the number of the remote user and the two user names.
\<close>

record code_client =
  cc_LID :: JID
  cc_ID :: "JID option"
  cc_IdentityPub :: "bytes option"
  cc_devices :: "JID list \<Rightarrow> unit + JID list"
  cc_phone :: "JID \<Rightarrow> unit + JID"
  cc_username :: "JID \<Rightarrow> string option"

definition contact_username :: "code_client \<Rightarrow> JID \<Rightarrow> string" where
  "contact_username cli j = (case cc_username cli j of None \<Rightarrow> [] | Some u \<Rightarrow> u)"

definition local_fingerprint :: "code_client \<Rightarrow> JID list \<Rightarrow> bytes list \<Rightarrow> identityVerificationFingerprint" where
  "local_fingerprint cli devices keys =
     \<lparr>fp_LID = ToNonAD (cc_LID cli),
      fp_Phone = (case cc_ID cli of
        Some j \<Rightarrow> if Server j = DefaultUserServer then ToNonAD j else EmptyJID | None \<Rightarrow> EmptyJID),
      fp_Username = contact_username cli (ToNonAD (cc_LID cli)), fp_Keys = keys, fp_Hosted = hasHostedIdentityDevice devices\<rparr>"

definition remote_fingerprint :: "code_client \<Rightarrow> JID \<Rightarrow> JID list \<Rightarrow> bytes list \<Rightarrow> identityVerificationFingerprint" where
  "remote_fingerprint cli userID devices keys =
     \<lparr>fp_LID = userID, fp_Phone = (case cc_phone cli userID of Inl _ \<Rightarrow> EmptyJID | Inr j \<Rightarrow> j),
      fp_Username = contact_username cli userID, fp_Keys = keys, fp_Hosted = hasHostedIdentityDevice devices\<rparr>"

text \<open>
  The nil checks of the client and of its stores are left out: a store without the map of hidden
  identifiers or without contacts is one whose answers are empty.
\<close>

definition GetIdentityVerificationCodes ::
  "(bytes \<Rightarrow> bytes) \<Rightarrow> (nat \<Rightarrow> bool) \<Rightarrow> qr_marshal \<Rightarrow> (JID \<Rightarrow> string) \<Rightarrow> id_pick \<Rightarrow> prekey_fetch \<Rightarrow> code_client \<Rightarrow> JID \<Rightarrow>
   (SQLStore, code_error, IdentityVerificationCodes) sr" where
  "GetIdentityVerificationCodes sha512 cancelled marshal addr pick fetch cli userID0 =
     (let userID = ToNonAD userID0; localLID = ToNonAD (cc_LID cli) in
      if Server userID \<noteq> HiddenUserServer \<or> User userID = [] then serr RequiresLID
      else if Server localLID \<noteq> HiddenUserServer \<or> User localLID = [] then serr NoLocalLID
      else if localLID = userID then serr LocalUser
      else case cc_IdentityPub cli of
        None \<Rightarrow> serr NoLocalKey
      | Some pub \<Rightarrow>
          (case cc_devices cli [localLID, userID] of
             Inl _ \<Rightarrow> serr DevicesFailed
           | Inr devices \<Rightarrow>
               (let (localDevices, remoteDevices) =
                      splitIdentityVerificationDevices devices localLID userID (map_option Device (cc_ID cli))
                in if length remoteDevices = 0 then serr NoRemoteDevices
                   else
                     sbind (swrap LocalIdentities (readIdentityKeys addr pick fetch localDevices)) (\<lambda>otherLocalKeys.
                     sbind (swrap RemoteIdentities (readIdentityKeys addr pick fetch remoteDevices)) (\<lambda>remoteKeys.
                       slift (newIdentityVerificationCodes sha512 cancelled marshal
                         (local_fingerprint cli localDevices (pub # otherLocalKeys))
                         (remote_fingerprint cli userID remoteDevices remoteKeys)))))))"

section \<open>Both users see the same code\<close>

lemma length_FormatUint_le: "n < 10 ^ k \<Longrightarrow> 0 < k \<Longrightarrow> length (FormatUint n) \<le> k"
proof (induction k arbitrary: n)
  case (Suc k)
  show ?case
  proof (cases "n < 10")
    case True
    then show ?thesis by (simp add: FormatUint.simps [of n])
  next
    case False
    with Suc.prems have "n div 10 < 10 ^ k" and "0 < k"
      by (auto simp: less_mult_imp_div_less mult.commute intro: gr0I)
    from Suc.IH [OF this] False show ?thesis by (simp add: FormatUint.simps [of n])
  qed
qed simp

lemma length_pad5: "n < 100000 \<Longrightarrow> length (pad5 n) = 5"
  using length_FormatUint_le [of n 5] by (simp add: pad5_def Let_def)

lemma pad5_digits: "set (pad5 n) \<subseteq> set ''0123456789''"
  using FormatUint_digits [of n] by (auto simp: pad5_def Let_def)

lemma unat_mod_bound: "unat (w mod (100000 :: 64 word)) < 100000"
  by (simp add: unat_mod)

lemma code_rounds_eq:
  "code_rounds sha512 cancelled index left keys digest =
     (if \<exists>i \<in> {index ..< index + left}. i mod 64 = 0 \<and> cancelled (Suc (i div 64)) then Inl CodeCancelled
      else Inr (((\<lambda>d. sha512 (d @ keys)) ^^ left) digest))"
proof (induction left arbitrary: index digest)
  case (Suc left)
  have range: "{index ..< index + Suc left} = insert index {Suc index ..< Suc index + left}" by auto
  show ?case unfolding range by (simp add: Suc.IH funpow_Suc_right del: funpow.simps)
qed simp

lemma looks_at_context:
  "(\<exists>i \<in> {0 ..< 5200}. i mod 64 = (0 :: nat) \<and> c (Suc (i div 64))) \<longleftrightarrow> (\<exists>n \<in> {1 .. 82}. c n)"
proof
  assume "\<exists>n \<in> {1 .. 82}. c n"
  then obtain n where "n \<in> {1 .. 82}" and "c n" by blast
  then show "\<exists>i \<in> {0 ..< 5200}. i mod 64 = (0 :: nat) \<and> c (Suc (i div 64))"
    by (intro bexI [of _ "(n - 1) * 64"]) auto
next
  assume "\<exists>i \<in> {0 ..< 5200}. i mod 64 = (0 :: nat) \<and> c (Suc (i div 64))"
  then obtain i where "i < 5200" and "c (Suc (i div 64))" by auto
  moreover from \<open>i < 5200\<close> have "i div 64 < 82" by (simp add: less_mult_imp_div_less)
  ultimately show "\<exists>n \<in> {1 .. 82}. c n" by (intro bexI [of _ "Suc (i div 64)"]) auto
qed

definition fingerprint_text :: "(bytes \<Rightarrow> bytes) \<Rightarrow> bytes \<Rightarrow> bytes \<Rightarrow> string" where
  "fingerprint_text sha512 identifier keys =
     (let digest = ((\<lambda>d. sha512 (d @ keys)) ^^ 5200) (sha512 ([0, 0] @ keys @ identifier))
      in concat (map (\<lambda>offset. pad5 (unat (code_value digest offset mod 100000))) [0, 5, 10, 15, 20, 25]))"

lemma fingerprint_eq:
  "generateSecurityCodeFingerprint sha512 c identifier keys =
     (if \<exists>n < 83. c n then Inl CodeCancelled else Inr (fingerprint_text sha512 identifier keys))"
proof -
  have "(\<exists>n < 83. c n) \<longleftrightarrow> c 0 \<or> (\<exists>n \<in> {1 .. 82}. c n)"
  proof
    assume "\<exists>n < 83. c n"
    then obtain n where n: "n < 83" "c n" by blast
    then show "c 0 \<or> (\<exists>n \<in> {1 .. 82}. c n)" by (cases n) auto
  next
    assume "c 0 \<or> (\<exists>n \<in> {1 .. 82}. c n)"
    then show "\<exists>n < 83. c n"
    proof
      assume "c 0"
      then show ?thesis by (intro exI [of _ 0]) simp
    next
      assume "\<exists>n \<in> {1 .. 82}. c n"
      then obtain n where "n \<in> {1 .. 82}" and "c n" by blast
      then show ?thesis by (intro exI [of _ n]) simp
    qed
  qed
  then show ?thesis
    by (simp add: generateSecurityCodeFingerprint_def code_rounds_eq looks_at_context fingerprint_text_def Let_def)
qed

lemma fingerprint_text_shape:
  "length (fingerprint_text sha512 identifier keys) = 30" "set (fingerprint_text sha512 identifier keys) \<subseteq> set ''0123456789''"
  using pad5_digits by (auto simp: fingerprint_text_def Let_def length_pad5 unat_mod_bound)

lemma serialize_order: "mset ks = mset ks' \<Longrightarrow> serializeIdentityKeys ks = serializeIdentityKeys ks'"
  by (simp add: serializeIdentityKeys_def properties_for_sort [of "sort ks'" ks])

definition joined :: "string \<Rightarrow> string \<Rightarrow> string" where
  "joined l r = (if l < r then l @ r else r @ l)"

lemma joined_commute: "joined l r = joined r l"
  by (cases l r rule: linorder_cases) (auto simp: joined_def)

lemma joined_shape: "length (joined l r) = length l + length r" "set (joined l r) = set l \<union> set r"
  by (auto simp: joined_def)

lemma numeric_eq:
  "generateNumericSecurityCode sha512 c li lk ri rk =
     (if \<exists>n < 166. c n then Inl CodeCancelled
      else Inr (joined (fingerprint_text sha512 li (serializeIdentityKeys lk))
                 (fingerprint_text sha512 ri (serializeIdentityKeys rk))))"
proof -
  have "(\<exists>n < 166. c n) \<longleftrightarrow> (\<exists>n < 83. c n) \<or> (\<exists>n < 83. c (n + 83))"
  proof
    assume "\<exists>n < 166. c n"
    then obtain n where n: "n < 166" "c n" by blast
    show "(\<exists>n < 83. c n) \<or> (\<exists>n < 83. c (n + 83))"
    proof (cases "n < 83")
      case False
      with n have "n - 83 < 83 \<and> c (n - 83 + 83)" by simp
      then show ?thesis by blast
    qed (use n in blast)
  next
    assume "(\<exists>n < 83. c n) \<or> (\<exists>n < 83. c (n + 83))"
    then show "\<exists>n < 166. c n"
    proof
      assume "\<exists>n < 83. c n"
      then obtain n where "n < 83" and "c n" by blast
      then show ?thesis by (intro exI [of _ n]) simp
    next
      assume "\<exists>n < 83. c (n + 83)"
      then obtain n where "n < 83" and "c (n + 83)" by blast
      then show ?thesis by (intro exI [of _ "n + 83"]) simp
    qed
  qed
  then show ?thesis by (auto simp: generateNumericSecurityCode_def fingerprint_eq joined_def)
qed

text \<open>
  C28: the two users of a conversation see the same code: whichever side computes it and in whatever
  order it holds the keys, the result is one text of sixty digits, unless the context is cancelled at
  one of the 166 times the code looks at it, which is the error.
\<close>

theorem security_code_symmetric:
  assumes "mset lk = mset lk'" and "mset rk = mset rk'"
  shows "\<exists>code. length code = 60 \<and> set code \<subseteq> set ''0123456789'' \<and>
    (\<forall>c. generateNumericSecurityCode sha512 c li lk ri rk = (if \<exists>n < 166. c n then Inl CodeCancelled else Inr code)) \<and>
    (\<forall>c. generateNumericSecurityCode sha512 c ri rk' li lk' = (if \<exists>n < 166. c n then Inl CodeCancelled else Inr code))"
proof -
  let ?l = "fingerprint_text sha512 li (serializeIdentityKeys lk)"
  let ?r = "fingerprint_text sha512 ri (serializeIdentityKeys rk)"
  have "length (joined ?l ?r) = 60" and "set (joined ?l ?r) \<subseteq> set ''0123456789''"
    unfolding joined_shape using fingerprint_text_shape [of sha512] by (simp, blast)
  moreover have "generateNumericSecurityCode sha512 c li lk ri rk = (if \<exists>n < 166. c n then Inl CodeCancelled else Inr (joined ?l ?r))" for c
    by (rule numeric_eq)
  moreover have "generateNumericSecurityCode sha512 c ri rk' li lk' = (if \<exists>n < 166. c n then Inl CodeCancelled else Inr (joined ?l ?r))" for c
    unfolding numeric_eq serialize_order [OF assms(1)] serialize_order [OF assms(2)] by (simp only: joined_commute)
  ultimately show ?thesis by blast
qed

theorem security_code_symmetric_witness:
  "\<exists>code. length code = 60 \<and> set code \<subseteq> set ''0123456789'' \<and>
    (\<forall>c. generateNumericSecurityCode (take 64) c [1] [replicate 32 7, replicate 32 3] [2] [replicate 32 9] =
      (if \<exists>n < 166. c n then Inl CodeCancelled else Inr code)) \<and>
    (\<forall>c. generateNumericSecurityCode (take 64) c [2] [replicate 32 9] [1] [replicate 32 3, replicate 32 7] =
      (if \<exists>n < 166. c n then Inl CodeCancelled else Inr code))"
  by (rule security_code_symmetric) (simp_all add: add_mset_commute)

lemma new_codes_ok:
  assumes "newIdentityVerificationCodes sha512 c marshal lf rf = Inr codes"
  shows "vc_UserID codes = fp_LID rf" and "length (vc_NumericCode codes) = 60"
    and "validateIdentityVerificationFingerprint lf = Inr ()" and "validateIdentityVerificationFingerprint rf = Inr ()"
  using assms
  by (auto simp: newIdentityVerificationCodes_def buildIdentityVerificationQRCodes_def rbind_eq_Inr numeric_eq joined_shape
    fingerprint_text_shape split: if_splits)

text \<open>Codes are given only for a hidden user other than the local one; a device of the local user is not taken for the remote one.\<close>

lemma GetIdentityVerificationCodes_ok:
  assumes "GetIdentityVerificationCodes sha512 c marshal addr pick fetch cli userID s = (Inr codes, s')"
  shows "vc_UserID codes = ToNonAD userID" and "length (vc_NumericCode codes) = 60"
    and "Server (ToNonAD userID) = HiddenUserServer" and "ToNonAD (cc_LID cli) \<noteq> ToNonAD userID"
proof -
  obtain lf ds ks where "newIdentityVerificationCodes sha512 c marshal lf (remote_fingerprint cli (ToNonAD userID) ds ks) = Inr codes"
    and "Server (ToNonAD userID) = HiddenUserServer" and "ToNonAD (cc_LID cli) \<noteq> ToNonAD userID"
    using assms
    by (auto simp: GetIdentityVerificationCodes_def Let_def sbind_eq_Inr split: if_splits option.splits sum.splits prod.splits)
  then show "vc_UserID codes = ToNonAD userID" and "length (vc_NumericCode codes) = 60"
    and "Server (ToNonAD userID) = HiddenUserServer" and "ToNonAD (cc_LID cli) \<noteq> ToNonAD userID"
    using new_codes_ok(1,2) by (auto simp: remote_fingerprint_def)
qed

lemma split_devices_disjoint:
  "splitIdentityVerificationDevices ds l r cur = (ld, rd) \<Longrightarrow>
     set ld \<inter> set rd = {} \<and> (\<forall>d \<in> set ld. User d = User l \<and> cur \<noteq> Some (Device d)) \<and> (\<forall>d \<in> set rd. User d = User r)"
  by (auto simp: splitIdentityVerificationDevices_def is_lid_device_def split: option.splits)

section \<open>Where the keys come from\<close>

lemma unique_addresses_ok:
  assumes "distinct (map fst acc)" and "\<forall>(a, d) \<in> set acc. a = addr d"
  shows "distinct (map fst (unique_addresses addr ds acc))"
    and "\<forall>(a, d) \<in> set (unique_addresses addr ds acc). a = addr d"
    and "fst ` set (unique_addresses addr ds acc) = fst ` set acc \<union> addr ` set ds"
proof -
  have "distinct (map fst (unique_addresses addr ds acc)) \<and> (\<forall>(a, d) \<in> set (unique_addresses addr ds acc). a = addr d) \<and>
    fst ` set (unique_addresses addr ds acc) = fst ` set acc \<union> addr ` set ds"
    using assms
  proof (induction ds arbitrary: acc)
    case (Cons d ds)
    define acc' where "acc' = (if map_of acc (addr d) \<noteq> None then acc else acc @ [(addr d, d)])"
    have "distinct (map fst acc')" and "\<forall>(a, d) \<in> set acc'. a = addr d"
      using Cons.prems by (auto simp: acc'_def map_of_eq_None_iff)
    note ih = Cons.IH [OF this]
    have fst': "fst ` set acc' = insert (addr d) (fst ` set acc)"
      by (auto simp: acc'_def map_of_eq_None_iff insert_absorb dest: map_of_SomeD intro: rev_image_eqI)
    from ih show ?case unfolding unique_addresses.simps acc'_def [symmetric] fst' by auto
  qed simp
  then show "distinct (map fst (unique_addresses addr ds acc))"
    and "\<forall>(a, d) \<in> set (unique_addresses addr ds acc). a = addr d"
    and "fst ` set (unique_addresses addr ds acc) = fst ` set acc \<union> addr ` set ds"
    by blast+
qed

lemmas unique_addresses_start = unique_addresses_ok [of "[]", simplified]

text \<open>A round of the loop over the fetched keys: the key is in the table, and no key changed.\<close>

lemma EnsureIdentity_trusted:
  assumes "id_ok s" and "EnsureIdentity pick a key g s = (Inr True, s')"
  shows "id_ok s'" and "identityDeleteGen s' = g" and "identityDeleteGen s = g" and "ids s' a = Some key"
    and "ids s \<subseteq>\<^sub>m ids s'"
  using EnsureIdentity_ok [OF assms] by (auto simp: map_le_def)

lemma ensure_missing_ok:
  assumes "id_ok s" and "ensure_missing addr pick responses gen ds stored s = (Inr st, s')"
  shows "id_ok s' \<and> ids s \<subseteq>\<^sub>m ids s' \<and> identityDeleteGen s' = identityDeleteGen s \<and>
    (ds \<noteq> [] \<longrightarrow> identityDeleteGen s = gen) \<and> (\<forall>a. a \<notin> addr ` set ds \<longrightarrow> st a = stored a) \<and>
    (\<forall>d \<in> set ds. \<exists>k. st (addr d) = Some k \<and> ids s' (addr d) = Some k)"
  using assms
proof (induction ds arbitrary: stored s)
  case (Cons d ds)
  obtain key s1 where e: "EnsureIdentity pick (addr d) key gen s = (Inr True, s1)"
    and r: "ensure_missing addr pick responses gen ds (stored(addr d \<mapsto> key)) s1 = (Inr st, s')"
    using Cons.prems(2) by (auto simp: sbind_eq_Inr split: option.splits sum.splits if_splits)
  note t = EnsureIdentity_trusted [OF Cons.prems(1) e]
  note ih = Cons.IH [OF t(1) r]
  have here: "st (addr d) = Some key \<and> ids s' (addr d) = Some key"
  proof -
    have "ids s' (addr d) = Some key" using ih t(4) by (auto simp: map_le_def dom_def)
    moreover have "st (addr d) = Some key"
    proof (cases "addr d \<in> addr ` set ds")
      case True
      then show ?thesis using ih \<open>ids s' (addr d) = Some key\<close> by force
    qed (use ih in simp)
    ultimately show ?thesis by blast
  qed
  have "ids s \<subseteq>\<^sub>m ids s'" using map_le_trans [OF t(5)] ih by blast
  with here ih t show ?case by auto
qed simp

lemma collect_keys_ok:
  "collect_keys stored ads = Inr keys \<longleftrightarrow> list_all2 (\<lambda>a k. stored a = Some k) (map fst ads) keys"
proof (induction ads arbitrary: keys)
  case (Cons ad ads)
  obtain a d where "ad = (a, d)" by fastforce
  with Cons.IH show ?case
    by (cases "stored a") (auto simp: list_all2_Cons1 rbind_eq_Inr)
qed auto

text \<open>The keys after the request: those of the table at the start, the others from the table at the end.\<close>

lemma fetch_missing_ok:
  assumes "id_ok s" and keeps: "\<forall>ds s r t. id_ok s \<and> fetch ds s = (r, t) \<longrightarrow> id_ok t"
    and run: "fetch_missing addr pick fetch gen missing stored s = (Inr st, s')"
  shows "id_ok s' \<and> (\<forall>a. a \<notin> addr ` set missing \<longrightarrow> st a = stored a) \<and>
    (\<forall>a \<in> addr ` set missing. st a = ids s' a \<and> identityDeleteGen s' = gen)"
proof (cases "missing = []")
  case True
  with assms show ?thesis by (simp add: fetch_missing_def)
next
  case False
  then obtain responses s2 where f: "fetch missing s = (Inr responses, s2)"
    and e: "ensure_missing addr pick responses gen missing stored s2 = (Inr st, s')"
    using run by (auto simp: fetch_missing_def sbind_eq_Inr)
  have "id_ok s2" using keeps assms(1) f by blast
  note em = ensure_missing_ok [OF this e]
  have "st (addr d) = ids s' (addr d)" if "d \<in> set missing" for d
    using em that by force
  with em False show ?thesis by auto
qed

lemma missing_devices_addr:
  assumes "\<forall>(a, d) \<in> set ads. a = addr d"
  shows "addr ` set (missing_devices stored ads) = {a \<in> fst ` set ads. stored a = None}"
  using assms by (force simp: missing_devices_def)

text \<open>
  C29: every device contributes one key of 32 bytes to the code, each address once. A key is the one the
  identity table held when the keys were read. A key that was not there is the one the server sent, and
  then it is in the table at the end and no identity was deleted while the request was waiting. Other
  operations may change the store during the request, as long as its cache agrees with its table.
\<close>

theorem readIdentityKeys_trusted:
  assumes ok: "id_ok s" and keeps: "\<forall>ds s r t. id_ok s \<and> fetch ds s = (r, t) \<longrightarrow> id_ok t"
    and run: "readIdentityKeys addr pick fetch devices s = (Inr keys, s')"
  shows "id_ok s' \<and> (\<exists>as. distinct as \<and> set as = addr ` set devices \<and>
    list_all2 (\<lambda>a k. length k = 32 \<and> (ids s a = Some k \<or>
      ids s a = None \<and> ids s' a = Some k \<and> identityDeleteGen s' = identityDeleteGen s)) as keys)"
proof -
  define ads where "ads = unique_addresses addr devices []"
  have ads: "distinct (map fst ads)" "\<forall>(a, d) \<in> set ads. a = addr d" "fst ` set ads = addr ` set devices"
    unfolding ads_def by (rule unique_addresses_start)+
  obtain r s1 where g: "GetManyIdentities pick (map fst ads) s = (r, s1)" by fastforce
  note many = GetManyIdentities_ok [OF ok g]
  define stored where "stored = ids s |` set (map fst ads)"
  have r: "r = Inr (stored, identityDeleteGen s)"
    using run many(4) unfolding stored_def
    by (auto simp: readIdentityKeys_def ads_def [symmetric] Let_def sbind_eq_Inr g)
  obtain st where st: "fetch_missing addr pick fetch (identityDeleteGen s) (missing_devices stored ads) stored s1 = (Inr st, s')"
    and col: "collect_keys st ads = Inr keys"
    using run by (auto simp: readIdentityKeys_def ads_def [symmetric] Let_def sbind_eq_Inr g r)
  note res = fetch_missing_ok [OF many(1) keeps st, unfolded missing_devices_addr [OF ads(2)]]
  have len: "length k = 32" if "id_ok t" "ids t a = Some k" for t a k
    using that by (simp add: id_ok_def)
  have "list_all2 (\<lambda>a k. length k = 32 \<and> (ids s a = Some k \<or>
      ids s a = None \<and> ids s' a = Some k \<and> identityDeleteGen s' = identityDeleteGen s)) (map fst ads) keys"
    using col unfolding collect_keys_ok
  proof (rule list.rel_mono_strong)
    fix a k
    assume a: "a \<in> set (map fst ads)" and "st a = Some k"
    moreover from a have "stored a = ids s a" by (simp add: stored_def)
    ultimately show "length k = 32 \<and> (ids s a = Some k \<or> ids s a = None \<and> ids s' a = Some k \<and> identityDeleteGen s' = identityDeleteGen s)"
      using res len [OF ok, of a k] len [of s' a k] by (cases "ids s a") auto
  qed
  with res ads show ?thesis by (intro conjI exI [of _ "map fst ads"]) auto
qed

definition demo_store :: SQLStore where
  "demo_store = snd (PutIdentity (\<lambda>_. 0) ''1:0'' (demo_key 1) (NewSQLStore (empty_signal_db (\<lambda>n. False))))"

definition demo_addr :: "JID \<Rightarrow> string" where
  "demo_addr j = User j @ '':0''"

definition demo_jid :: "string \<Rightarrow> JID" where
  "demo_jid u = NewJID u HiddenUserServer"

definition demo_fetch :: prekey_fetch where
  "demo_fetch ds s = (Inr (map (\<lambda>d. (d, Inr (demo_key 2))) ds), s)"

lemma demo_store_ok: "id_ok demo_store"
proof -
  have "id_ok (NewSQLStore (empty_signal_db (\<lambda>n. False)))"
    by (simp add: id_ok_def id_coherent_def NewSQLStore_def empty_signal_db_def)
  then show ?thesis unfolding demo_store_def using PutIdentity_ok by (metis prod.collapse)
qed

lemma demo_read:
  "fst (readIdentityKeys demo_addr (\<lambda>_. 0) demo_fetch [demo_jid ''1'', demo_jid ''2'', demo_jid ''1''] demo_store) =
     Inr [demo_key 1, demo_key 2]"
  by code_simp

theorem readIdentityKeys_trusted_witness:
  "\<exists>keys s'. readIdentityKeys demo_addr (\<lambda>_. 0) demo_fetch [demo_jid ''1'', demo_jid ''2'', demo_jid ''1''] demo_store = (Inr keys, s') \<and>
    keys = [demo_key 1, demo_key 2] \<and> id_ok s' \<and>
    (\<exists>as. distinct as \<and> set as = demo_addr ` set [demo_jid ''1'', demo_jid ''2'', demo_jid ''1''] \<and>
    list_all2 (\<lambda>a k. length k = 32 \<and> (ids demo_store a = Some k \<or>
      ids demo_store a = None \<and> ids s' a = Some k \<and> identityDeleteGen s' = identityDeleteGen demo_store)) as keys)"
proof -
  obtain s' where run: "readIdentityKeys demo_addr (\<lambda>_. 0) demo_fetch [demo_jid ''1'', demo_jid ''2'', demo_jid ''1''] demo_store =
      (Inr [demo_key 1, demo_key 2], s')"
    using demo_read by (metis prod.collapse)
  have keeps: "\<forall>ds s r t. id_ok s \<and> demo_fetch ds s = (r, t) \<longrightarrow> id_ok t"
    by (simp add: demo_fetch_def)
  from readIdentityKeys_trusted [OF demo_store_ok keeps run] run show ?thesis by blast
qed

end
