(* ===== verification/Spec2Isabelle.thy ===== *)
theory Spec2Isabelle
  imports Codec AttrUtil Xml FrameSocket Noise Handshake Cbc AppSync AppRuns IdentityRuns SessionCache RecentRuns LidMap SecurityCode
begin

text \<open>
  A verification of the core of hypermeow, a Go client library for a multi-device messaging
  protocol. The source is under \<open>src/\<close>; file names below are relative to it.

  \<^bold>\<open>The program.\<close> A client opens a websocket, cuts its byte stream into frames
  (\<open>socket/framesocket.go\<close>), runs a Noise handshake over it (\<open>socket/noisehandshake.go\<close>, \<open>handshake.go\<close>)
  and then exchanges encrypted frames (\<open>socket/noisesocket.go\<close>). A frame holds one element in a compact
  binary XML (\<open>binary/\<close>), whose attributes are often addresses (\<open>types/jid.go\<close>). Messages inside
  elements are encrypted by the Signal protocol library, which keeps its keys and sessions in the SQL
  store (\<open>store/\<close>, \<open>store/sqlstore/\<close>). Settings shared by the devices of an account are the app state
  (\<open>appstate/\<close>): patches of encrypted mutations under a summation hash.

  \<^bold>\<open>Conventions.\<close> A Go \<open>(T, error)\<close> is a sum with the error on the left, and a panic the model can reach
  is an error value as well. Strings and byte slices are lists of characters and of 8-bit words;
  fixed-width integers are words, or integers with the wrap-around written out. A Go map whose iteration
  order matters is an association list in the order of one execution, and choices of the runtime (the
  entry a bounded cache evicts) are arguments. Operations on a state are functions from the state to a
  result and the new state (\<open>StateResult\<close>). A database has its tables and an oracle that says which
  statements fail; a failed transaction restores the tables (\<open>Sql\<close>). Cryptographic primitives, zlib,
  protobuf, JSON, clocks, randomness, the Signal library and the server are parameters. Theorems name
  what they assume of them, and their witnesses use a concrete instance.

  \<^bold>\<open>Shared theories.\<close> \<open>Prelude\<close> (bytes, results, association lists), \<open>GoLib\<close> (\<open>strconv\<close> and
  \<open>strings\<close>), \<open>StateResult\<close>, \<open>Sql\<close>, \<open>Crypto\<close> (the primitives and the wrappers of \<open>util/gcmutil\<close>,
  \<open>util/hkdfutil\<close>, \<open>util/keys\<close>), \<open>Refinement\<close> (runs of operations against a specification: one
  simulation lemma per step gives the theorem for all runs).

  \<^bold>\<open>Binary XML.\<close> \<open>Tokens\<close> (\<open>binary/token/token.go\<close>), \<open>Jid\<close>, \<open>Nodes\<close> (\<open>node.go\<close>), \<open>Encoder\<close>, \<open>Decoder\<close>
  (with \<open>unpack.go\<close>), \<open>AttrUtil\<close> (\<open>attrs.go\<close>), \<open>Xml\<close> (\<open>xml.go\<close>). \<open>EncoderProps\<close> shows what each write
  appends; \<open>DecoderProps\<close> that decoding any input ends without an index or slice out of range; \<open>Codec\<close>
  that decoding an encoded element gives its wire form, and the element itself when it is canonical.
  Also: which addresses are parsed back from their text, which accounts share a Signal name, what
  typed getters return of what was put in, and that the log text does not depend on secrets.

  \<^bold>\<open>Transport.\<close> \<open>FrameSocket\<close>: reassembly refines the parser of the whole stream, frames arrive
  unchanged in order however the stream is cut, no reachable state panics. \<open>Noise\<close>: encrypted transport,
  distinct nonces for the cipher in every run of sends and delayed writes, and two cases in which the
  sides lose step. \<open>Handshake\<close>: success implies a valid certificate chain for the static key the server
  sent, and a server that follows the protocol ends with the same keys.

  \<^bold>\<open>Files and app state.\<close> \<open>Cbc\<close> (\<open>util/cbcutil/cbc.go\<close>): round trip; streaming and in-place versions
  equal the one-piece one. \<open>LtHash\<close> (\<open>appstate/lthash\<close>): the hash depends on the net content only.
  \<open>AppStore\<close> (its tables), \<open>AppState\<close> (\<open>hash.go\<close>, \<open>keys.go\<close>), \<open>AppDecode\<close> (\<open>decode.go\<close>, \<open>recovery.go\<close>),
  \<open>AppEncode\<close> (\<open>encode.go\<close>), and \<open>AppSync\<close> with the theorems across them: applied patches keep the saved
  hash equal to that of the saved MACs, the mutations of snapshots and patches that are returned are
  authentic, an encoded patch decodes to what was built, and saving is not atomic. \<open>AppRuns\<close>: the tables,
  with their rows per version, answer like maps of versions, current MACs and newest keys.

  \<^bold>\<open>Signal store.\<close> \<open>Cache\<close> (\<open>cache.go\<close>: bounded maps and counters), \<open>SignalDb\<close> (sessions, sender keys and
  transactions of \<open>store/sqlstore/store.go\<close>), \<open>Identity\<close> and \<open>IdentityRuns\<close> (the cached identity keys
  answer like a map, but for an \<open>EnsureIdentity\<close> that fails after its insert), \<open>Migrate\<close> (moving a user
  from the phone number to the hidden identifier, every row or none), \<open>PreKeys\<close> (table and upload, with \<open>prekeys.go\<close>), \<open>SessionCache\<close> (\<open>store/signal.go\<close> and
  \<open>store/sessioncache.go\<close>: the cache of a context is transparent), \<open>LidMap\<close> (\<open>store/sqlstore/lidmap.go\<close>:
  the cached map answers like a one-to-one relation).

  \<^bold>\<open>Messages.\<close> \<open>EventBuffer\<close> (event buffers, and decryption and padding of \<open>message.go\<close>: a ciphertext is
  decrypted at most once), \<open>Retry\<close> and \<open>RecentRuns\<close> (\<open>retry.go\<close>: the ring of sent messages is a queue,
  the counters bound retries, and an overflow that defeats the bound), \<open>SecurityCode\<close>
  (\<open>security_code.go\<close>: both users see the same code, and where its keys come from).

  \<^bold>\<open>Interfaces.\<close> Locales state what a client relies on, each interpreted on the definitions of the
  model: \<open>half_byte_codec\<close> (packed strings), \<open>value_reader\<close> (the recursive decoder), \<open>attr_getter\<close>,
  \<open>incremental_parser\<close> (frames), \<open>multiset_hash\<close>, \<open>mac_store\<close>, \<open>bounded_cache\<close> and \<open>op_refinement\<close>.

  \<^bold>\<open>Bounds.\<close> The decoder recurses on fuel, one more than the length of the input; every nested call
  consumes a byte, so it is never used up (\<open>DecoderProps\<close>). All other functions terminate by themselves.
  Theorems on counters and nonces state the widths and limits they hold for.

  \<^bold>\<open>Simplifications.\<close> Operations under one lock run one at a time; interleavings are modelled where
  the code allows them (a cancelled send in \<open>Noise\<close>, the request for pre keys in \<open>SecurityCode\<close>). Log
  lines and the wording of error messages are left out, and so are nil checks of the client itself.
  Records of the Signal library are values: a change the library makes through a pointer shows when it
  stores the record. Strings in the database are compared bytewise.

  \<^bold>\<open>Not modelled.\<close> The client's goroutines, timers, reconnection and event dispatch (\<open>client.go\<close>,
  \<open>connection*.go\<close>, \<open>keepalive.go\<close>, \<open>request.go\<close>) and media transfers (\<open>upload.go\<close>, \<open>download*.go\<close>,
  \<open>media*.go\<close>), whose behaviour is scheduling and network. Sending and pairing (\<open>send*.go\<close>, \<open>pair*.go\<close>)
  and the rest of \<open>message.go\<close> and \<open>retry.go\<close>, which assemble generated protobuf messages around the Signal
  library. Requests and notification handlers (\<open>user.go\<close>, \<open>group.go\<close>, \<open>business.go\<close>, \<open>newsletter*.go\<close>,
  \<open>notification.go\<close>, \<open>appstate.go\<close>), which copy fields between stanzas and structures. \<open>remote_signal.go\<close>
  and \<open>shadow.go\<close>, which forward to an interface of the application. Generated code and tools (\<open>proto/\<close>,
  \<open>mex/\<close>, \<open>argo/\<close>, \<open>internals.go\<close>, \<open>benchmark/\<close>). Pure or table code that could be added in the same
  style but is not in this version: the contact, chat setting, message secret and privacy token tables,
  message secrets and the tokens of \<open>tctoken.go\<close>, \<open>cstoken.go\<close> and \<open>reportingtoken.go\<close>.
\<close>

end
